(* ===== verification/Prelude.thy ===== *)
theory Prelude
  imports Main "HOL-Library.Word" "HOL-Library.Monad_Syntax"
begin

text \<open>
  Shared vocabulary of the development: the total-correctness predicate
  \<open>holds\<close> for computations that may fault (\<open>None\<close> stands for a null
  dereference, a failed assertion or a spin that can never end), its rules, and
  the generic facts on lists, options and words that the component theories use.
\<close>

unbundle bit_operations_syntax

named_theorems hold_rules \<open>rules that push holds through the option monad\<close>
named_theorems sys_defs \<open>unfolding of the elementary updates of a system state\<close>
named_theorems bit_masks \<open>evaluation of the flag words of task.h\<close>

section \<open>Computations that may fault\<close>

definition holds :: "'a option \<Rightarrow> ('a \<Rightarrow> bool) \<Rightarrow> bool" where
  "holds x P = (case x of None \<Rightarrow> False | Some a \<Rightarrow> P a)"

lemma holds_Some [simp, hold_rules]: "holds (Some a) P = P a"
  by (simp add: holds_def)

lemma holds_None [simp, hold_rules]: "holds None P = False"
  by (simp add: holds_def)

lemma holds_bind [simp, hold_rules]: "holds (Option.bind x f) P = holds x (\<lambda>a. holds (f a) P)"
  by (cases x) simp_all

lemma holds_if [hold_rules]:
  "holds (if b then x else y) P = (if b then holds x P else holds y P)"
  by simp

lemma holds_mono: "holds x P \<Longrightarrow> (\<And>a. P a \<Longrightarrow> Q a) \<Longrightarrow> holds x Q"
  by (cases x) simp_all

lemma holds_ex: "holds x P = (\<exists>a. x = Some a \<and> P a)"
  by (cases x) simp_all

lemma holdsE:
  assumes "holds x P"
  obtains a where "x = Some a" and "P a"
  using assms by (auto simp: holds_ex)

section \<open>Lists\<close>

lemma split_at_mem:
  assumes "x \<in> set xs"
  obtains ys zs where "xs = ys @ x # zs"
  using assms by (auto simp: in_set_conv_decomp)

lemma in_set_tlD: "x \<in> set (tl xs) \<Longrightarrow> x \<in> set xs"
  by (cases xs) auto

text \<open>How many points of a function satisfy \<open>P\<close>, when one of its values changes.\<close>

lemma members_keep: "P k = P (f t) \<Longrightarrow> {u. P ((f(t := k)) u)} = {u. P (f u)}"
  by auto

lemma members_gain:
  assumes "finite {u. P (f u)}" "\<not> P (f t)" "P k"
  shows "finite {u. P ((f(t := k)) u)}" "card {u. P ((f(t := k)) u)} = Suc (card {u. P (f u)})"
proof -
  have "{u. P ((f(t := k)) u)} = insert t {u. P (f u)}" using assms by auto
  then show "finite {u. P ((f(t := k)) u)}" "card {u. P ((f(t := k)) u)} = Suc (card {u. P (f u)})"
    using assms by simp_all
qed

lemma members_lose:
  assumes "finite {u. P (f u)}" "P (f t)" "\<not> P k"
  shows "finite {u. P ((f(t := k)) u)}" "card {u. P (f u)} = Suc (card {u. P ((f(t := k)) u)})"
proof -
  have e: "{u. P ((f(t := k)) u)} = {u. P (f u)} - {t}" using assms by auto
  show "finite {u. P ((f(t := k)) u)}" unfolding e using assms by simp
  show "card {u. P (f u)} = Suc (card {u. P ((f(t := k)) u)})"
    unfolding e using card_Suc_Diff1[of "{u. P (f u)}" t] assms by simp
qed

lemma distinct_remove_mid: "distinct (xs @ x # ys) \<Longrightarrow> remove1 x (xs @ x # ys) = xs @ ys"
  by (simp add: remove1_append)

text \<open>What an \<open>int32_t\<close> variable holds after the assignment of a \<open>size_t\<close>.\<close>

definition int32_of :: "nat \<Rightarrow> int" where
  "int32_of n = sint (of_nat n :: 32 word)"

lemma int32_small: "n < 2 ^ 31 \<Longrightarrow> int32_of n = int n"
  unfolding int32_of_def
  by (simp add: sint_uint unsigned_of_nat take_bit_nat_eq_self signed_take_bit_int_eq_self)

section \<open>Rings\<close>

lemma ring_slots_differ:
  assumes "i < k" "k < n" "t < (n :: nat)"
  shows "(t + i) mod n \<noteq> (t + k) mod n"
  using assms by (auto simp: mod_if)

end
