(* ===== verification/Chain.thy ===== *)
theory Chain
  imports Prelude
begin

text \<open>
  The intrusive doubly linked lists of \<^verbatim>\<open>include/chain.h\<close>.  A chain header has the
  three fields \<open>first\<close>, \<open>null_\<close>, \<open>last\<close> and is used as two overlapping
  list nodes: the head node overlays \<open>first\<close>/\<open>null_\<close> and the tail node overlays
  \<open>null_\<close>/\<open>last\<close>.  Memory is a function from cells (one per pointer field) to
  references; \<open>next_cell\<close> and \<open>previous_cell\<close> give the field a reference denotes,
  so the overlay is the equation
  \<open>next_cell f (TailNode c) = previous_cell f (HeadNode c)\<close>.
  Every macro is translated assignment by assignment; reading or writing through
  \<open>NULL\<close> is a fault (\<open>None\<close>).  The generic macros take the link field \<open>fld\<close>
  (the source's \<open>CHAIN_*(..., type, fld)\<close>), the \<open>_CHAIN_*\<close> family is the case
  of the link at offset zero (the \<open>node\<close> field of a task).

  The lemmas show that on well formed memory (\<open>chains k m Q\<close>: chain \<open>c\<close> holds
  the list \<open>Q c\<close>, no node on two chains of the same link field) no macro faults and
  each one performs the list operation its name promises and leaves all other chains alone.
\<close>

section \<open>References, cells and memory\<close>

datatype fld = Fld_node | Fld_link

datatype 'c ref = NULL | Tcb nat | HeadNode 'c | TailNode 'c

datatype 'c cell = First 'c | NullF 'c | Last 'c | Next fld nat | Previous fld nat

type_synonym 'c mem = "'c cell \<Rightarrow> 'c ref"

fun next_cell :: "fld \<Rightarrow> 'c ref \<Rightarrow> 'c cell option" where
  "next_cell f NULL = None"
| "next_cell f (Tcb t) = Some (Next f t)"
| "next_cell f (HeadNode c) = Some (First c)"
| "next_cell f (TailNode c) = Some (NullF c)"

fun previous_cell :: "fld \<Rightarrow> 'c ref \<Rightarrow> 'c cell option" where
  "previous_cell f NULL = None"
| "previous_cell f (Tcb t) = Some (Previous f t)"
| "previous_cell f (HeadNode c) = Some (NullF c)"
| "previous_cell f (TailNode c) = Some (Last c)"

definition chain_next :: "fld \<Rightarrow> 'c ref \<Rightarrow> 'c mem \<Rightarrow> 'c ref option" where
  "chain_next f r m = map_option m (next_cell f r)"

definition chain_prev :: "fld \<Rightarrow> 'c ref \<Rightarrow> 'c mem \<Rightarrow> 'c ref option" where
  "chain_prev f r m = map_option m (previous_cell f r)"

definition set_next :: "fld \<Rightarrow> 'c ref \<Rightarrow> 'c ref \<Rightarrow> 'c mem \<Rightarrow> 'c mem option" where
  "set_next f r v m = map_option (\<lambda>x. m(x := v)) (next_cell f r)"

definition set_previous :: "fld \<Rightarrow> 'c ref \<Rightarrow> 'c ref \<Rightarrow> 'c mem \<Rightarrow> 'c mem option" where
  "set_previous f r v m = map_option (\<lambda>x. m(x := v)) (previous_cell f r)"

section \<open>The macros\<close>

definition chain_init_empty :: "'c \<Rightarrow> 'c mem \<Rightarrow> 'c mem" where
  "chain_init_empty c m =
     (let the_head = HeadNode c; the_tail = TailNode c;
          m = m(First c := the_tail);
          m = m(Last c := the_head)
      in m(NullF c := NULL))"

definition chain_first :: "'c \<Rightarrow> 'c mem \<Rightarrow> 'c ref" where
  "chain_first c m = m (First c)"

definition chain_last :: "'c \<Rightarrow> 'c mem \<Rightarrow> 'c ref" where
  "chain_last c m = m (Last c)"

definition chain_insert_after :: "fld \<Rightarrow> 'c ref \<Rightarrow> 'c ref \<Rightarrow> 'c mem \<Rightarrow> 'c mem option" where
  "chain_insert_after f after_node the_node m = do {
     before_node \<leftarrow> chain_next f after_node m;
     m \<leftarrow> set_previous f the_node after_node m;
     m \<leftarrow> set_next f after_node the_node m;
     m \<leftarrow> set_next f the_node before_node m;
     set_previous f before_node the_node m
   }"

definition chain_insert_before :: "fld \<Rightarrow> 'c ref \<Rightarrow> 'c ref \<Rightarrow> 'c mem \<Rightarrow> 'c mem option" where
  "chain_insert_before f before_node the_node m = do {
     after_node \<leftarrow> chain_prev f before_node m;
     m \<leftarrow> set_previous f the_node after_node m;
     m \<leftarrow> set_next f after_node the_node m;
     m \<leftarrow> set_next f the_node before_node m;
     set_previous f before_node the_node m
   }"

definition chain_remove :: "fld \<Rightarrow> 'c ref \<Rightarrow> 'c mem \<Rightarrow> 'c mem option" where
  "chain_remove f the_node m = do {
     nxt \<leftarrow> chain_next f the_node m;
     previous \<leftarrow> chain_prev f the_node m;
     m \<leftarrow> set_previous f nxt previous m;
     set_next f previous nxt m
   }"

definition chain_replace :: "fld \<Rightarrow> 'c ref \<Rightarrow> 'c ref \<Rightarrow> 'c mem \<Rightarrow> 'c mem option" where
  "chain_replace f the_oldnode the_newnode m = do {
     nxt \<leftarrow> chain_next f the_oldnode m;
     previous \<leftarrow> chain_prev f the_oldnode m;
     m \<leftarrow> set_previous f nxt the_newnode m;
     m \<leftarrow> set_next f previous the_newnode m;
     m \<leftarrow> set_next f the_newnode nxt m;
     set_previous f the_newnode previous m
   }"

definition chain_append :: "fld \<Rightarrow> 'c \<Rightarrow> 'c ref \<Rightarrow> 'c mem \<Rightarrow> 'c mem option" where
  "chain_append f the_list the_node m = do {
     m \<leftarrow> set_next f the_node (TailNode the_list) m;
     let old_last_node = m (Last the_list);
     let m = m(Last the_list := the_node);
     m \<leftarrow> set_next f old_last_node the_node m;
     set_previous f the_node old_last_node m
   }"

definition chain_prepend :: "fld \<Rightarrow> 'c \<Rightarrow> 'c ref \<Rightarrow> 'c mem \<Rightarrow> 'c mem option" where
  "chain_prepend f the_list the_node m = do {
     m \<leftarrow> set_previous f the_node (HeadNode the_list) m;
     let old_first_node = m (First the_list);
     let m = m(First the_list := the_node);
     m \<leftarrow> set_previous f old_first_node the_node m;
     set_next f the_node old_first_node m
   }"

text \<open>The \<open>_CHAIN_*\<close> family: the link sits at offset zero of the node.\<close>

definition node_insert_after :: "'c ref \<Rightarrow> 'c ref \<Rightarrow> 'c mem \<Rightarrow> 'c mem option" where
  "node_insert_after = chain_insert_after Fld_node"

definition node_insert_before :: "'c ref \<Rightarrow> 'c ref \<Rightarrow> 'c mem \<Rightarrow> 'c mem option" where
  "node_insert_before = chain_insert_before Fld_node"

definition node_remove :: "'c ref \<Rightarrow> 'c mem \<Rightarrow> 'c mem option" where
  "node_remove = chain_remove Fld_node"

definition node_replace :: "'c ref \<Rightarrow> 'c ref \<Rightarrow> 'c mem \<Rightarrow> 'c mem option" where
  "node_replace = chain_replace Fld_node"

definition node_append :: "'c \<Rightarrow> 'c ref \<Rightarrow> 'c mem \<Rightarrow> 'c mem option" where
  "node_append = chain_append Fld_node"

definition node_prepend :: "'c \<Rightarrow> 'c ref \<Rightarrow> 'c mem \<Rightarrow> 'c mem option" where
  "node_prepend = chain_prepend Fld_node"

definition chain_is_empty :: "'c \<Rightarrow> 'c mem \<Rightarrow> bool" where
  "chain_is_empty c m = (m (First c) = TailNode c)"

definition node_extract_first :: "'c \<Rightarrow> 'c mem \<Rightarrow> ('c ref \<times> 'c mem) option" where
  "node_extract_first c m =
     (let the_first = (if chain_is_empty c m then NULL else m (First c)) in
      if \<not> chain_is_empty c m then do {
        let the_node = m (First c);
        nxt \<leftarrow> chain_next Fld_node the_node m;
        previous \<leftarrow> chain_prev Fld_node the_node m;
        m \<leftarrow> set_previous Fld_node nxt previous m;
        m \<leftarrow> set_next Fld_node previous nxt m;
        Some (the_first, m)
      } else Some (the_first, m))"

definition node_extract_last :: "'c \<Rightarrow> 'c mem \<Rightarrow> ('c ref \<times> 'c mem) option" where
  "node_extract_last c m = do {
     p \<leftarrow> chain_prev Fld_node (m (Last c)) m;
     let the_last = (if p \<noteq> NULL then m (Last c) else NULL);
     if p \<noteq> NULL then do {
       let the_node = m (Last c);
       nxt \<leftarrow> chain_next Fld_node the_node m;
       previous \<leftarrow> chain_prev Fld_node the_node m;
       m \<leftarrow> set_previous Fld_node nxt previous m;
       m \<leftarrow> set_next Fld_node previous nxt m;
       Some (the_last, m)
     } else Some (the_last, m)
   }"

text \<open>The traversal \<open>CHAIN_FOREACH\<close>: nodes are visited until one has no successor.\<close>

partial_function (option) chain_foreach :: "fld \<Rightarrow> 'c ref \<Rightarrow> 'c mem \<Rightarrow> 'c ref list \<Rightarrow> 'c ref list option"
  where
  "chain_foreach f the_node m visited =
     (case chain_next f the_node m of
        None \<Rightarrow> None
      | Some nxt \<Rightarrow> if nxt = NULL then Some visited
                    else chain_foreach f nxt m (visited @ [the_node]))"

text \<open>
  The traversal from the end, and the traversal \<open>CHAIN_FOREACH_SAFE\<close>, which reads the successor of a
  node before the body runs on it, so that the body may take the node off the chain.
\<close>

partial_function (option) chain_foreach_reverse :: "fld \<Rightarrow> 'c ref \<Rightarrow> 'c mem \<Rightarrow> 'c ref list \<Rightarrow> 'c ref list option"
  where
  "chain_foreach_reverse f the_node m visited =
     (case chain_prev f the_node m of
        None \<Rightarrow> None
      | Some prev \<Rightarrow> if prev = NULL then Some visited
                    else chain_foreach_reverse f prev m (visited @ [the_node]))"

partial_function (option) chain_foreach_safe :: "fld \<Rightarrow> ('c ref \<Rightarrow> 'c mem \<Rightarrow> 'c mem option) \<Rightarrow> 'c ref \<Rightarrow> 'c mem \<Rightarrow> 'c mem option"
  where
  "chain_foreach_safe f body the_node m =
     (case chain_next f the_node m of
        None \<Rightarrow> None
      | Some the_next \<Rightarrow> if the_next = NULL then Some m
          else case body the_node m of None \<Rightarrow> None
            | Some m \<Rightarrow> chain_foreach_safe f body the_next m)"

partial_function (option) chain_foreach_reverse_safe :: "fld \<Rightarrow> ('c ref \<Rightarrow> 'c mem \<Rightarrow> 'c mem option) \<Rightarrow> 'c ref \<Rightarrow> 'c mem \<Rightarrow> 'c mem option"
  where
  "chain_foreach_reverse_safe f body the_node m =
     (case chain_prev f the_node m of
        None \<Rightarrow> None
      | Some the_prev \<Rightarrow> if the_prev = NULL then Some m
          else case body the_node m of None \<Rightarrow> None
            | Some m \<Rightarrow> chain_foreach_reverse_safe f body the_prev m)"

text \<open>The same traversals for nodes at the beginning of a structure, started as the macros start them.\<close>

definition node_foreach :: "'c \<Rightarrow> 'c mem \<Rightarrow> 'c ref list option" where
  "node_foreach c m = chain_foreach Fld_node (chain_first c m) m []"

definition node_foreach_reverse :: "'c \<Rightarrow> 'c mem \<Rightarrow> 'c ref list option" where
  "node_foreach_reverse c m = chain_foreach_reverse Fld_node (chain_last c m) m []"

definition node_foreach_safe :: "('c ref \<Rightarrow> 'c mem \<Rightarrow> 'c mem option) \<Rightarrow> 'c \<Rightarrow> 'c mem \<Rightarrow> 'c mem option" where
  "node_foreach_safe body c m = chain_foreach_safe Fld_node body (chain_first c m) m"

definition node_foreach_reverse_safe :: "('c ref \<Rightarrow> 'c mem \<Rightarrow> 'c mem option) \<Rightarrow> 'c \<Rightarrow> 'c mem \<Rightarrow> 'c mem option" where
  "node_foreach_reverse_safe body c m = chain_foreach_reverse_safe Fld_node body (chain_last c m) m"

definition chain_empty :: "fld \<Rightarrow> 'c \<Rightarrow> 'c mem \<Rightarrow> bool option" where
  "chain_empty f c m = map_option (\<lambda>nxt. nxt = NULL) (chain_next f (chain_first c m) m)"

section \<open>Well formed chains\<close>

text \<open>\<open>linked f m r s\<close>: the fields of \<open>r\<close> and \<open>s\<close> make \<open>s\<close> the successor of \<open>r\<close>.\<close>

fun is_src :: "'c ref \<Rightarrow> bool" where
  "is_src (Tcb t) = True"
| "is_src (HeadNode c) = True"
| "is_src _ = False"

fun is_dst :: "'c ref \<Rightarrow> bool" where
  "is_dst (Tcb t) = True"
| "is_dst (TailNode c) = True"
| "is_dst _ = False"

definition ncell :: "fld \<Rightarrow> 'c ref \<Rightarrow> 'c cell" where
  "ncell f r = the (next_cell f r)"

definition pcell :: "fld \<Rightarrow> 'c ref \<Rightarrow> 'c cell" where
  "pcell f r = the (previous_cell f r)"

lemma ncell_simps [simp]:
  "ncell f (Tcb t) = Next f t" "ncell f (HeadNode c) = First c" "ncell f (TailNode c) = NullF c"
  by (simp_all add: ncell_def)

lemma pcell_simps [simp]:
  "pcell f (Tcb t) = Previous f t" "pcell f (HeadNode c) = NullF c" "pcell f (TailNode c) = Last c"
  by (simp_all add: pcell_def)

definition linked :: "fld \<Rightarrow> 'c mem \<Rightarrow> 'c ref \<Rightarrow> 'c ref \<Rightarrow> bool" where
  "linked f m r s = (is_src r \<and> is_dst s \<and> m (ncell f r) = s \<and> m (pcell f s) = r)"

definition spine :: "'c \<Rightarrow> nat list \<Rightarrow> 'c ref list" where
  "spine c xs = HeadNode c # map Tcb xs @ [TailNode c]"

definition is_chain :: "fld \<Rightarrow> 'c mem \<Rightarrow> 'c \<Rightarrow> nat list \<Rightarrow> bool" where
  "is_chain f m c xs = (m (NullF c) = NULL \<and> distinct xs \<and> successively (linked f m) (spine c xs))"

text \<open>The cells a chain with content \<open>xs\<close> owns.\<close>

definition cells :: "fld \<Rightarrow> 'c \<Rightarrow> nat list \<Rightarrow> 'c cell set" where
  "cells f c xs = {First c, NullF c, Last c} \<union> Next f ` set xs \<union> Previous f ` set xs"

lemma src_cell [simp]: "is_src r \<Longrightarrow> next_cell f r = Some (ncell f r)"
  by (cases r) auto

lemma dst_cell [simp]: "is_dst r \<Longrightarrow> previous_cell f r = Some (pcell f r)"
  by (cases r) auto

lemma ncell_inj: "is_src r \<Longrightarrow> is_src s \<Longrightarrow> ncell f r = ncell f s \<longleftrightarrow> r = s"
  by (cases r; cases s) auto

lemma pcell_inj: "is_dst r \<Longrightarrow> is_dst s \<Longrightarrow> pcell f r = pcell f s \<longleftrightarrow> r = s"
  by (cases r; cases s) auto

lemma ncell_pcell: "is_src r \<Longrightarrow> is_dst s \<Longrightarrow> ncell f r \<noteq> pcell f s"
  by (cases r; cases s) auto

lemma pcell_ncell: "is_src r \<Longrightarrow> is_dst s \<Longrightarrow> pcell f s \<noteq> ncell f r"
  by (cases r; cases s) auto

lemma ncell_tcb:
  "is_src r \<Longrightarrow> ncell f r = Next f n \<longleftrightarrow> r = Tcb n"
  "is_src r \<Longrightarrow> Next f n = ncell f r \<longleftrightarrow> r = Tcb n"
  "is_src r \<Longrightarrow> ncell f r \<noteq> Previous f n"
  "is_src r \<Longrightarrow> Previous f n \<noteq> ncell f r"
  by (cases r; auto)+

lemma pcell_tcb:
  "is_dst r \<Longrightarrow> pcell f r = Previous f n \<longleftrightarrow> r = Tcb n"
  "is_dst r \<Longrightarrow> Previous f n = pcell f r \<longleftrightarrow> r = Tcb n"
  "is_dst r \<Longrightarrow> pcell f r \<noteq> Next f n"
  "is_dst r \<Longrightarrow> Next f n \<noteq> pcell f r"
  by (cases r; auto)+

lemmas cell_distinct = ncell_inj pcell_inj ncell_pcell pcell_ncell ncell_tcb pcell_tcb

text \<open>A stretch of links survives any change outside the cells it is made of.\<close>

lemma links_frame:
  assumes "successively (linked f m) rs"
    and "\<And>r. r \<in> set (butlast rs) \<Longrightarrow> is_src r \<Longrightarrow> m' (ncell f r) = m (ncell f r)"
    and "\<And>s. s \<in> set (tl rs) \<Longrightarrow> is_dst s \<Longrightarrow> m' (pcell f s) = m (pcell f s)"
  shows "successively (linked f m') rs"
  using assms
proof (induction rs rule: induct_list012)
  case (3 r s rs)
  then have "linked f m r s" and "successively (linked f m) (s # rs)" by auto
  moreover from 3 have "successively (linked f m') (s # rs)"
    by (intro "3.IH"(2)) auto
  ultimately show ?case
    using "3.prems"(2)[of r] "3.prems"(3)[of s] by (auto simp: linked_def)
qed auto

text \<open>Inserting a node between two neighbours, and unlinking what lies between two nodes.\<close>

definition splice :: "fld \<Rightarrow> 'c ref \<Rightarrow> 'c ref \<Rightarrow> 'c ref \<Rightarrow> 'c mem \<Rightarrow> 'c mem" where
  "splice f a n b m = m(pcell f n := a, ncell f a := n, ncell f n := b, pcell f b := n)"

definition unsplice :: "fld \<Rightarrow> 'c ref \<Rightarrow> 'c ref \<Rightarrow> 'c mem \<Rightarrow> 'c mem" where
  "unsplice f a b m = m(pcell f b := a, ncell f a := b)"

lemma splice_reads:
  assumes "is_src a" "is_dst b"
  shows "is_src r \<Longrightarrow> r \<noteq> a \<Longrightarrow> r \<noteq> Tcb n \<Longrightarrow> splice f a (Tcb n) b m (ncell f r) = m (ncell f r)"
    and "is_dst s \<Longrightarrow> s \<noteq> b \<Longrightarrow> s \<noteq> Tcb n \<Longrightarrow> splice f a (Tcb n) b m (pcell f s) = m (pcell f s)"
    and "a \<noteq> Tcb n \<Longrightarrow> b \<noteq> Tcb n \<Longrightarrow> splice f a (Tcb n) b m (ncell f a) = Tcb n"
    and "a \<noteq> Tcb n \<Longrightarrow> b \<noteq> Tcb n \<Longrightarrow> splice f a (Tcb n) b m (pcell f b) = Tcb n"
    and "a \<noteq> Tcb n \<Longrightarrow> b \<noteq> Tcb n \<Longrightarrow> splice f a (Tcb n) b m (Next f n) = b"
    and "a \<noteq> Tcb n \<Longrightarrow> b \<noteq> Tcb n \<Longrightarrow> splice f a (Tcb n) b m (Previous f n) = a"
  using assms by (simp_all add: splice_def cell_distinct)

lemma unsplice_reads:
  assumes "is_src a" "is_dst b"
  shows "is_src r \<Longrightarrow> r \<noteq> a \<Longrightarrow> unsplice f a b m (ncell f r) = m (ncell f r)"
    and "is_dst s \<Longrightarrow> s \<noteq> b \<Longrightarrow> unsplice f a b m (pcell f s) = m (pcell f s)"
    and "unsplice f a b m (ncell f a) = b"
    and "unsplice f a b m (pcell f b) = a"
  using assms by (simp_all add: unsplice_def cell_distinct)

lemma links_splice:
  assumes links: "successively (linked f m) (pre @ a # b # post)"
    and dist: "distinct (pre @ a # b # post)" and new: "Tcb n \<notin> set (pre @ a # b # post)"
  shows "successively (linked f (splice f a (Tcb n) b m)) (pre @ a # Tcb n # b # post)"
proof -
  let ?m = "splice f a (Tcb n) b m"
  from links have left: "successively (linked f m) (pre @ [a])"
    and right: "successively (linked f m) (b # post)" and ab: "linked f m a b"
    by (auto simp: successively_append_iff)
  from ab have src: "is_src a" "is_dst b" by (auto simp: linked_def)
  have ne: "Tcb n \<noteq> a" "Tcb n \<noteq> b" "a \<noteq> Tcb n" "b \<noteq> Tcb n" using new by auto
  note reads = splice_reads[OF src]
  have 1: "successively (linked f ?m) (pre @ [a])"
    using left by (rule links_frame)
      (use dist new in_set_tlD[of _ "pre @ [a]"] in \<open>auto intro!: reads(1,2)\<close>)
  have 2: "successively (linked f ?m) (b # post)"
    using right by (rule links_frame)
      (use dist new in_set_butlastD[of _ "b # post"] in \<open>auto intro!: reads(1,2)\<close>)
  have "linked f ?m a (Tcb n)" "linked f ?m (Tcb n) b"
    using src ne reads(3-6) by (auto simp: linked_def)
  with 1 2 show ?thesis by (auto simp: successively_append_iff)
qed

lemma links_unsplice:
  assumes links: "successively (linked f m) (pre @ a # n # b # post)"
    and dist: "distinct (pre @ a # n # b # post)"
  shows "successively (linked f (unsplice f a b m)) (pre @ a # b # post)"
proof -
  let ?m = "unsplice f a b m"
  from links have left: "successively (linked f m) (pre @ [a])"
    and right: "successively (linked f m) (b # post)" and "linked f m a n" "linked f m n b"
    by (auto simp: successively_append_iff)
  then have src: "is_src a" "is_dst b" by (auto simp: linked_def)
  note reads = unsplice_reads[OF src]
  have 1: "successively (linked f ?m) (pre @ [a])"
    using left by (rule links_frame)
      (use dist in_set_tlD[of _ "pre @ [a]"] in \<open>auto intro!: reads(1,2)\<close>)
  have 2: "successively (linked f ?m) (b # post)"
    using right by (rule links_frame)
      (use dist in_set_butlastD[of _ "b # post"] in \<open>auto intro!: reads(1,2)\<close>)
  have "linked f ?m a b"
    using src reads(3,4) by (auto simp: linked_def)
  with 1 2 show ?thesis by (auto simp: successively_append_iff)
qed

text \<open>The neighbours of a position in a chain.\<close>

definition left_of :: "'c \<Rightarrow> nat list \<Rightarrow> 'c ref" where
  "left_of c xs = (if xs = [] then HeadNode c else Tcb (last xs))"

definition right_of :: "'c \<Rightarrow> nat list \<Rightarrow> 'c ref" where
  "right_of c ys = (case ys of [] \<Rightarrow> TailNode c | y # _ \<Rightarrow> Tcb y)"

lemma left_of_simps [simp]: "left_of c [] = HeadNode c" "left_of c (xs @ [x]) = Tcb x"
  by (simp_all add: left_of_def)

lemma right_of_simps [simp]: "right_of c [] = TailNode c" "right_of c (y # ys) = Tcb y"
  by (simp_all add: right_of_def)

lemma left_src [simp]: "is_src (left_of c xs)"
  by (simp add: left_of_def)

lemma right_dst [simp]: "is_dst (right_of c ys)"
  by (simp add: right_of_def split: list.split)

lemma spine_split:
  obtains pre post where
    "HeadNode c # map Tcb xs = pre @ [left_of c xs]" and
    "map Tcb ys @ [TailNode c] = right_of c ys # post"
proof
  show "HeadNode c # map Tcb xs = butlast (HeadNode c # map Tcb xs) @ [left_of c xs]"
    by (cases xs rule: rev_cases) (auto simp: left_of_def)
  show "map Tcb ys @ [TailNode c] = right_of c ys # tl (map Tcb ys @ [TailNode c])"
    by (cases ys) auto
qed

lemma spine_append: "spine c (xs @ ys) = (HeadNode c # map Tcb xs) @ map Tcb ys @ [TailNode c]"
  by (simp add: spine_def)

lemma distinct_spine: "distinct xs \<Longrightarrow> distinct (spine c xs)"
  by (auto simp: spine_def distinct_map inj_on_def)

lemma is_chain_splice:
  assumes ch: "is_chain f m c (xs @ ys)" and new: "n \<notin> set (xs @ ys)"
  shows "is_chain f (splice f (left_of c xs) (Tcb n) (right_of c ys) m) c (xs @ n # ys)"
proof -
  obtain pre post where pp: "HeadNode c # map Tcb xs = pre @ [left_of c xs]"
    "map Tcb ys @ [TailNode c] = right_of c ys # post" by (rule spine_split)
  have sp: "spine c (xs @ ys) = pre @ left_of c xs # right_of c ys # post"
    by (subst spine_append, subst pp, subst pp) simp
  have sp': "spine c (xs @ n # ys) = pre @ left_of c xs # Tcb n # right_of c ys # post"
    using pp by (simp add: spine_def)
  have "distinct (spine c (xs @ ys))" using ch by (simp add: is_chain_def distinct_spine)
  moreover have "Tcb n \<notin> set (spine c (xs @ ys))" using new by (auto simp: spine_def)
  ultimately have "successively (linked f (splice f (left_of c xs) (Tcb n) (right_of c ys) m))
      (spine c (xs @ n # ys))"
    using ch unfolding sp sp' is_chain_def by (intro links_splice) auto
  moreover have "splice f (left_of c xs) (Tcb n) (right_of c ys) m (NullF c) = m (NullF c)"
    by (auto simp: splice_def left_of_def right_of_def split: list.split)
  ultimately show ?thesis using ch new by (auto simp: is_chain_def)
qed

lemma is_chain_unsplice:
  assumes ch: "is_chain f m c (xs @ n # ys)"
  shows "is_chain f (unsplice f (left_of c xs) (right_of c ys) m) c (xs @ ys)"
proof -
  obtain pre post where pp: "HeadNode c # map Tcb xs = pre @ [left_of c xs]"
    "map Tcb ys @ [TailNode c] = right_of c ys # post" by (rule spine_split)
  have sp: "spine c (xs @ ys) = pre @ left_of c xs # right_of c ys # post"
    by (subst spine_append, subst pp, subst pp) simp
  have sp': "spine c (xs @ n # ys) = pre @ left_of c xs # Tcb n # right_of c ys # post"
    using pp by (simp add: spine_def)
  have "distinct (spine c (xs @ n # ys))" using ch by (simp add: is_chain_def distinct_spine)
  then have "successively (linked f (unsplice f (left_of c xs) (right_of c ys) m)) (spine c (xs @ ys))"
    using ch unfolding sp sp' is_chain_def by (intro links_unsplice) auto
  moreover have "unsplice f (left_of c xs) (right_of c ys) m (NullF c) = m (NullF c)"
    by (auto simp: unsplice_def left_of_def right_of_def split: list.split)
  ultimately show ?thesis using ch by (auto simp: is_chain_def)
qed

text \<open>A chain only depends on its own cells.\<close>

lemma is_chain_frame:
  assumes ch: "is_chain f m c xs" and eq: "\<And>x. x \<in> cells f c xs \<Longrightarrow> m' x = m x"
  shows "is_chain f m' c xs"
proof -
  have "successively (linked f m') (spine c xs)"
  proof (rule links_frame)
    show "successively (linked f m) (spine c xs)" using ch by (simp add: is_chain_def)
  qed (use eq in \<open>auto simp: spine_def cells_def butlast_append split: if_splits\<close>)
  then show ?thesis using ch eq[of "NullF c"] by (simp add: is_chain_def cells_def)
qed

lemma splice_outside:
  "x \<notin> cells f c (xs @ n # ys) \<Longrightarrow> splice f (left_of c xs) (Tcb n) (right_of c ys) m x = m x"
  by (cases ys) (auto simp: splice_def cells_def left_of_def right_of_def)

lemma unsplice_outside:
  "x \<notin> cells f c (xs @ n # ys) \<Longrightarrow> unsplice f (left_of c xs) (right_of c ys) m x = m x"
  by (cases ys) (auto simp: unsplice_def cells_def left_of_def right_of_def)

section \<open>A memory with many chains\<close>

text \<open>
  \<open>chains k m Q\<close>: every initialised chain \<open>c\<close> (one with \<open>Q c = Some xs\<close>) links exactly
  the nodes \<open>xs\<close> through the field \<open>k c\<close>, and two chains that use the same field share no node.
\<close>

definition chains :: "('c \<Rightarrow> fld) \<Rightarrow> 'c mem \<Rightarrow> ('c \<rightharpoonup> nat list) \<Rightarrow> bool" where
  "chains k m Q =
     ((\<forall>c xs. Q c = Some xs \<longrightarrow> is_chain (k c) m c xs) \<and>
      (\<forall>c d xs ys. c \<noteq> d \<longrightarrow> k c = k d \<longrightarrow> Q c = Some xs \<longrightarrow> Q d = Some ys \<longrightarrow> set xs \<inter> set ys = {}))"

definition off_chains :: "('c \<Rightarrow> fld) \<Rightarrow> fld \<Rightarrow> ('c \<rightharpoonup> nat list) \<Rightarrow> nat \<Rightarrow> bool" where
  "off_chains k f Q n = (\<forall>c xs. Q c = Some xs \<longrightarrow> k c = f \<longrightarrow> n \<notin> set xs)"

lemma chains_is_chain: "chains k m Q \<Longrightarrow> Q c = Some xs \<Longrightarrow> is_chain (k c) m c xs"
  by (simp add: chains_def)

lemma chains_distinct: "chains k m Q \<Longrightarrow> Q c = Some xs \<Longrightarrow> distinct xs"
  by (auto simp: chains_def is_chain_def)

lemma chains_disjoint:
  "chains k m Q \<Longrightarrow> Q c = Some xs \<Longrightarrow> Q d = Some ys \<Longrightarrow> k c = k d \<Longrightarrow> n \<in> set xs \<Longrightarrow> n \<in> set ys \<Longrightarrow> c = d"
  unfolding chains_def by blast

lemma off_chainsD: "off_chains k f Q n \<Longrightarrow> Q c = Some xs \<Longrightarrow> k c = f \<Longrightarrow> n \<notin> set xs"
  by (simp add: off_chains_def)

lemma cells_disjoint:
  "c \<noteq> d \<Longrightarrow> f \<noteq> g \<or> set xs \<inter> set ys = {} \<Longrightarrow> cells f c xs \<inter> cells g d ys = {}"
  by (auto simp: cells_def)

text \<open>Changing one chain inside a region that no other chain uses.\<close>

lemma chains_update:
  assumes ch: "chains k m Q" and new: "is_chain (k c) m' c xs'"
    and out: "\<And>x. x \<notin> cells (k c) c ws \<Longrightarrow> m' x = m x"
    and sub: "set xs' \<subseteq> set ws"
    and own: "\<And>d ys. d \<noteq> c \<Longrightarrow> k d = k c \<Longrightarrow> Q d = Some ys \<Longrightarrow> set ws \<inter> set ys = {}"
  shows "chains k m' (Q(c \<mapsto> xs'))"
proof -
  have "is_chain (k d) m' d ys" if "d \<noteq> c" "Q d = Some ys" for d ys
  proof (rule is_chain_frame[where m = m])
    show "is_chain (k d) m d ys" using ch that by (simp add: chains_def)
    fix x assume "x \<in> cells (k d) d ys"
    moreover have "cells (k c) c ws \<inter> cells (k d) d ys = {}"
      using own[of d ys] that by (intro cells_disjoint) auto
    ultimately show "m' x = m x" using out by auto
  qed
  then have "is_chain (k d) m' d ys" if "(Q(c \<mapsto> xs')) d = Some ys" for d ys
    using that new by (auto split: if_split_asm)
  moreover have "set ys \<inter> set zs = {}"
    if "d \<noteq> e" "k d = k e" "(Q(c \<mapsto> xs')) d = Some ys" "(Q(c \<mapsto> xs')) e = Some zs" for d e ys zs
  proof (cases "d = c \<or> e = c")
    case True
    then show ?thesis
      using that own[of d ys] own[of e zs] sub by (auto split: if_split_asm)
  next
    case False
    then show ?thesis using that ch unfolding chains_def by (auto split: if_split_asm)
  qed
  ultimately show ?thesis unfolding chains_def by blast
qed

lemma chains_disjoint_sets:
  "chains k m Q \<Longrightarrow> Q c = Some xs \<Longrightarrow> Q d = Some ys \<Longrightarrow> d \<noteq> c \<Longrightarrow> k d = k c \<Longrightarrow> set xs \<inter> set ys = {}"
  unfolding chains_def by metis

lemma chains_splice:
  assumes ch: "chains k m Q" and q: "Q c = Some (xs @ ys)" and new: "off_chains k (k c) Q n"
  shows "chains k (splice (k c) (left_of c xs) (Tcb n) (right_of c ys) m) (Q(c \<mapsto> xs @ n # ys))"
proof (rule chains_update[OF ch, where ws = "xs @ n # ys"])
  have "n \<notin> set (xs @ ys)" using off_chainsD[OF new q] by simp
  with chains_is_chain[OF ch q]
  show "is_chain (k c) (splice (k c) (left_of c xs) (Tcb n) (right_of c ys) m) c (xs @ n # ys)"
    by (rule is_chain_splice)
  fix d zs assume "d \<noteq> c" "k d = k c" "Q d = Some zs"
  then show "set (xs @ n # ys) \<inter> set zs = {}"
    using chains_disjoint_sets[OF ch q] new by (auto simp: off_chains_def)
qed (simp_all add: splice_outside)

lemma chains_unsplice:
  assumes ch: "chains k m Q" and q: "Q c = Some (xs @ n # ys)"
  shows "chains k (unsplice (k c) (left_of c xs) (right_of c ys) m) (Q(c \<mapsto> xs @ ys))"
proof (rule chains_update[OF ch, where ws = "xs @ n # ys"])
  from chains_is_chain[OF ch q]
  show "is_chain (k c) (unsplice (k c) (left_of c xs) (right_of c ys) m) c (xs @ ys)"
    by (rule is_chain_unsplice)
  fix d zs assume "d \<noteq> c" "k d = k c" "Q d = Some zs"
  then show "set (xs @ n # ys) \<inter> set zs = {}"
    using chains_disjoint_sets[OF ch q] by auto
qed (auto simp: unsplice_outside)

section \<open>What the macros do on well formed chains\<close>

lemma chain_neighbours:
  assumes "is_chain f m c (xs @ n # ys)"
  shows "chain_prev f (Tcb n) m = Some (left_of c xs)"
    and "chain_next f (Tcb n) m = Some (right_of c ys)"
proof -
  obtain pre post where pp: "HeadNode c # map Tcb xs = pre @ [left_of c xs]"
    "map Tcb ys @ [TailNode c] = right_of c ys # post" by (rule spine_split)
  have "spine c (xs @ n # ys) = pre @ left_of c xs # Tcb n # right_of c ys # post"
    using pp by (simp add: spine_def)
  then have "linked f m (left_of c xs) (Tcb n)" "linked f m (Tcb n) (right_of c ys)"
    using assms by (auto simp: is_chain_def successively_append_iff)
  then show "chain_prev f (Tcb n) m = Some (left_of c xs)"
    and "chain_next f (Tcb n) m = Some (right_of c ys)"
    by (auto simp: linked_def chain_prev_def chain_next_def)
qed

lemma chain_ends:
  assumes "is_chain f m c xs"
  shows "m (First c) = right_of c xs" and "m (Last c) = left_of c xs" and "m (NullF c) = NULL"
proof -
  obtain pre post where pp: "map Tcb xs @ [TailNode c] = right_of c xs # post" 
    by (rule spine_split)
  obtain pre' where pp': "HeadNode c # map Tcb xs = pre' @ [left_of c xs]" by (rule spine_split)
  have "spine c xs = HeadNode c # right_of c xs # post" using pp by (simp add: spine_def)
  moreover have "spine c xs = pre' @ [left_of c xs, TailNode c]"
    using arg_cong[OF pp', of "\<lambda>l. l @ [TailNode c]"] by (simp add: spine_def)
  ultimately have "linked f m (HeadNode c) (right_of c xs)" "linked f m (left_of c xs) (TailNode c)"
    using assms unfolding is_chain_def
    by (metis successively.simps(3)) (metis assms is_chain_def successively.simps(3)
      successively_append_iff \<open>spine c xs = pre' @ [left_of c xs, TailNode c]\<close>)
  then show "m (First c) = right_of c xs" and "m (Last c) = left_of c xs"
    by (auto simp: linked_def)
  show "m (NullF c) = NULL" using assms by (simp add: is_chain_def)
qed

lemma chain_next_end:
  assumes "is_chain f m c xs"
  shows "chain_next f (TailNode c) m = Some NULL" and "chain_prev f (TailNode c) m = Some (left_of c xs)"
    and "chain_next f (HeadNode c) m = Some (right_of c xs)" and "chain_prev f (HeadNode c) m = Some NULL"
  using chain_ends[OF assms] by (simp_all add: chain_next_def chain_prev_def)

lemma prev_right_of:
  assumes "is_chain f m c (xs @ ys)"
  shows "chain_prev f (right_of c ys) m = Some (left_of c xs)"
  using assms chain_next_end(2)[of f m c xs] chain_neighbours(1)[of f m c xs]
  by (cases ys) auto

lemma insert_before_eq:
  assumes "is_chain f m c (xs @ ys)"
  shows "chain_insert_before f (right_of c ys) (Tcb n) m =
         Some (splice f (left_of c xs) (Tcb n) (right_of c ys) m)"
  using prev_right_of[OF assms]
  by (simp add: chain_insert_before_def set_next_def set_previous_def splice_def)

lemma insert_after_eq:
  assumes "is_chain f m c (xs @ a # ys)"
  shows "chain_insert_after f (Tcb a) (Tcb n) m =
         Some (splice f (left_of c (xs @ [a])) (Tcb n) (right_of c ys) m)"
  using chain_neighbours(2)[OF assms]
  by (simp add: chain_insert_after_def set_next_def set_previous_def splice_def)

lemma remove_eq:
  assumes "is_chain f m c (xs @ n # ys)"
  shows "chain_remove f (Tcb n) m = Some (unsplice f (left_of c xs) (right_of c ys) m)"
  using chain_neighbours[OF assms]
  by (simp add: chain_remove_def set_next_def set_previous_def unsplice_def)

lemma append_eq:
  assumes "is_chain f m c xs" and "n \<notin> set xs"
  shows "chain_append f c (Tcb n) m = Some (splice f (left_of c xs) (Tcb n) (TailNode c) m)"
proof -
  have "left_of c xs \<noteq> Tcb n" using assms(2) by (auto simp: left_of_def)
  then show ?thesis
    using chain_ends(2)[OF assms(1)]
    by (cases xs rule: rev_cases)
      (auto simp: chain_append_def set_next_def set_previous_def splice_def fun_upd_def Let_def)
qed

lemma prepend_eq:
  assumes "is_chain f m c xs" and "n \<notin> set xs"
  shows "chain_prepend f c (Tcb n) m = Some (splice f (HeadNode c) (Tcb n) (right_of c xs) m)"
proof -
  have "right_of c xs \<noteq> Tcb n" using assms(2) by (auto simp: right_of_def split: list.split)
  then show ?thesis
    using chain_ends(1)[OF assms(1)]
    by (cases xs)
      (auto simp: chain_prepend_def set_next_def set_previous_def splice_def fun_upd_def Let_def)
qed

lemma is_empty_iff: "is_chain f m c xs \<Longrightarrow> chain_is_empty c m = (xs = [])"
  by (cases xs) (auto simp: chain_is_empty_def chain_ends)

lemma extract_first_eq:
  assumes "is_chain Fld_node m c xs"
  shows "node_extract_first c m =
    (case xs of [] \<Rightarrow> Some (NULL, m)
     | x # ys \<Rightarrow> Some (Tcb x, unsplice Fld_node (HeadNode c) (right_of c ys) m))"
proof (cases xs)
  case Nil
  then show ?thesis using is_empty_iff[OF assms] by (simp add: node_extract_first_def)
next
  case (Cons x ys)
  with assms have ch: "is_chain Fld_node m c ([] @ x # ys)" by simp
  then show ?thesis
    using Cons is_empty_iff[OF assms] chain_neighbours[OF ch] chain_ends(1)[OF ch]
    by (simp add: node_extract_first_def set_next_def set_previous_def unsplice_def)
qed

lemma extract_last_eq:
  assumes "is_chain Fld_node m c xs"
  shows "node_extract_last c m =
    (if xs = [] then Some (NULL, m)
     else Some (Tcb (last xs), unsplice Fld_node (left_of c (butlast xs)) (TailNode c) m))"
proof (cases xs rule: rev_cases)
  case Nil
  then show ?thesis using chain_ends[OF assms] by (simp add: node_extract_last_def chain_prev_def)
next
  case (snoc ys x)
  with assms have ch: "is_chain Fld_node m c (ys @ x # [])" by simp
  have "left_of c ys \<noteq> NULL" by (simp add: left_of_def)
  then show ?thesis
    using snoc chain_neighbours[OF ch] chain_ends(2)[OF ch]
    by (simp add: node_extract_last_def set_next_def set_previous_def unsplice_def)
qed

lemma foreach_from:
  assumes "is_chain f m c (xs @ ys)"
  shows "chain_foreach f (right_of c ys) m acc = Some (acc @ map Tcb ys)"
  using assms
proof (induction ys arbitrary: xs acc)
  case Nil
  then show ?case using chain_next_end(1)[of f m c xs] by (subst chain_foreach.simps) simp
next
  case (Cons y ys)
  then have ch: "is_chain f m c ((xs @ [y]) @ ys)" by simp
  have "right_of c ys \<noteq> NULL" by (simp add: right_of_def split: list.split)
  then show ?case
    using chain_neighbours(2)[OF Cons.prems] Cons.IH[OF ch]
    by (subst chain_foreach.simps) simp
qed

lemma foreach_reverse_from:
  assumes "is_chain f m c (xs @ ys)"
  shows "chain_foreach_reverse f (left_of c xs) m acc = Some (acc @ map Tcb (rev xs))"
  using assms
proof (induction xs arbitrary: ys acc rule: rev_induct)
  case Nil
  then show ?case using chain_next_end(4)[of f m c ys] by (subst chain_foreach_reverse.simps) simp
next
  case (snoc x xs)
  then have ch: "is_chain f m c (xs @ x # ys)" by simp
  have "left_of c xs \<noteq> NULL" by (simp add: left_of_def)
  then show ?case
    using chain_neighbours(1)[OF ch] snoc.IH[OF ch] by (subst chain_foreach_reverse.simps) simp
qed

lemma chain_empty_iff:
  assumes "is_chain f m c xs"
  shows "chain_empty f c m = Some (xs = [])"
proof (cases xs)
  case Nil
  then show ?thesis using chain_ends(1)[OF assms] chain_next_end(1)[OF assms] by (simp add: chain_empty_def chain_first_def)
next
  case (Cons x ys)
  have "right_of c ys \<noteq> NULL" by (simp add: right_of_def split: list.split)
  then show ?thesis using Cons chain_ends(1)[OF assms] chain_neighbours(2)[of f m c "[]" x ys] assms
    by (simp add: chain_empty_def chain_first_def)
qed

lemma init_empty_chain:
  assumes ch: "chains k m Q"
  shows "chains k (chain_init_empty c m) (Q(c \<mapsto> []))"
proof (rule chains_update[OF ch, where ws = "[]"])
  show "is_chain (k c) (chain_init_empty c m) c []"
    by (simp add: is_chain_def chain_init_empty_def spine_def linked_def)
qed (auto simp: chain_init_empty_def cells_def)

section \<open>The queue interface\<close>

text \<open>
  What the users of chains rely on: a representation predicate for a family of queues and
  the effect of every operation on it.  \<open>serves c\<close> says that queue \<open>c\<close> is linked through
  the field of this instance; a node may be inserted only when it is on no such queue.
  The consequences that the scheduler and the synchronisation objects use are proved once here.
\<close>

locale linked_queues =
  fixes rep :: "'m \<Rightarrow> ('c \<rightharpoonup> nat list) \<Rightarrow> bool"
    and serves :: "'c \<Rightarrow> bool"
    and q_tail :: "'c \<Rightarrow> 'c ref \<Rightarrow> 'm \<Rightarrow> 'm option"
    and q_before :: "'c ref \<Rightarrow> 'c ref \<Rightarrow> 'm \<Rightarrow> 'm option"
    and q_remove :: "'c ref \<Rightarrow> 'm \<Rightarrow> 'm option"
    and q_first :: "'c \<Rightarrow> 'm \<Rightarrow> 'c ref"
    and q_next :: "'c ref \<Rightarrow> 'm \<Rightarrow> 'c ref option"
  assumes tail_law: "rep m Q \<Longrightarrow> serves c \<Longrightarrow> Q c = Some xs \<Longrightarrow>
        (\<And>d ys. serves d \<Longrightarrow> Q d = Some ys \<Longrightarrow> n \<notin> set ys) \<Longrightarrow>
        \<exists>m'. q_tail c (Tcb n) m = Some m' \<and> rep m' (Q(c \<mapsto> xs @ [n]))"
    and before_law: "rep m Q \<Longrightarrow> serves c \<Longrightarrow> Q c = Some (xs @ ys) \<Longrightarrow>
        (\<And>d zs. serves d \<Longrightarrow> Q d = Some zs \<Longrightarrow> n \<notin> set zs) \<Longrightarrow>
        \<exists>m'. q_before (right_of c ys) (Tcb n) m = Some m' \<and> rep m' (Q(c \<mapsto> xs @ n # ys))"
    and remove_law: "rep m Q \<Longrightarrow> serves c \<Longrightarrow> Q c = Some (xs @ n # ys) \<Longrightarrow>
        \<exists>m'. q_remove (Tcb n) m = Some m' \<and> rep m' (Q(c \<mapsto> xs @ ys))"
    and first_law: "rep m Q \<Longrightarrow> serves c \<Longrightarrow> Q c = Some xs \<Longrightarrow> q_first c m = right_of c xs"
    and next_law: "rep m Q \<Longrightarrow> serves c \<Longrightarrow> Q c = Some (xs @ n # ys) \<Longrightarrow>
        q_next (Tcb n) m = Some (right_of c ys)"
    and next_end_law: "rep m Q \<Longrightarrow> serves c \<Longrightarrow> Q c = Some xs \<Longrightarrow> q_next (TailNode c) m = Some NULL"
    and distinct_law: "rep m Q \<Longrightarrow> serves c \<Longrightarrow> Q c = Some xs \<Longrightarrow> distinct xs"
    and disjoint_law: "rep m Q \<Longrightarrow> serves c \<Longrightarrow> serves d \<Longrightarrow> c \<noteq> d \<Longrightarrow>
        Q c = Some xs \<Longrightarrow> Q d = Some ys \<Longrightarrow> set xs \<inter> set ys = {}"
begin

lemma gone_after_remove:
  assumes "rep m Q" "serves c" "Q c = Some (xs @ n # ys)"
    and "serves d" "(Q(c \<mapsto> xs @ ys)) d = Some zs"
  shows "n \<notin> set zs"
  using assms distinct_law[OF assms(1-3)] disjoint_law[OF assms(1,2,4) _ assms(3), of zs]
  by (cases "d = c") auto

text \<open>Blocking: a task leaves one queue and joins the end of another.\<close>

lemma move_tail:
  assumes "rep m Q" "serves c" "serves d" "c \<noteq> d" "Q c = Some (xs @ n # ys)" "Q d = Some zs"
  shows "\<exists>m1 m2. q_remove (Tcb n) m = Some m1 \<and> q_tail d (Tcb n) m1 = Some m2 \<and>
           rep m1 (Q(c \<mapsto> xs @ ys)) \<and> rep m2 (Q(c \<mapsto> xs @ ys, d \<mapsto> zs @ [n]))"
proof -
  obtain m1 where m1: "q_remove (Tcb n) m = Some m1" "rep m1 (Q(c \<mapsto> xs @ ys))"
    using remove_law[OF assms(1,2,5)] by blast
  moreover have "(Q(c \<mapsto> xs @ ys)) d = Some zs" using assms by auto
  ultimately show ?thesis
    using tail_law[OF m1(2) assms(3)] gone_after_remove[OF assms(1,2,5)] by blast
qed

text \<open>Waking: the task at a given place of one queue is put in front of a node of another.\<close>

lemma move_before:
  assumes "rep m Q" "serves c" "serves d" "c \<noteq> d" "Q c = Some (xs @ n # ys)" "Q d = Some (us @ vs)"
  shows "\<exists>m1 m2. q_remove (Tcb n) m = Some m1 \<and> q_before (right_of d vs) (Tcb n) m1 = Some m2 \<and>
           rep m1 (Q(c \<mapsto> xs @ ys)) \<and> rep m2 (Q(c \<mapsto> xs @ ys, d \<mapsto> us @ n # vs))"
proof -
  obtain m1 where m1: "q_remove (Tcb n) m = Some m1" "rep m1 (Q(c \<mapsto> xs @ ys))"
    using remove_law[OF assms(1,2,5)] by blast
  moreover have "(Q(c \<mapsto> xs @ ys)) d = Some (us @ vs)" using assms by auto
  ultimately show ?thesis
    using before_law[OF m1(2) assms(3)] gone_after_remove[OF assms(1,2,5)] by blast
qed

text \<open>Rotation: the first task of a queue is moved behind the tasks \<open>xs\<close> that follow it.\<close>

lemma rotate_before:
  assumes "rep m Q" "serves c" "Q c = Some (us @ n # xs @ ys)"
  shows "\<exists>m1 m2. q_remove (Tcb n) m = Some m1 \<and> q_before (right_of c ys) (Tcb n) m1 = Some m2 \<and>
           rep m2 (Q(c \<mapsto> us @ xs @ n # ys))"
proof -
  obtain m1 where m1: "q_remove (Tcb n) m = Some m1" "rep m1 (Q(c \<mapsto> us @ xs @ ys))"
    using remove_law[OF assms(1,2,3)] by auto
  have "(Q(c \<mapsto> us @ xs @ ys)) c = Some ((us @ xs) @ ys)" by simp
  then obtain m2 where "q_before (right_of c ys) (Tcb n) m1 = Some m2"
    "rep m2 (Q(c \<mapsto> us @ xs @ ys, c \<mapsto> (us @ xs) @ n # ys))"
    using before_law[OF m1(2) assms(2)] gone_after_remove[OF assms(1,2,3)] by blast
  with m1 show ?thesis by auto
qed

end

interpretation linkq: linked_queues "chains k" "\<lambda>c. k c = f"
  "chain_append f" "chain_insert_before f" "chain_remove f" chain_first "chain_next f"
  for k :: "'c \<Rightarrow> fld" and f
proof (unfold_locales, goal_cases)
  case (1 m Q c xs n)
  then have "off_chains k (k c) Q n" by (auto simp: off_chains_def)
  then show ?case
    using 1 append_eq[OF chains_is_chain[OF 1(1,3)], of n] chains_splice[OF 1(1), of c xs "[]" n]
      off_chainsD[of k "k c" Q n c xs] by auto
next
  case (2 m Q c xs ys n)
  then have "off_chains k (k c) Q n" by (auto simp: off_chains_def)
  then show ?case
    using 2 insert_before_eq[OF chains_is_chain[OF 2(1,3)]] chains_splice[OF 2(1), of c xs ys n] by auto
next
  case (3 m Q c xs n ys)
  then show ?case
    using remove_eq[OF chains_is_chain[OF 3(1,3)]] chains_unsplice[OF 3(1,3)] by auto
next
  case (4 m Q c xs)
  then show ?case using chain_ends(1)[OF chains_is_chain[OF 4(1,3)]] by (simp add: chain_first_def)
next
  case (5 m Q c xs n ys)
  then show ?case using chain_neighbours(2)[OF chains_is_chain[OF 5(1,3)]] by auto
next
  case (6 m Q c xs)
  then show ?case using chain_next_end(1)[OF chains_is_chain[OF 6(1,3)]] by auto
next
  case (7 m Q c xs)
  then show ?case by (auto intro: chains_distinct)
next
  case (8 m Q c d xs ys)
  then show ?case using chains_disjoint_sets[OF 8(1,5,6)] by auto
qed

text \<open>The safe traversal visits every node even though the body takes it off the chain.\<close>

lemma foreach_safe_empties:
  assumes "chains k m Q" "k c = f" "Q c = Some xs"
  shows "\<exists>m'. chain_foreach_safe f (chain_remove f) (right_of c xs) m = Some m' \<and> chains k m' (Q(c \<mapsto> []))"
  using assms
proof (induction xs arbitrary: m Q)
  case Nil
  then show ?case using linkq.next_end_law[OF Nil] by (subst chain_foreach_safe.simps) (simp add: map_upd_triv)
next
  case (Cons x xs)
  obtain m1 where m1: "chain_remove f (Tcb x) m = Some m1" "chains k m1 (Q(c \<mapsto> xs))"
    using linkq.remove_law[OF Cons.prems(1,2), of "[]" x xs] Cons.prems(3) by auto
  have "right_of c xs \<noteq> NULL" by (simp add: right_of_def split: list.split)
  then have "chain_foreach_safe f (chain_remove f) (Tcb x) m = chain_foreach_safe f (chain_remove f) (right_of c xs) m1"
    using linkq.next_law[OF Cons.prems(1,2), of "[]" x xs] Cons.prems(3) m1(1) by (subst chain_foreach_safe.simps) simp
  with Cons.IH[OF m1(2) Cons.prems(2) fun_upd_same, unfolded fun_upd_upd] show ?case by auto
qed

lemma foreach_reverse_safe_empties:
  assumes "chains k m Q" "k c = f" "Q c = Some xs"
  shows "\<exists>m'. chain_foreach_reverse_safe f (chain_remove f) (left_of c xs) m = Some m' \<and> chains k m' (Q(c \<mapsto> []))"
  using assms
proof (induction xs arbitrary: m Q rule: rev_induct)
  case Nil
  have "is_chain f m c []" using chains_is_chain[OF Nil(1,3)] Nil(2) by simp
  then have "chain_prev f (left_of c []) m = Some NULL" by (simp add: chain_next_end(4) left_of_def)
  then show ?case using Nil by (subst chain_foreach_reverse_safe.simps) (simp add: map_upd_triv)
next
  case (snoc x xs)
  obtain m1 where m1: "chain_remove f (Tcb x) m = Some m1" "chains k m1 (Q(c \<mapsto> xs))"
    using linkq.remove_law[OF snoc.prems(1,2), of xs x "[]"] snoc.prems(3) by auto
  have "is_chain f m c (xs @ x # [])" using chains_is_chain[OF snoc.prems(1,3)] snoc.prems(2) by simp
  then have "chain_prev f (Tcb x) m = Some (left_of c xs)" by (rule chain_neighbours(1))
  moreover have "left_of c xs \<noteq> NULL" by (simp add: left_of_def)
  ultimately have "chain_foreach_reverse_safe f (chain_remove f) (left_of c (xs @ [x])) m =
      chain_foreach_reverse_safe f (chain_remove f) (left_of c xs) m1"
    using m1(1) by (subst chain_foreach_reverse_safe.simps) (simp add: left_of_def)
  with snoc.IH[OF m1(2) snoc.prems(2) fun_upd_same, unfolded fun_upd_upd] show ?case by auto
qed

text \<open>The four traversals of a queue: in order, backwards, and both ways while the nodes are taken off.\<close>

lemma node_traversals:
  assumes "chains k m Q" "k c = Fld_node" "Q c = Some xs"
  shows "node_foreach c m = Some (map Tcb xs)" "node_foreach_reverse c m = Some (map Tcb (rev xs))"
    "\<exists>m'. node_foreach_safe (chain_remove Fld_node) c m = Some m' \<and> chains k m' (Q(c \<mapsto> []))"
    "\<exists>m'. node_foreach_reverse_safe (chain_remove Fld_node) c m = Some m' \<and> chains k m' (Q(c \<mapsto> []))"
proof -
  have ch: "is_chain Fld_node m c xs" using chains_is_chain[OF assms(1,3)] assms(2) by simp
  have e: "chain_first c m = right_of c xs" "chain_last c m = left_of c xs"
    using chain_ends[OF ch] by (simp_all add: chain_first_def chain_last_def)
  show "node_foreach c m = Some (map Tcb xs)"
    using foreach_from[of Fld_node m c "[]" xs "[]"] ch e(1) by (simp add: node_foreach_def)
  show "node_foreach_reverse c m = Some (map Tcb (rev xs))"
    using foreach_reverse_from[of Fld_node m c xs "[]" "[]"] ch e(2) by (simp add: node_foreach_reverse_def)
  show "\<exists>m'. node_foreach_safe (chain_remove Fld_node) c m = Some m' \<and> chains k m' (Q(c \<mapsto> []))"
    using foreach_safe_empties[OF assms] e(1) by (simp add: node_foreach_safe_def)
  show "\<exists>m'. node_foreach_reverse_safe (chain_remove Fld_node) c m = Some m' \<and> chains k m' (Q(c \<mapsto> []))"
    using foreach_reverse_safe_empties[OF assms] e(2) by (simp add: node_foreach_reverse_safe_def)
qed

end
