(* ===== verification/Task_State.thy ===== *)
theory Task_State
  imports Chain
begin

text \<open>
  The data model of \<^verbatim>\<open>include/task.h\<close> and the global and thread-local variables of
  \<^verbatim>\<open>src/task.c\<close>.  Pointers to task control blocks are addresses (\<open>nat\<close>), with
  \<open>None\<close> for a null pointer; the queue links of all control blocks and chain headers live in
  one chain memory (theory \<open>Chain\<close>), every other field in the record of its structure.
  A system state \<open>sys\<close> holds any number of service threads; the operations take the thread
  that executes them, which selects its \<open>current_task\<close> and \<open>the_maintask\<close>.

  An operation is one function on states.  Where the source switches to another task
  (\<open>swap_context\<close>) the caller's remaining code is kept in the field \<open>resume_at\<close> of its
  control block, as the saved registers and stack keep it, and runs when the task is switched to
  again.  \<open>None\<close> is a fault: a null dereference, or a spin lock that the calling thread
  already holds and would spin on for ever.  The preprocessor switch \<open>__1_N_MODEL__\<close> is the field
  \<open>one_n_model\<close>, so both builds of the library are covered.
\<close>

section \<open>Constants of task.h\<close>

definition MAX_GLOBAL_GROUPS :: nat where "MAX_GLOBAL_GROUPS = 4"
definition MAX_LOCAL_FREED_TASKS :: nat where "MAX_LOCAL_FREED_TASKS = 128"
definition TCB_INCREASE_SIZE_AT_EMPTY :: nat where "TCB_INCREASE_SIZE_AT_EMPTY = 64"
definition MAX_TASK_LOCALDATAS :: nat where "MAX_TASK_LOCALDATAS = 4"

definition STATES_READY :: "32 word" where [bit_masks]: "STATES_READY = 0x0"
definition STATES_TRANSIENT :: "32 word" where [bit_masks]: "STATES_TRANSIENT = 0x1"
definition STATES_SUSPENDED :: "32 word" where [bit_masks]: "STATES_SUSPENDED = 0x2"
definition STATES_IN_USLEEP :: "32 word" where [bit_masks]: "STATES_IN_USLEEP = 0x4"
definition STATES_WAIT_TIMEOUTB :: "32 word" where [bit_masks]: "STATES_WAIT_TIMEOUTB = 0x8"
definition STATES_WAITFOR_EVENT :: "32 word" where [bit_masks]: "STATES_WAITFOR_EVENT = 0x10"
definition STATES_WAITFOR_MUTEX :: "32 word" where [bit_masks]: "STATES_WAITFOR_MUTEX = 0x20"
definition STATES_WAITFOR_SEMPH :: "32 word" where [bit_masks]: "STATES_WAITFOR_SEMPH = 0x40"
definition STATES_WAITFOR_CONDV :: "32 word" where [bit_masks]: "STATES_WAITFOR_CONDV = 0x80"

definition STATES_BLOCKED :: "32 word" where
  "STATES_BLOCKED = STATES_SUSPENDED OR STATES_IN_USLEEP OR STATES_WAIT_TIMEOUTB OR
     STATES_WAITFOR_EVENT OR STATES_WAITFOR_MUTEX OR STATES_WAITFOR_SEMPH OR STATES_WAITFOR_CONDV"

definition MASK_SYSTEM_STACK :: "32 word" where [bit_masks]: "MASK_SYSTEM_STACK = 0x1"
definition TASK_EVENT_WAIT_ANY :: "32 word" where [bit_masks]: "TASK_EVENT_WAIT_ANY = 0x1"

lemma STATES_BLOCKED_val [bit_masks]: "STATES_BLOCKED = 0xFE"
  by (simp add: STATES_BLOCKED_def bit_masks)

section \<open>Chains, locks and wait objects\<close>

text \<open>
  Every chain header of the program: the ready and watchdog lists of a scheduler, the global
  ready list of a group, the wait queues of the synchronisation objects, and the stack-allocated
  list of \<open>fiber_cond_broadcast\<close> (one per thread).
\<close>

datatype chain_id =
    ReadyList nat | WadogList nat | GlobalReady nat
  | MutexWaitq nat | SemWaitq nat | CondWaitq nat | LocalChain nat

fun link_field :: "chain_id \<Rightarrow> fld" where
  "link_field (WadogList d) = Fld_link"
| "link_field _ = Fld_node"

datatype lock_id =
    EventLock nat | WadogLock nat | GlobalReadyLock nat
  | MutexLock nat | SemLock nat | CondLock nat | FreedListLock | StackCacheLock

datatype waitobj = NoObject | SemObject nat | CondObject nat

text \<open>
  Where a task continues when it is switched to: at its entry, or in the code behind the
  \<open>fiber_sched\<close> call of the function named by the constructor.  \<open>K_cond_relock\<close> is the
  \<open>fiber_mutex_lock\<close> call at the end of a condition wait (timed or not).
\<close>

datatype kont =
    K_entry | K_yield | K_sched_yield | K_usleep | K_event_wait | K_mutex_lock
  | K_sem_wait | K_sem_timedwait | K_cond_wait nat | K_cond_timedwait nat | K_cond_relock bool

datatype 'a outcome = Returns 'a | Switched

section \<open>Structures\<close>

record FibCTX =
  reg_r12 :: "64 word"
  reg_r13 :: "64 word"
  reg_r14 :: "64 word"
  reg_r15 :: "64 word"
  reg_rip :: "64 word"
  reg_rsp :: "64 word"
  reg_rbx :: "64 word"
  reg_rbp :: "64 word"

record FibTCB =
  entry :: nat
  args :: nat
  stackaddr :: nat
  stacksize :: "32 word"
  state :: "32 word"
  group :: nat
  yieldCode :: "64 word"
  delta_interval :: int
  waitingOptions :: "32 word"
  pendingEvents :: "64 word"
  waitingEvents :: "64 word"
  seizedEvents :: "64 word"
  waitingObject :: waitobj
  scheduler :: "nat option"
  scheddata :: "nat option"
  taskLocalStorages :: "64 word list"
  onTaskStartup :: "nat option"
  onTaskCleanup :: "nat option"
  regs :: FibCTX
  resume_at :: kont

record FibSCP =
  freedlist :: "chain_id ref"
  freedsize :: int
  scp_group :: nat
  cached_stack :: "(nat \<times> 32 word) list"
  cached_stack_mask :: "32 word"
  nLocalFibTasks :: "32 word"

record FibMutex =
  holder :: "nat option"
  reentries :: "32 word"

record FibSemaphore =
  count :: int

record sys =
  one_n_model :: bool
  mem :: "chain_id mem"
  locks :: "lock_id \<Rightarrow> bool"
  tcbs :: "nat \<Rightarrow> FibTCB"
  scps :: "nat \<Rightarrow> FibSCP"
  mutexes :: "nat \<Rightarrow> FibMutex"
  sems :: "nat \<Rightarrow> FibSemaphore"
  current_task :: "nat \<Rightarrow> nat option"
  the_maintask :: "nat \<Rightarrow> nat option"
  global_freedlist :: "chain_id ref"
  global_cached_stack :: "(nat \<times> 32 word) list"
  global_cached_stack_mask :: "64 word"
  nGlobalFibTasks :: int
  mServiceThreads :: int

definition upd_tcb :: "nat \<Rightarrow> (FibTCB \<Rightarrow> FibTCB) \<Rightarrow> sys \<Rightarrow> sys" where
  [sys_defs]: "upd_tcb t f s = s\<lparr>tcbs := (tcbs s)(t := f (tcbs s t))\<rparr>"

definition upd_scp :: "nat \<Rightarrow> (FibSCP \<Rightarrow> FibSCP) \<Rightarrow> sys \<Rightarrow> sys" where
  [sys_defs]: "upd_scp d f s = s\<lparr>scps := (scps s)(d := f (scps s d))\<rparr>"

definition upd_mutex :: "nat \<Rightarrow> (FibMutex \<Rightarrow> FibMutex) \<Rightarrow> sys \<Rightarrow> sys" where
  [sys_defs]: "upd_mutex p f s = s\<lparr>mutexes := (mutexes s)(p := f (mutexes s p))\<rparr>"

definition upd_sem :: "nat \<Rightarrow> (FibSemaphore \<Rightarrow> FibSemaphore) \<Rightarrow> sys \<Rightarrow> sys" where
  [sys_defs]: "upd_sem p f s = s\<lparr>sems := (sems s)(p := f (sems s p))\<rparr>"

text \<open>The flag updates \<open>state |= x\<close> and \<open>state &= ~x\<close>.\<close>

definition set_flags :: "32 word \<Rightarrow> nat \<Rightarrow> sys \<Rightarrow> sys" where
  [sys_defs]: "set_flags x t = upd_tcb t (\<lambda>b. b\<lparr>state := state b OR x\<rparr>)"

definition clear_flags :: "32 word \<Rightarrow> nat \<Rightarrow> sys \<Rightarrow> sys" where
  [sys_defs]: "clear_flags x t = upd_tcb t (\<lambda>b. b\<lparr>state := state b AND NOT x\<rparr>)"

definition flags :: "sys \<Rightarrow> nat \<Rightarrow> 32 word" where
  [sys_defs]: "flags s t = state (tcbs s t)"

fun ptr :: "nat option \<Rightarrow> chain_id ref" where
  "ptr None = NULL"
| "ptr (Some t) = Tcb t"

text \<open>A chain pointer used as a task: a header node or null is no control block.\<close>

fun as_task :: "chain_id ref \<Rightarrow> nat option" where
  "as_task (Tcb t) = Some t"
| "as_task _ = None"

definition on_mem :: "(chain_id mem \<Rightarrow> chain_id mem option) \<Rightarrow> sys \<Rightarrow> sys option" where
  "on_mem f s = map_option (\<lambda>m. s\<lparr>mem := m\<rparr>) (f (mem s))"

section \<open>Spin locks as seen by one operation\<close>

text \<open>
  \<^verbatim>\<open>spin_lock\<close> is empty under \<open>__1_N_MODEL__\<close>; otherwise it loops until the lock
  byte is free.  An operation runs as one step, so a lock found taken is never released while it
  spins: a fault.  \<^verbatim>\<open>__spin_lock\<close> takes the lock in both builds.
\<close>

definition spin_lock :: "lock_id \<Rightarrow> sys \<Rightarrow> sys option" where
  "spin_lock l s =
     (if one_n_model s then Some s
      else if locks s l then None else Some (s\<lparr>locks := (locks s)(l := True)\<rparr>))"

definition spin_unlock :: "lock_id \<Rightarrow> sys \<Rightarrow> sys" where
  "spin_unlock l s = (if one_n_model s then s else s\<lparr>locks := (locks s)(l := False)\<rparr>)"

definition spin_lock2 :: "lock_id \<Rightarrow> sys \<Rightarrow> sys option" where
  "spin_lock2 l s = (if locks s l then None else Some (s\<lparr>locks := (locks s)(l := True)\<rparr>))"

definition spin_unlock2 :: "lock_id \<Rightarrow> sys \<Rightarrow> sys" where
  "spin_unlock2 l s = s\<lparr>locks := (locks s)(l := False)\<rparr>"

section \<open>Ready queue access\<close>

definition localReadyQProtectedExtract :: "nat \<Rightarrow> sys \<Rightarrow> sys option" where
  "localReadyQProtectedExtract the_task = on_mem (node_remove (Tcb the_task))"

definition localReadyQProtectedInsertBefore :: "nat option \<Rightarrow> nat \<Rightarrow> sys \<Rightarrow> sys option" where
  "localReadyQProtectedInsertBefore the_sched the_task =
     on_mem (node_insert_before (ptr the_sched) (Tcb the_task))"

section \<open>Task local storage\<close>

text \<open>
  \<open>index\<close> is a C \<open>int\<close>: only the upper bound is checked, so a negative index reads or writes
  outside the array (a fault here).
\<close>

definition fiber_set_localdata :: "nat \<Rightarrow> int \<Rightarrow> 64 word \<Rightarrow> sys \<Rightarrow> (bool \<times> sys) option" where
  "fiber_set_localdata the_task index data s =
     (if index \<ge> int MAX_TASK_LOCALDATAS then Some (False, s)
      else if index < 0 then None
      else Some (True, upd_tcb the_task
        (\<lambda>b. b\<lparr>taskLocalStorages := (taskLocalStorages b)[nat index := data]\<rparr>) s))"

definition fiber_get_localdata :: "nat \<Rightarrow> int \<Rightarrow> sys \<Rightarrow> 64 word option" where
  "fiber_get_localdata the_task index s =
     (if index \<ge> int MAX_TASK_LOCALDATAS then Some 0
      else if index < 0 then None
      else Some (taskLocalStorages (tcbs s the_task) ! nat index))"

definition fiber_install_callbacks :: "nat \<Rightarrow> nat option \<Rightarrow> nat option \<Rightarrow> sys \<Rightarrow> bool \<times> sys" where
  "fiber_install_callbacks the_task startup cleanup s =
     (True, upd_tcb the_task (\<lambda>b. b\<lparr>onTaskStartup := startup, onTaskCleanup := cleanup\<rparr>) s)"

lemma mem_update_eq [simp]: "(s\<lparr>mem := m\<rparr> = s\<lparr>mem := m'\<rparr>) = (m = m')"
  by (auto dest: arg_cong[where f = mem])

section \<open>The queues of a state\<close>

text \<open>\<open>queues s Q\<close>: the chain memory of \<open>s\<close> is well formed and holds the lists \<open>Q\<close>.\<close>

definition queues :: "sys \<Rightarrow> (chain_id \<rightharpoonup> nat list) \<Rightarrow> bool" where
  "queues s Q = chains link_field (mem s) Q"

abbreviation node_free :: "(chain_id \<rightharpoonup> nat list) \<Rightarrow> nat \<Rightarrow> bool" where
  "node_free Q t \<equiv> off_chains link_field Fld_node Q t"

lemma queues_distinct: "queues s Q \<Longrightarrow> Q c = Some xs \<Longrightarrow> distinct xs"
  using chains_distinct by (auto simp: queues_def)

lemma queues_disjoint:
  "queues s Q \<Longrightarrow> Q c = Some xs \<Longrightarrow> Q d = Some ys \<Longrightarrow> link_field c = link_field d \<Longrightarrow>
     t \<in> set xs \<Longrightarrow> t \<in> set ys \<Longrightarrow> c = d"
  using chains_disjoint by (auto simp: queues_def)

text \<open>No spin lock is held, as it is between operations.\<close>

definition quiet :: "sys \<Rightarrow> bool" where
  "quiet s = (\<forall>l. \<not> locks s l)"

lemma quietD [simp]: "quiet s \<Longrightarrow> locks s l = False"
  by (simp add: quiet_def)

text \<open>What the operations on queues, tasks and synchronisation objects never change.\<close>

definition frame :: "sys \<Rightarrow> sys \<Rightarrow> bool" where
  "frame s s' = (one_n_model s' = one_n_model s \<and> locks s' = locks s \<and> the_maintask s' = the_maintask s \<and>
     global_freedlist s' = global_freedlist s \<and> global_cached_stack s' = global_cached_stack s \<and>
     global_cached_stack_mask s' = global_cached_stack_mask s \<and>
     nGlobalFibTasks s' = nGlobalFibTasks s \<and> mServiceThreads s' = mServiceThreads s)"

lemma frame_refl [simp]: "frame s s"
  by (simp add: frame_def)

lemma frame_trans: "frame s s' \<Longrightarrow> frame s' s'' \<Longrightarrow> frame s s''"
  by (simp add: frame_def)

lemma frame_quiet: "frame s s' \<Longrightarrow> quiet s \<Longrightarrow> quiet s'"
  by (simp add: frame_def quiet_def)

lemma spin_lock_free:
  "\<not> locks s l \<Longrightarrow> spin_lock l s = Some (s\<lparr>locks := (locks s)(l := \<not> one_n_model s)\<rparr>)"
  by (simp add: spin_lock_def fun_upd_idem)

lemma spin_unlock_eq: "spin_unlock l s = s\<lparr>locks := (locks s)(l := one_n_model s \<and> locks s l)\<rparr>"
  by (simp add: spin_unlock_def fun_upd_idem)

lemmas spin_simps = spin_lock_free spin_unlock_eq fun_upd_idem

lemma extract_spec:
  assumes "queues s Q" "link_field c = Fld_node" "Q c = Some (xs @ t # ys)"
  shows "\<exists>m. localReadyQProtectedExtract t s = Some (s\<lparr>mem := m\<rparr>) \<and>
           chains link_field m (Q(c \<mapsto> xs @ ys))"
  using linkq.remove_law[where k = link_field and f = Fld_node, of "mem s" Q c xs t ys] assms
  by (auto simp: localReadyQProtectedExtract_def on_mem_def node_remove_def queues_def)

lemma gone_spec:
  assumes "queues s Q" "link_field c = Fld_node" "Q c = Some (xs @ t # ys)"
  shows "node_free (Q(c \<mapsto> xs @ ys)) t"
  using linkq.gone_after_remove[where k = link_field and f = Fld_node, of "mem s" Q c xs t ys] assms
  by (auto simp: off_chains_def queues_def)

lemma insert_before_spec:
  assumes "queues s Q" "link_field c = Fld_node" "Q c = Some (xs @ b # ys)" "node_free Q t"
  shows "\<exists>m. localReadyQProtectedInsertBefore (Some b) t s = Some (s\<lparr>mem := m\<rparr>) \<and>
           chains link_field m (Q(c \<mapsto> xs @ t # b # ys))"
  using linkq.before_law[where k = link_field and f = Fld_node, of "mem s" Q c xs "b # ys" t] assms
  by (auto simp: localReadyQProtectedInsertBefore_def on_mem_def node_insert_before_def queues_def
      off_chains_def)

lemma append_spec:
  assumes "queues s Q" "link_field c = Fld_node" "Q c = Some xs" "node_free Q t"
  shows "\<exists>m. on_mem (node_append c (Tcb t)) s = Some (s\<lparr>mem := m\<rparr>) \<and>
           chains link_field m (Q(c \<mapsto> xs @ [t]))"
  using linkq.tail_law[where k = link_field and f = Fld_node, of "mem s" Q c xs t] assms
  by (auto simp: on_mem_def node_append_def queues_def off_chains_def)

lemma first_spec:
  assumes "queues s Q" "link_field c = Fld_node" "Q c = Some xs"
  shows "chain_first c (mem s) = right_of c xs"
  using linkq.first_law[where k = link_field and f = Fld_node, of "mem s" Q c xs] assms
  by (simp add: queues_def)

lemma extract_first_spec:
  assumes "queues s Q" "link_field c = Fld_node" "Q c = Some (x # xs)"
  shows "\<exists>m. node_extract_first c (mem s) = Some (Tcb x, m) \<and> chains link_field m (Q(c \<mapsto> xs))"
  using extract_first_eq[of "mem s" c "x # xs"] chains_unsplice[of link_field "mem s" Q c "[]" x xs]
    chains_is_chain[of link_field "mem s" Q c] assms
  by (auto simp: queues_def)

lemma extract_first_empty_spec:
  assumes "queues s Q" "link_field c = Fld_node" "Q c = Some []"
  shows "node_extract_first c (mem s) = Some (NULL, mem s)"
  using extract_first_eq[of "mem s" c "[]"] chains_is_chain[of link_field "mem s" Q c] assms
  by (auto simp: queues_def)

end
