(* ===== verification/Sched.thy ===== *)
theory Sched
  imports Task_State
begin

text \<open>
  The dispatcher of \<^verbatim>\<open>src/task.c\<close>: \<open>fiber_sched\<close> and the calls built on it
  (yield, resume, sched_yield, the state setter), and the global ready lists that move tasks
  between service threads.
\<close>

section \<open>Switching tasks\<close>

text \<open>\<open>swap_context\<close> saves where the running task continues.\<close>

definition swap_context :: "nat \<Rightarrow> kont \<Rightarrow> sys \<Rightarrow> sys" where
  [sys_defs]: "swap_context the_task k = upd_tcb the_task (\<lambda>b. b\<lparr>resume_at := k\<rparr>)"

text \<open>The first component of the result tells whether control went to another task.\<close>

definition fiber_sched :: "nat \<Rightarrow> kont \<Rightarrow> sys \<Rightarrow> (bool \<times> sys) option" where
  "fiber_sched th k s = do {
     the_scheduler \<leftarrow> the_maintask s th;
     the_task \<leftarrow> current_task s th;
     d \<leftarrow> scheddata (tcbs s the_scheduler);
     let the_chain = ReadyList d;
     the_next \<leftarrow> as_task (chain_first the_chain (mem s));
     if the_next = the_task then Some (False, s)
     else do {
       s \<leftarrow> on_mem (node_remove (Tcb the_next)) s;
       let s = s\<lparr>current_task := (current_task s)(th := Some the_next)\<rparr>;
       s \<leftarrow> (if the_next \<noteq> the_scheduler
             then on_mem (node_insert_before (Tcb the_scheduler) (Tcb the_next)) s
             else on_mem (node_append the_chain (Tcb the_next)) s);
       Some (True, swap_context the_task k s)
     }
   }"

definition fiber_setstate :: "nat \<Rightarrow> nat \<Rightarrow> 32 word \<Rightarrow> kont \<Rightarrow> sys \<Rightarrow> (bool \<times> sys) option" where
  "fiber_setstate th the_task states k s = do {
     let s = set_flags states the_task s;
     s \<leftarrow> localReadyQProtectedExtract the_task s;
     fiber_sched th k s
   }"

definition fiber_yield :: "nat \<Rightarrow> 64 word \<Rightarrow> sys \<Rightarrow> (nat outcome \<times> sys) option" where
  "fiber_yield th code s = do {
     the_task \<leftarrow> current_task s th;
     let s = upd_tcb the_task (\<lambda>b. b\<lparr>yieldCode := code\<rparr>) s;
     (sw, s) \<leftarrow> fiber_setstate th the_task STATES_SUSPENDED K_yield s;
     Some (if sw then Switched else Returns the_task, s)
   }"

definition fiber_resume :: "nat \<Rightarrow> sys \<Rightarrow> (64 word \<times> sys) option" where
  "fiber_resume the_task s = do {
     let code = yieldCode (tcbs s the_task);
     let s = clear_flags STATES_SUSPENDED the_task s;
     s \<leftarrow> localReadyQProtectedInsertBefore (scheduler (tcbs s the_task)) the_task s;
     Some (code, s)
   }"

definition fiber_sched_yield :: "nat \<Rightarrow> sys \<Rightarrow> (nat outcome \<times> sys) option" where
  "fiber_sched_yield th s = do {
     the_scheduler \<leftarrow> the_maintask s th;
     the_task \<leftarrow> current_task s th;
     d \<leftarrow> scheddata (tcbs s the_scheduler);
     let the_chain = ReadyList d;
     s \<leftarrow> on_mem (node_remove (Tcb the_task)) s;
     s \<leftarrow> (if the_task = the_scheduler then on_mem (node_append the_chain (Tcb the_task)) s
           else on_mem (node_insert_before (Tcb the_scheduler) (Tcb the_task)) s);
     (sw, s) \<leftarrow> fiber_sched th K_sched_yield s;
     Some (if sw then Switched else Returns the_task, s)
   }"

definition fiber_ident :: "nat \<Rightarrow> sys \<Rightarrow> nat option" where
  "fiber_ident th s = current_task s th"

section \<open>The global ready lists\<close>

definition pushIntoGlobalReadyList :: "nat \<Rightarrow> sys \<Rightarrow> sys option" where
  "pushIntoGlobalReadyList the_task s = do {
     let g = group (tcbs s the_task);
     s \<leftarrow> spin_lock (GlobalReadyLock g) s;
     let s = upd_tcb the_task (\<lambda>b. b\<lparr>scheduler := None, scheddata := None\<rparr>) s;
     s \<leftarrow> on_mem (node_append (GlobalReady g) (Tcb the_task)) s;
     Some (spin_unlock (GlobalReadyLock g) s)
   }"

definition popFromGlobalReadyList :: "nat \<Rightarrow> nat \<Rightarrow> sys \<Rightarrow> (nat option \<times> sys) option" where
  "popFromGlobalReadyList the_scheduler g s = do {
     s \<leftarrow> spin_lock (GlobalReadyLock g) s;
     (r, m) \<leftarrow> node_extract_first (GlobalReady g) (mem s);
     let s = s\<lparr>mem := m\<rparr>;
     let the_task = as_task r;
     let s = (case the_task of None \<Rightarrow> s
              | Some t \<Rightarrow> upd_tcb t (\<lambda>b. b\<lparr>scheduler := Some the_scheduler,
                   scheddata := scheddata (tcbs s the_scheduler),
                   state := state b AND NOT STATES_BLOCKED\<rparr>) s);
     Some (the_task, spin_unlock (GlobalReadyLock g) s)
   }"

section \<open>What the dispatcher does\<close>

text \<open>
  \<open>on_thread s Q th d m us\<close>: thread \<open>th\<close> runs the scheduler task \<open>m\<close> with scheduler data
  \<open>d\<close>, and its ready list is \<open>us\<close> followed by \<open>m\<close>.
\<close>

definition on_thread :: "sys \<Rightarrow> (chain_id \<rightharpoonup> nat list) \<Rightarrow> nat \<Rightarrow> nat \<Rightarrow> nat \<Rightarrow> nat list \<Rightarrow> bool" where
  "on_thread s Q th d m us =
     (the_maintask s th = Some m \<and> scheddata (tcbs s m) = Some d \<and> Q (ReadyList d) = Some (us @ [m]))"

lemma on_threadD:
  assumes "on_thread s Q th d m us"
  shows "the_maintask s th = Some m" "scheddata (tcbs s m) = Some d" "Q (ReadyList d) = Some (us @ [m])"
  using assms by (simp_all add: on_thread_def)

lemma queues_mem [simp]: "queues (s\<lparr>mem := m\<rparr>) Q = chains link_field m Q"
  by (simp add: queues_def)

lemma queues_current [simp]: "queues (s\<lparr>current_task := c\<rparr>) Q = queues s Q"
  by (simp add: queues_def)

lemma queues_tcb [simp]: "queues (upd_tcb t f s) Q = queues s Q"
  by (simp add: queues_def sys_defs)

text \<open>The dispatcher stays with the running task exactly when that task heads the ready list.\<close>

lemma fiber_sched_stays:
  assumes "queues s Q" "on_thread s Q th d m us" "current_task s th = Some c"
    and "us @ [m] = c # zs"
  shows "fiber_sched th k s = Some (False, s)"
  using assms first_spec[OF assms(1), of "ReadyList d" "us @ [m]"]
  by (simp add: fiber_sched_def on_thread_def)

text \<open>Otherwise the head \<open>n\<close> of the list runs next and is queued again just before the scheduler.\<close>

lemma fiber_sched_switches:
  assumes q: "queues s Q" and th: "on_thread s Q th d m (n # ns)"
    and c: "current_task s th = Some c" and ne: "c \<noteq> n"
  shows "\<exists>mm. fiber_sched th k s = Some (True, swap_context c k
             (s\<lparr>current_task := (current_task s)(th := Some n), mem := mm\<rparr>)) \<and>
           chains link_field mm (Q(ReadyList d \<mapsto> ns @ [n, m]))"
proof -
  have ql: "Q (ReadyList d) = Some ([] @ n # ns @ [m])" using th by (simp add: on_thread_def)
  have "n \<noteq> m" using chains_distinct[of link_field "mem s" Q "ReadyList d"] q ql
    by (auto simp: queues_def)
  moreover obtain m1 m2 where "chain_remove Fld_node (Tcb n) (mem s) = Some m1"
    "chain_insert_before Fld_node (right_of (ReadyList d) [m]) (Tcb n) m1 = Some m2"
    "chains link_field m2 (Q(ReadyList d \<mapsto> [] @ ns @ n # [m]))"
    using linkq.rotate_before[where k = link_field and f = Fld_node, of "mem s" Q "ReadyList d" "[]" n ns "[m]"]
      q ql by (auto simp: queues_def)
  ultimately show ?thesis
    using th c ne first_spec[OF q, of "ReadyList d" "n # ns @ [m]"] ql
    by (auto simp: fiber_sched_def on_thread_def on_mem_def node_remove_def node_insert_before_def)
qed

text \<open>With no other task ready, control goes to the scheduler task, and the list keeps its shape.\<close>

lemma fiber_sched_idle:
  assumes q: "queues s Q" and th: "on_thread s Q th d m []"
    and c: "current_task s th = Some c" and ne: "c \<noteq> m"
  shows "\<exists>mm. fiber_sched th k s = Some (True, swap_context c k
             (s\<lparr>current_task := (current_task s)(th := Some m), mem := mm\<rparr>)) \<and>
           chains link_field mm Q"
proof -
  have ql: "Q (ReadyList d) = Some ([] @ m # [])" using th by (simp add: on_thread_def)
  obtain m1 where m1: "node_remove (Tcb m) (mem s) = Some m1"
    "chains link_field m1 (Q(ReadyList d \<mapsto> []))"
    using extract_spec[OF q _ ql] by (force simp: localReadyQProtectedExtract_def on_mem_def)
  have "node_free (Q(ReadyList d \<mapsto> [])) m" using gone_spec[OF q _ ql] by simp
  then obtain m2 where "node_append (ReadyList d) (Tcb m) m1 = Some m2" "chains link_field m2 Q"
    using append_spec[of "s\<lparr>mem := m1\<rparr>" "Q(ReadyList d \<mapsto> [])" "ReadyList d" "[]" m] m1 ql
    by (auto simp: on_mem_def map_upd_triv)
  then show ?thesis
    using th c ne first_spec[OF q, of "ReadyList d" "[m]"] ql m1
    by (auto simp: fiber_sched_def on_thread_def on_mem_def)
qed

text \<open>
  The running task of a thread is its scheduler task or the last task in front of it: this is the
  shape in which every call leaves the ready list.
\<close>

definition running :: "sys \<Rightarrow> (chain_id \<rightharpoonup> nat list) \<Rightarrow> nat \<Rightarrow> nat \<Rightarrow> nat \<Rightarrow> nat list \<Rightarrow> nat \<Rightarrow> bool" where
  "running s Q th d m us c =
     (queues s Q \<and> on_thread s Q th d m us \<and> current_task s th = Some c \<and>
      (c = m \<or> (us \<noteq> [] \<and> c = last us)))"

lemma runningD:
  assumes "running s Q th d m us c"
  shows "queues s Q" "on_thread s Q th d m us" "current_task s th = Some c"
    "the_maintask s th = Some m" "scheddata (tcbs s m) = Some d" "Q (ReadyList d) = Some (us @ [m])"
  using assms by (simp_all add: running_def on_thread_def)

lemma running_distinct: "running s Q th d m us c \<Longrightarrow> distinct (us @ [m])"
  using chains_distinct[of link_field "mem s" Q "ReadyList d"]
  by (auto simp: running_def on_thread_def queues_def)

text \<open>Requeueing the running task in front of the scheduler does not change the ready list.\<close>

lemma requeue_running:
  assumes r: "running s Q th d m us c"
  shows "\<exists>mm. on_mem (node_remove (Tcb c)) s = Some (s\<lparr>mem := mm\<rparr>) \<and>
           (\<exists>mm'. (if c = m then on_mem (node_append (ReadyList d) (Tcb c)) (s\<lparr>mem := mm\<rparr>)
                  else on_mem (node_insert_before (Tcb m) (Tcb c)) (s\<lparr>mem := mm\<rparr>)) =
                 Some (s\<lparr>mem := mm'\<rparr>) \<and> chains link_field mm' Q)"
proof -
  note rd = runningD[OF r]
  obtain xs ys where split: "us @ [m] = xs @ c # ys"
    and cm: "c = m \<longrightarrow> xs = us \<and> ys = []" and cu: "c \<noteq> m \<longrightarrow> us = xs @ [c] \<and> ys = [m]"
  proof (cases "c = m")
    case True
    then show ?thesis using that[of us "[]"] by simp
  next
    case False
    then have "us = butlast us @ [c]" using r by (auto simp: running_def)
    then have "us @ [m] = butlast us @ c # [m]" by (metis append.assoc append_Cons append_Nil)
    then show ?thesis using that[of "butlast us" "[m]"] False \<open>us = butlast us @ [c]\<close> by simp
  qed
  have ql: "Q (ReadyList d) = Some (xs @ c # ys)" using rd(6) split by simp
  let ?Q = "Q(ReadyList d \<mapsto> xs @ ys)"
  obtain m1 where m1: "on_mem (node_remove (Tcb c)) s = Some (s\<lparr>mem := m1\<rparr>)" "chains link_field m1 ?Q"
    using extract_spec[OF rd(1) _ ql] by (auto simp: localReadyQProtectedExtract_def)
  have free: "node_free ?Q c" using gone_spec[OF rd(1) _ ql] by simp
  show ?thesis
  proof (cases "c = m")
    case True
    then obtain m2 where "on_mem (node_append (ReadyList d) (Tcb c)) (s\<lparr>mem := m1\<rparr>) = Some (s\<lparr>mem := m2\<rparr>)"
      "chains link_field m2 Q"
      using append_spec[of "s\<lparr>mem := m1\<rparr>" ?Q "ReadyList d" "xs @ ys" c] m1 free cm ql
      by (auto simp: map_upd_triv)
    with m1 True show ?thesis by auto
  next
    case False
    then obtain m2 where "on_mem (node_insert_before (Tcb m) (Tcb c)) (s\<lparr>mem := m1\<rparr>) = Some (s\<lparr>mem := m2\<rparr>)"
      "chains link_field m2 Q"
      using insert_before_spec[of "s\<lparr>mem := m1\<rparr>" ?Q "ReadyList d" xs m "[]" c] m1 free cu ql
      by (auto simp: map_upd_triv localReadyQProtectedInsertBefore_def)
    with m1 False show ?thesis by auto
  qed
qed

lemma running_mem:
  "running s Q th d m us c \<Longrightarrow> chains link_field mm Q \<Longrightarrow> running (s\<lparr>mem := mm\<rparr>) Q th d m us c"
  by (simp add: running_def on_thread_def)

text \<open>\<open>fiber_sched_yield\<close>: the head of the ready list runs next and the list rotates by one.\<close>

lemma sched_yield_step:
  assumes r: "running s Q th d m us c" and ne: "us \<noteq> []"
  shows "\<exists>r s'. fiber_sched_yield th s = Some (r, s') \<and>
           running s' (Q(ReadyList d \<mapsto> rotate1 us @ [m])) th d m (rotate1 us) (hd us)"
proof -
  note rd = runningD[OF r]
  obtain n ns where us: "us = n # ns" using ne by (cases us) auto
  obtain m1 m2 where
    rem: "on_mem (node_remove (Tcb c)) s = Some (s\<lparr>mem := m1\<rparr>)" and
    ins: "(if c = m then on_mem (node_append (ReadyList d) (Tcb c)) (s\<lparr>mem := m1\<rparr>)
           else on_mem (node_insert_before (Tcb m) (Tcb c)) (s\<lparr>mem := m1\<rparr>)) = Some (s\<lparr>mem := m2\<rparr>)" and
    ch: "chains link_field m2 Q"
    using requeue_running[OF r] by blast
  let ?s = "s\<lparr>mem := m2\<rparr>"
  have r2: "running ?s Q th d m us c" using running_mem[OF r ch] .
  have step: "fiber_sched_yield th s =
      Option.bind (fiber_sched th K_sched_yield ?s) (\<lambda>(sw, s). Some (if sw then Switched else Returns c, s))"
    using rd rem ins by (auto simp: fiber_sched_yield_def)
  show ?thesis
  proof (cases "c = n")
    case True
    with r us running_distinct[OF r] have ns: "ns = []"
      using last_in_set[of ns] by (auto simp: running_def split: if_splits)
    then have "fiber_sched th K_sched_yield ?s = Some (False, ?s)"
      using fiber_sched_stays[OF runningD(1-3)[OF r2], of "[m]"] us True by simp
    with step r2 us ns True rd(6) show ?thesis by (auto simp: map_upd_triv)
  next
    case False
    then obtain mm where "fiber_sched th K_sched_yield ?s = Some (True, swap_context c K_sched_yield
         (?s\<lparr>current_task := (current_task ?s)(th := Some n), mem := mm\<rparr>))"
      "chains link_field mm (Q(ReadyList d \<mapsto> ns @ [n, m]))"
      using fiber_sched_switches[OF runningD(1)[OF r2], of th d m n ns c] runningD[OF r2] us by auto
    with step us rd show ?thesis
      by (auto simp: running_def on_thread_def swap_context_def upd_tcb_def queues_def)
  qed
qed

text \<open>
  A task may call it from any place of its ready list, for example after \<open>fiber_resume\<close> put another
  task behind it.
\<close>

lemma sched_yield_elsewhere:
  assumes q: "queues s Q" and th: "on_thread s Q th d m (xs @ c # ys)"
    and c: "current_task s th = Some c" and ne: "xs @ ys \<noteq> []"
  shows "\<exists>s'. fiber_sched_yield th s = Some (Switched, s') \<and>
     running s' (Q(ReadyList d \<mapsto> rotate1 (xs @ ys @ [c]) @ [m])) th d m (rotate1 (xs @ ys @ [c])) (hd (xs @ ys)) \<and>
     tcbs s' = (tcbs s)(c := (tcbs s c)\<lparr>resume_at := K_sched_yield\<rparr>)"
proof -
  note thd = on_threadD[OF th]
  have dist: "distinct (xs @ c # ys @ [m])" using queues_distinct[OF q thd(3)] by simp
  have ql: "Q (ReadyList d) = Some (xs @ c # (ys @ [m]))" using thd(3) by simp
  let ?Q1 = "Q(ReadyList d \<mapsto> xs @ (ys @ [m]))" and ?Q2 = "Q(ReadyList d \<mapsto> (xs @ ys @ [c]) @ [m])"
  obtain m1 where m1: "on_mem (node_remove (Tcb c)) s = Some (s\<lparr>mem := m1\<rparr>)" "chains link_field m1 ?Q1"
    using extract_spec[OF q _ ql] by (auto simp: localReadyQProtectedExtract_def)
  obtain m2 where m2: "on_mem (node_insert_before (Tcb m) (Tcb c)) (s\<lparr>mem := m1\<rparr>) = Some (s\<lparr>mem := m2\<rparr>)"
    "chains link_field m2 ?Q2"
    using insert_before_spec[of "s\<lparr>mem := m1\<rparr>" ?Q1 "ReadyList d" "xs @ ys" m "[]" c] m1(2) gone_spec[OF q _ ql]
    by (auto simp: localReadyQProtectedInsertBefore_def)
  obtain n ns where n: "xs @ ys = n # ns" using ne by (cases "xs @ ys") auto
  then have nc: "c \<noteq> n" "c \<noteq> m" and list: "xs @ ys @ [c] = n # (ns @ [c])" and th2: "on_thread (s\<lparr>mem := m2\<rparr>) ?Q2 th d m (n # (ns @ [c]))"
    using dist th by (auto simp: on_thread_def Cons_eq_append_conv append_eq_Cons_conv)
  from fiber_sched_switches[OF _ th2, of c K_sched_yield] m2(2) nc c obtain mm where
    "fiber_sched th K_sched_yield (s\<lparr>mem := m2\<rparr>) = Some (True, swap_context c K_sched_yield
       (s\<lparr>mem := m2\<rparr>\<lparr>current_task := (current_task s)(th := Some n), mem := mm\<rparr>))"
    "chains link_field mm (?Q2(ReadyList d \<mapsto> (ns @ [c]) @ [n, m]))" by auto
  moreover have "fiber_sched_yield th s =
      Option.bind (fiber_sched th K_sched_yield (s\<lparr>mem := m2\<rparr>)) (\<lambda>(sw, s). Some (if sw then Switched else Returns c, s))"
    using thd c m1 m2 nc by (auto simp: fiber_sched_yield_def)
  moreover have "rotate1 (xs @ ys @ [c]) = ns @ [c, n]" "hd (xs @ ys) = n"
    unfolding list using n by simp_all
  ultimately show ?thesis
    using thd by (auto simp: running_def on_thread_def swap_context_def upd_tcb_def queues_def)
qed

text \<open>Repeated calls of \<open>fiber_sched_yield\<close> on one thread, and the tasks that get to run.\<close>

fun yields :: "nat \<Rightarrow> nat \<Rightarrow> sys \<Rightarrow> (nat list \<times> sys) option" where
  "yields 0 th s = Some ([], s)"
| "yields (Suc k) th s = do {
     (_, s) \<leftarrow> fiber_sched_yield th s;
     c \<leftarrow> current_task s th;
     (cs, s) \<leftarrow> yields k th s;
     Some (c # cs, s)
   }"

lemma rotate_nth0: "xs \<noteq> [] \<Longrightarrow> hd (rotate k xs) = xs ! (k mod length xs)"
  by (simp add: hd_rotate_conv_nth)

lemma yields_round_robin:
  assumes "running s Q th d m us c" and "us \<noteq> []"
  shows "\<exists>s'. yields k th s = Some (map (\<lambda>i. us ! (i mod length us)) [0..<k], s') \<and>
           running s' (Q(ReadyList d \<mapsto> rotate k us @ [m])) th d m (rotate k us)
             (if k = 0 then c else us ! ((k - 1) mod length us))"
  using assms
proof (induction k arbitrary: s Q us c)
  case 0
  then show ?case using runningD(6)[OF "0"(1)] by (simp add: map_upd_triv)
next
  case (Suc k)
  let ?Q = "Q(ReadyList d \<mapsto> rotate1 us @ [m])"
  obtain r s1 where s1: "fiber_sched_yield th s = Some (r, s1)"
    "running s1 ?Q th d m (rotate1 us) (hd us)"
    using sched_yield_step[OF Suc.prems] by blast
  have ne: "rotate1 us \<noteq> []" using Suc.prems(2) by simp
  obtain s2 where s2: "yields k th s1 = Some (map (\<lambda>i. rotate1 us ! (i mod length us)) [0..<k], s2)"
    "running s2 (Q(ReadyList d \<mapsto> rotate k (rotate1 us) @ [m])) th d m (rotate k (rotate1 us))
       (if k = 0 then hd us else rotate1 us ! ((k - 1) mod length us))"
    using Suc.IH[OF s1(2) ne] unfolding fun_upd_upd length_rotate1 by blast
  have nth: "rotate1 us ! (i mod length us) = us ! (Suc i mod length us)" for i
    using Suc.prems(2) by (simp add: nth_rotate1 mod_Suc_eq)
  have "map (\<lambda>i. us ! (i mod length us)) [0..<Suc k] =
        hd us # map (\<lambda>i. rotate1 us ! (i mod length us)) [0..<k]"
    using Suc.prems(2) by (simp add: upt_conv_Cons map_Suc_upt[symmetric] nth hd_conv_nth del: upt_Suc)
  moreover have "(if k = 0 then hd us else rotate1 us ! ((k - 1) mod length us)) = us ! (k mod length us)"
    using Suc.prems(2) by (auto simp: nth hd_conv_nth)
  moreover have "current_task s1 th = Some (hd us)" using runningD(3)[OF s1(2)] .
  moreover have "rotate (Suc k) us = rotate k (rotate1 us)"
    by (simp add: rotate_def funpow_swap1)
  ultimately show ?case using s1(1) s2 by (simp del: upt_Suc fun_upd_apply)
qed

section \<open>Blocking and waking\<close>

text \<open>
  The dispatcher after the running task has left the ready list: the head of the list, or the
  scheduler task when there is none, runs next.
\<close>

definition next_up :: "nat \<Rightarrow> nat list \<Rightarrow> nat" where
  "next_up m us = hd (us @ [m])"

lemma fiber_sched_away:
  assumes "queues s Q" "on_thread s Q th d m us" "current_task s th = Some c" "c \<notin> set (us @ [m])"
  shows "\<exists>s'. fiber_sched th k s = Some (True, s') \<and>
     queues s' (Q(ReadyList d \<mapsto> rotate1 us @ [m])) \<and>
     current_task s' = (current_task s)(th := Some (next_up m us)) \<and>
     tcbs s' = (tcbs s)(c := (tcbs s c)\<lparr>resume_at := k\<rparr>) \<and>
     scps s' = scps s \<and> mutexes s' = mutexes s \<and> sems s' = sems s \<and> frame s s'"
proof (cases us)
  case Nil
  then show ?thesis
    using fiber_sched_idle[OF assms(1), of th d m c k] assms
    by (auto simp: next_up_def on_thread_def map_upd_triv queues_def frame_def sys_defs)
next
  case (Cons n ns)
  then show ?thesis
    using fiber_sched_switches[OF assms(1), of th d m n ns c k] assms
    by (auto simp: next_up_def queues_def frame_def sys_defs)
qed

text \<open>The running task leaves the ready list; its neighbours stay as they are.\<close>

lemma extract_running:
  assumes r: "running s Q th d m us c" and ne: "c \<noteq> m"
  obtains mm where "localReadyQProtectedExtract c s = Some (s\<lparr>mem := mm\<rparr>)"
    and "chains link_field mm (Q(ReadyList d \<mapsto> butlast us @ [m]))"
    and "node_free (Q(ReadyList d \<mapsto> butlast us @ [m])) c"
    and "c \<notin> set (butlast us @ [m])" and "us = butlast us @ [c]"
proof -
  have us: "us = butlast us @ [c]" using r ne by (auto simp: running_def)
  have ql: "Q (ReadyList d) = Some (butlast us @ c # [m])"
    using runningD(6)[OF r] us by (metis append.assoc append_Cons append_Nil)
  note q = runningD(1)[OF r]
  have "distinct (butlast us @ c # [m])"
    using chains_distinct[of link_field "mem s" Q "ReadyList d"] q ql by (auto simp: queues_def)
  then show ?thesis
    using that extract_spec[OF q _ ql] gone_spec[OF q _ ql] us by auto
qed

text \<open>
  Suspending the running task in place: used by \<open>fiber_yield\<close> and \<open>fiber_usleep\<close>.
\<close>

lemma setstate_running:
  assumes r: "running s Q th d m us c" and ne: "c \<noteq> m"
  shows "\<exists>s'. fiber_setstate th c x k s = Some (True, s') \<and>
     queues s' (Q(ReadyList d \<mapsto> rotate1 (butlast us) @ [m])) \<and>
     current_task s' = (current_task s)(th := Some (next_up m (butlast us))) \<and>
     tcbs s' = (tcbs s)(c := (tcbs s c)\<lparr>state := state (tcbs s c) OR x, resume_at := k\<rparr>) \<and>
     scps s' = scps s \<and> mutexes s' = mutexes s \<and> sems s' = sems s \<and> frame s s'"
proof -
  let ?s = "set_flags x c s"
  have r1: "running ?s Q th d m us c"
    using r ne by (simp add: running_def on_thread_def sys_defs queues_def)
  obtain m1 where m1: "localReadyQProtectedExtract c ?s = Some (?s\<lparr>mem := m1\<rparr>)"
    "chains link_field m1 (Q(ReadyList d \<mapsto> butlast us @ [m]))" "c \<notin> set (butlast us @ [m])"
    by (rule extract_running[OF r1 ne])
  let ?s1 = "?s\<lparr>mem := m1\<rparr>" and ?Q1 = "Q(ReadyList d \<mapsto> butlast us @ [m])"
  have "queues ?s1 ?Q1" "on_thread ?s1 ?Q1 th d m (butlast us)" "current_task ?s1 th = Some c"
    using m1 runningD[OF r1] by (simp_all add: on_thread_def)
  from fiber_sched_away[OF this m1(3), of k] m1(1) show ?thesis
    by (auto simp: fiber_setstate_def sys_defs frame_def)
qed

lemma fiber_yield_spec:
  assumes r: "running s Q th d m us c" and ne: "c \<noteq> m"
  shows "\<exists>s'. fiber_yield th code s = Some (Switched, s') \<and>
     queues s' (Q(ReadyList d \<mapsto> rotate1 (butlast us) @ [m])) \<and>
     current_task s' = (current_task s)(th := Some (next_up m (butlast us))) \<and>
     tcbs s' = (tcbs s)(c := (tcbs s c)\<lparr>yieldCode := code, state := state (tcbs s c) OR STATES_SUSPENDED,
                                      resume_at := K_yield\<rparr>) \<and>
     scps s' = scps s \<and> mutexes s' = mutexes s \<and> sems s' = sems s \<and> frame s s'"
proof -
  let ?s = "upd_tcb c (\<lambda>b. b\<lparr>yieldCode := code\<rparr>) s"
  have "running ?s Q th d m us c"
    using r ne by (simp add: running_def on_thread_def sys_defs queues_def)
  from setstate_running[OF this ne, of STATES_SUSPENDED K_yield]
  show ?thesis using runningD(3)[OF r]
    by (auto simp: fiber_yield_def sys_defs frame_def)
qed

lemma fiber_resume_spec:
  assumes "queues s Q" "scheduler (tcbs s t) = Some b" "Q (ReadyList d) = Some (us @ [b])" "node_free Q t"
  shows "\<exists>s'. fiber_resume t s = Some (yieldCode (tcbs s t), s') \<and>
     queues s' (Q(ReadyList d \<mapsto> us @ [t, b])) \<and> current_task s' = current_task s \<and>
     tcbs s' = (tcbs s)(t := (tcbs s t)\<lparr>state := state (tcbs s t) AND NOT STATES_SUSPENDED\<rparr>) \<and>
     scps s' = scps s \<and> mutexes s' = mutexes s \<and> sems s' = sems s \<and> frame s s'"
  using insert_before_spec[of "clear_flags STATES_SUSPENDED t s" Q "ReadyList d" us b "[]" t] assms
  by (auto simp: fiber_resume_def sys_defs queues_def frame_def)

section \<open>Moving tasks between threads\<close>

lemma push_global_spec:
  assumes "queues s Q" "quiet s" "Q (GlobalReady (group (tcbs s t))) = Some gs" "node_free Q t"
  shows "\<exists>s'. pushIntoGlobalReadyList t s = Some s' \<and>
     queues s' (Q(GlobalReady (group (tcbs s t)) \<mapsto> gs @ [t])) \<and> current_task s' = current_task s \<and>
     tcbs s' = (tcbs s)(t := (tcbs s t)\<lparr>scheduler := None, scheddata := None\<rparr>) \<and>
     scps s' = scps s \<and> mutexes s' = mutexes s \<and> sems s' = sems s \<and> frame s s'"
proof -
  obtain mm where mm: "node_append (GlobalReady (group (tcbs s t))) (Tcb t) (mem s) = Some mm"
    "chains link_field mm (Q(GlobalReady (group (tcbs s t)) \<mapsto> gs @ [t]))"
    using append_spec[OF assms(1) _ assms(3,4)] by (auto simp: on_mem_def)
  then show ?thesis using assms(2)
    by (auto simp: pushIntoGlobalReadyList_def spin_simps sys_defs on_mem_def frame_def queues_def Let_def)
qed

lemma pop_global_spec:
  assumes "queues s Q" "quiet s" "Q (GlobalReady g) = Some (t # gs)"
  shows "\<exists>s'. popFromGlobalReadyList b g s = Some (Some t, s') \<and>
     queues s' (Q(GlobalReady g \<mapsto> gs)) \<and> current_task s' = current_task s \<and>
     tcbs s' = (tcbs s)(t := (tcbs s t)\<lparr>scheduler := Some b,
             scheddata := scheddata (tcbs s b), state := state (tcbs s t) AND NOT STATES_BLOCKED\<rparr>) \<and>
     scps s' = scps s \<and> mutexes s' = mutexes s \<and> sems s' = sems s \<and> frame s s'"
proof -
  obtain mm where mm: "node_extract_first (GlobalReady g) (mem s) = Some (Tcb t, mm)"
    "chains link_field mm (Q(GlobalReady g \<mapsto> gs))"
    using extract_first_spec[OF assms(1) _ assms(3)] by auto
  then show ?thesis using assms(2)
    by (auto simp: popFromGlobalReadyList_def spin_simps sys_defs frame_def queues_def Let_def)
qed

end
