(* ===== verification/Watchdog.thy ===== *)
theory Watchdog
  imports Sched
begin

text \<open>
  Timeouts (\<^verbatim>\<open>src/task.c\<close>, watchdog section).  Each scheduler keeps a chain of
  waiting tasks, linked through the field \<open>link\<close>, in which a task stores its timeout relative
  to its predecessor (\<open>delta_interval\<close>).  The theory models insertion, removal and the expiry
  scan and relates them to operations on lists of (task, delta) pairs, whose meaning is given by
  \<open>deadlines\<close>, the running sums.
\<close>

section \<open>The operations\<close>

text \<open>The search loop of \<open>fiber_watchdog_insert\<close>: where to insert, the remaining interval.\<close>

partial_function (option) watchdog_seek ::
  "chain_id ref \<Rightarrow> int \<Rightarrow> sys \<Rightarrow> (chain_id ref \<times> int \<times> sys) option" where
  "watchdog_seek after delta s =
     (if delta = 0 then Some (after, delta, s)
      else case chain_next Fld_link after (mem s) of
        None \<Rightarrow> None
      | Some nxt \<Rightarrow>
         if nxt = NULL then Some (after, delta, s)
         else case as_task after of
           None \<Rightarrow> None
         | Some a \<Rightarrow>
            if delta < delta_interval (tcbs s a)
            then Some (after, delta, upd_tcb a (\<lambda>b. b\<lparr>delta_interval := delta_interval b - delta\<rparr>) s)
            else watchdog_seek nxt (delta - delta_interval (tcbs s a)) s)"

definition fiber_watchdog_insert :: "nat \<Rightarrow> sys \<Rightarrow> (int \<times> sys) option" where
  "fiber_watchdog_insert the_task s = do {
     d \<leftarrow> scheddata (tcbs s the_task);
     let delta = delta_interval (tcbs s the_task);
     s \<leftarrow> spin_lock (WadogLock d) s;
     if flags s the_task AND STATES_WAIT_TIMEOUTB \<noteq> 0 then Some (1, spin_unlock (WadogLock d) s)
     else do {
       (after, delta, s) \<leftarrow> watchdog_seek (chain_first (WadogList d) (mem s)) delta s;
       let s = upd_tcb the_task (\<lambda>b. b\<lparr>delta_interval := delta\<rparr>) s;
       s \<leftarrow> on_mem (chain_insert_before Fld_link after (Tcb the_task)) s;
       let s = set_flags STATES_WAIT_TIMEOUTB the_task s;
       Some (0, spin_unlock (WadogLock d) s)
     }
   }"

definition fiber_watchdog_remove :: "nat \<Rightarrow> sys \<Rightarrow> (int \<times> sys) option" where
  "fiber_watchdog_remove the_task s = do {
     d \<leftarrow> scheddata (tcbs s the_task);
     s \<leftarrow> spin_lock (WadogLock d) s;
     s \<leftarrow> (if flags s the_task AND STATES_WAIT_TIMEOUTB \<noteq> 0 then do {
             nxt_tcb \<leftarrow> chain_next Fld_link (Tcb the_task) (mem s);
             nn \<leftarrow> chain_next Fld_link nxt_tcb (mem s);
             s \<leftarrow> (if nn \<noteq> NULL then do {
                     n \<leftarrow> as_task nxt_tcb;
                     Some (upd_tcb n (\<lambda>b. b\<lparr>delta_interval := delta_interval b +
                             delta_interval (tcbs s the_task)\<rparr>) s)
                   } else Some s);
             s \<leftarrow> on_mem (chain_remove Fld_link (Tcb the_task)) s;
             Some (clear_flags STATES_WAIT_TIMEOUTB the_task s)
           } else Some s);
     Some (0, spin_unlock (WadogLock d) s)
   }"

text \<open>
  The lock of the object a task waits for: \<open>waitingObject\<close> is cast to a semaphore, and a
  condition variable starts with the same fields.
\<close>

fun wait_lock :: "waitobj \<Rightarrow> lock_id option" where
  "wait_lock (SemObject p) = Some (SemLock p)"
| "wait_lock (CondObject p) = Some (CondLock p)"
| "wait_lock NoObject = None"

text \<open>
  The body of the expiry scan for one due task.  Under \<open>__1_N_MODEL__\<close> the lock macros are
  empty, so the object pointer is not followed.
\<close>

definition watchdog_fire :: "nat \<Rightarrow> sys \<Rightarrow> sys option" where
  "watchdog_fire the_task s = do {
     s \<leftarrow> on_mem (chain_remove Fld_link (Tcb the_task)) s;
     let s = clear_flags STATES_WAIT_TIMEOUTB the_task s;
     let sc = STATES_WAITFOR_SEMPH OR STATES_WAITFOR_CONDV;
     if flags s the_task AND sc \<noteq> 0 then do {
       l \<leftarrow> (if one_n_model s then Some (SemLock 0) else wait_lock (waitingObject (tcbs s the_task)));
       s \<leftarrow> spin_lock l s;
       s \<leftarrow> (if one_n_model s \<or> flags s the_task AND sc \<noteq> 0 then do {
               let s = clear_flags sc the_task s;
               s \<leftarrow> on_mem (node_remove (Tcb the_task)) s;
               localReadyQProtectedInsertBefore (scheduler (tcbs s the_task)) the_task s
             } else Some s);
       Some (spin_unlock l s)
     }
     else if flags s the_task AND STATES_WAITFOR_EVENT \<noteq> 0 then do {
       s \<leftarrow> spin_lock (EventLock the_task) s;
       s \<leftarrow> (if one_n_model s \<or> flags s the_task AND STATES_WAITFOR_EVENT \<noteq> 0 then do {
               let s = clear_flags STATES_WAITFOR_EVENT the_task s;
               localReadyQProtectedInsertBefore (scheduler (tcbs s the_task)) the_task s
             } else Some s);
       Some (spin_unlock (EventLock the_task) s)
     }
     else if flags s the_task AND STATES_IN_USLEEP \<noteq> 0 then do {
       let s = clear_flags STATES_IN_USLEEP the_task s;
       localReadyQProtectedInsertBefore (scheduler (tcbs s the_task)) the_task s
     }
     else Some s
   }"

partial_function (option) watchdog_scan :: "chain_id ref \<Rightarrow> int \<Rightarrow> sys \<Rightarrow> sys option" where
  "watchdog_scan the_node gap s =
     (case chain_next Fld_link the_node (mem s) of
        None \<Rightarrow> None
      | Some the_nxt \<Rightarrow>
         if the_nxt = NULL then Some s
         else case as_task the_node of
           None \<Rightarrow> None
         | Some the_task \<Rightarrow>
            if delta_interval (tcbs s the_task) \<le> gap
            then Option.bind (watchdog_fire the_task s) (\<lambda>s. watchdog_scan the_nxt gap s)
            else Some (upd_tcb the_task (\<lambda>b. b\<lparr>delta_interval := delta_interval b - gap\<rparr>) s))"

definition fiber_watchdog_tickle :: "nat \<Rightarrow> int \<Rightarrow> sys \<Rightarrow> (int \<times> sys) option" where
  "fiber_watchdog_tickle the_scheduler gap s = do {
     d \<leftarrow> scheddata (tcbs s the_scheduler);
     s \<leftarrow> spin_lock (WadogLock d) s;
     s \<leftarrow> watchdog_scan (chain_first (WadogList d) (mem s)) gap s;
     Some (0, spin_unlock (WadogLock d) s)
   }"

definition fiber_usleep :: "nat \<Rightarrow> int \<Rightarrow> sys \<Rightarrow> (unit outcome \<times> sys) option" where
  "fiber_usleep th usec s = do {
     the_task \<leftarrow> current_task s th;
     let s = upd_tcb the_task (\<lambda>b. b\<lparr>delta_interval := usec\<rparr>) s;
     (_, s) \<leftarrow> fiber_watchdog_insert the_task s;
     (sw, s) \<leftarrow> fiber_setstate th the_task STATES_IN_USLEEP K_usleep s;
     Some (if sw then Switched else Returns (), s)
   }"

section \<open>Delta lists\<close>

text \<open>The same operations on lists of (task, delta), and what such a list means.\<close>

fun deadlines :: "int \<Rightarrow> (nat \<times> int) list \<Rightarrow> (nat \<times> int) list" where
  "deadlines b [] = []"
| "deadlines b ((t, x) # L) = (t, b + x) # deadlines (b + x) L"

fun delta_insert :: "nat \<Rightarrow> int \<Rightarrow> (nat \<times> int) list \<Rightarrow> (nat \<times> int) list" where
  "delta_insert t delta [] = [(t, delta)]"
| "delta_insert t delta ((a, x) # L) =
     (if delta = 0 then (t, delta) # (a, x) # L
      else if delta < x then (t, delta) # (a, x - delta) # L
      else (a, x) # delta_insert t (delta - x) L)"

fun delta_remove :: "nat \<Rightarrow> (nat \<times> int) list \<Rightarrow> (nat \<times> int) list" where
  "delta_remove t [] = []"
| "delta_remove t [(a, x)] = (if a = t then [] else [(a, x)])"
| "delta_remove t ((a, x) # (c, y) # L) =
     (if a = t then (c, y + x) # L else (a, x) # delta_remove t ((c, y) # L))"

fun delta_tick :: "int \<Rightarrow> (nat \<times> int) list \<Rightarrow> nat list \<times> (nat \<times> int) list" where
  "delta_tick gap [] = ([], [])"
| "delta_tick gap ((a, x) # L) =
     (if x \<le> gap then (a # fst (delta_tick gap L), snd (delta_tick gap L)) else ([], (a, x - gap) # L))"

text \<open>Insertion gives the new task its own deadline and leaves every other one as it was.\<close>

lemma delta_insert_deadlines:
  "\<exists>L1 L2. deadlines b L = L1 @ L2 \<and> deadlines b (delta_insert t delta L) = L1 @ (t, b + delta) # L2"
proof (induction t delta L arbitrary: b rule: delta_insert.induct)
  case (1 t delta)
  then show ?case by auto
next
  case (2 t delta a x L)
  show ?case
  proof (cases "delta = 0 \<or> delta < x")
    case True
    then show ?thesis by (intro exI[of _ "[]"] exI[of _ "deadlines b ((a, x) # L)"]) auto
  next
    case False
    then obtain L1 L2 where "deadlines (b + x) L = L1 @ L2"
      "deadlines (b + x) (delta_insert t (delta - x) L) = L1 @ (t, b + x + (delta - x)) # L2"
      using "2.IH"[of "b + x"] by auto
    with False show ?thesis by (intro exI[of _ "(a, b + x) # L1"] exI[of _ L2]) simp
  qed
qed

lemma delta_insert_nonneg:
  "\<lbrakk>\<forall>p \<in> set L. 0 \<le> snd p; 0 \<le> delta\<rbrakk> \<Longrightarrow> \<forall>p \<in> set (delta_insert t delta L). 0 \<le> snd p"
  by (induction t delta L rule: delta_insert.induct) auto

lemma deadlines_sorted:
  "\<forall>p \<in> set L. 0 \<le> snd p \<Longrightarrow> sorted (map snd (deadlines b L)) \<and> (\<forall>p \<in> set (deadlines b L). b \<le> snd p)"
proof (induction L arbitrary: b)
  case (Cons p L)
  obtain t x where p: "p = (t, x)" by (cases p)
  from Cons p have "sorted (map snd (deadlines (b + x) L))" "\<forall>q \<in> set (deadlines (b + x) L). b + x \<le> snd q"
    by auto
  with Cons.prems p show ?case by fastforce
qed simp

text \<open>Removal keeps the deadlines of all remaining tasks.\<close>

lemma delta_remove_deadlines:
  "distinct (map fst L) \<Longrightarrow> deadlines b (delta_remove t L) = filter (\<lambda>p. fst p \<noteq> t) (deadlines b L)"
proof (induction t L arbitrary: b rule: delta_remove.induct)
  case (3 t a x c y L)
  have names: "map fst (deadlines b' L') = map fst L'" for b' L'
    by (induction L' arbitrary: b') auto
  have "filter (\<lambda>p. fst p \<noteq> a) (deadlines b' L) = deadlines b' L" if "a \<notin> fst ` set L" for b'
    using that names[of b' L] by (intro filter_True) (metis image_eqI list.set_map)
  with 3 show ?case by (auto simp: algebra_simps)
qed auto

text \<open>
  Expiry: every task that is due is woken, and no task that stays gets a later deadline than the
  elapsed time leaves it.
\<close>

lemma delta_tick_due:
  assumes "\<forall>p \<in> set L. 0 \<le> snd p" and "(t, y) \<in> set (deadlines b L)" and "0 \<le> b" and "y \<le> gap"
  shows "t \<in> set (fst (delta_tick gap L))"
  using assms
proof (induction L arbitrary: b)
  case (Cons p L)
  obtain a x where p: "p = (a, x)" by (cases p)
  from Cons.prems p have "b + x \<le> y"
    using deadlines_sorted[of L "b + x"] by auto
  moreover have "0 \<le> b + x" using Cons.prems p by auto
  ultimately show ?case using Cons.IH[of "b + x"] Cons.prems p by auto
qed simp

lemma delta_tick_never_late:
  assumes "\<forall>p \<in> set L. 0 \<le> snd p" and "0 \<le> b" and "(t, y') \<in> set (deadlines 0 (snd (delta_tick gap L)))"
  shows "\<exists>y. (t, y) \<in> set (deadlines b L) \<and> y' \<le> y - gap"
  using assms
proof (induction L arbitrary: b)
  case (Cons p L)
  obtain a x where p: "p = (a, x)" by (cases p)
  show ?case
  proof (cases "x \<le> gap")
    case True
    have "0 \<le> b + x" using Cons.prems p by auto
    then have "\<exists>y. (t, y) \<in> set (deadlines (b + x) L) \<and> y' \<le> y - gap"
      using Cons.IH[of "b + x"] Cons.prems p True by auto
    with p show ?thesis by auto
  next
    case False
    have shift: "\<exists>y. (t, y) \<in> set (deadlines c M) \<and> y' = y - (c - c')"
      if "(t, y') \<in> set (deadlines c' M)" for c c' M
      using that
    proof (induction M arbitrary: c c')
      case (Cons q M)
      then show ?case by (cases q) (auto dest: Cons.IH[of _ "c + snd q"])
    qed simp
    from False Cons.prems p consider "t = a" "y' = x - gap" | "(t, y') \<in> set (deadlines (x - gap) L)"
      by auto
    then show ?thesis
    proof cases
      case 1
      with p \<open>0 \<le> b\<close> show ?thesis by (intro exI[of _ "b + x"]) auto
    next
      case 2
      from shift[OF 2, of "b + x"] \<open>0 \<le> b\<close> p show ?thesis by auto
    qed
  qed
qed simp

section \<open>The operations implement the delta list\<close>

definition timers :: "sys \<Rightarrow> nat list \<Rightarrow> (nat \<times> int) list" where
  "timers s L = map (\<lambda>t. (t, delta_interval (tcbs s t))) L"

lemma timers_simps [simp]:
  "timers s [] = []" "timers s (t # L) = (t, delta_interval (tcbs s t)) # timers s L"
  "timers s (L @ M) = timers s L @ timers s M"
  by (simp_all add: timers_def)

lemma timers_cong: "(\<And>t. t \<in> set L \<Longrightarrow> delta_interval (tcbs s t) = delta_interval (tcbs s' t)) \<Longrightarrow>
    timers s L = timers s' L"
  by (simp add: timers_def)

text \<open>\<open>retimed s s' A\<close>: the control blocks differ in the timers of the tasks in \<open>A\<close> only.\<close>

definition retimed :: "(nat \<Rightarrow> FibTCB) \<Rightarrow> (nat \<Rightarrow> FibTCB) \<Rightarrow> nat set \<Rightarrow> bool" where
  "retimed T T' A = ((\<forall>u. \<exists>x. T' u = (T u)\<lparr>delta_interval := x\<rparr>) \<and> (\<forall>u. u \<notin> A \<longrightarrow> T' u = T u))"

lemma delta_update_ex [simp]: "\<exists>x. b = b\<lparr>delta_interval := x\<rparr>"
  by (rule exI[of _ "delta_interval b"]) simp

lemma retimed_refl [simp]: "retimed T T A"
  by (simp add: retimed_def)

lemma retimed_upd: "a \<in> A \<Longrightarrow> retimed T (T(a := (T a)\<lparr>delta_interval := x\<rparr>)) A"
  by (auto simp: retimed_def)

lemma retimed_trans: "retimed T T' A \<Longrightarrow> retimed T' T'' A \<Longrightarrow> retimed T T'' A"
  unfolding retimed_def by (metis (no_types, lifting) FibTCB.update_convs(8) FibTCB.surjective)

lemma retimed_at:
  assumes "retimed T T' A"
  obtains x where "T' u = (T u)\<lparr>delta_interval := x\<rparr>"
  using assms unfolding retimed_def by blast

lemma retimed_swap:
  assumes "retimed (T(c := b)) T' A" "c \<in> A"
  shows "retimed T (T'(c := (T c)\<lparr>delta_interval := y\<rparr>)) A"
  unfolding retimed_def
proof (intro conjI allI impI)
  fix u
  have "\<exists>x. T' u = ((T(c := b)) u)\<lparr>delta_interval := x\<rparr>" using assms(1) by (simp add: retimed_def del: fun_upd_apply)
  then show "\<exists>x. (T'(c := (T c)\<lparr>delta_interval := y\<rparr>)) u = (T u)\<lparr>delta_interval := x\<rparr>"
    by (cases "u = c") auto
next
  fix u assume "u \<notin> A"
  then show "(T'(c := (T c)\<lparr>delta_interval := y\<rparr>)) u = T u" using assms by (auto simp: retimed_def)
qed

lemma retimed_off:
  assumes "retimed T0 T' A" "T0 = T(c := b)"
  shows "retimed T (T'(c := T c)) A"
  unfolding retimed_def
proof (intro conjI allI impI)
  fix u
  have "\<exists>x. T' u = (T0 u)\<lparr>delta_interval := x\<rparr>" using assms(1) by (simp add: retimed_def)
  then show "\<exists>x. (T'(c := T c)) u = (T u)\<lparr>delta_interval := x\<rparr>"
    using assms(2) by (cases "u = c") auto
next
  fix u assume "u \<notin> A"
  then show "(T'(c := T c)) u = T u" using assms by (auto simp: retimed_def)
qed

lemma retimedD:
  assumes "retimed T T' A"
  shows "state (T' u) = state (T u)" "scheddata (T' u) = scheddata (T u)" "scheduler (T' u) = scheduler (T u)"
    "waitingObject (T' u) = waitingObject (T u)" "group (T' u) = group (T u)" "yieldCode (T' u) = yieldCode (T u)"
    "pendingEvents (T' u) = pendingEvents (T u)" "waitingEvents (T' u) = waitingEvents (T u)"
    "seizedEvents (T' u) = seizedEvents (T u)" "waitingOptions (T' u) = waitingOptions (T u)"
    "resume_at (T' u) = resume_at (T u)"
proof -
  obtain x where "T' u = (T u)\<lparr>delta_interval := x\<rparr>" using assms by (auto simp: retimed_def)
  then show "state (T' u) = state (T u)" "scheddata (T' u) = scheddata (T u)" "scheduler (T' u) = scheduler (T u)"
    "waitingObject (T' u) = waitingObject (T u)" "group (T' u) = group (T u)" "yieldCode (T' u) = yieldCode (T u)"
    "pendingEvents (T' u) = pendingEvents (T u)" "waitingEvents (T' u) = waitingEvents (T u)"
    "seizedEvents (T' u) = seizedEvents (T u)" "waitingOptions (T' u) = waitingOptions (T u)"
    "resume_at (T' u) = resume_at (T u)"
    by simp_all
qed

lemma seek_spec:
  assumes "queues s Q" "Q (WadogList d) = Some (xs @ ys)" "distinct ys"
  shows "\<exists>ys1 ys2 delta' T. watchdog_seek (right_of (WadogList d) ys) delta s =
      Some (right_of (WadogList d) ys2, delta', s\<lparr>tcbs := T\<rparr>) \<and> ys = ys1 @ ys2 \<and>
      retimed (tcbs s) T (set ys2) \<and>
      delta_insert t delta (timers s ys) = timers s ys1 @ (t, delta') # timers (s\<lparr>tcbs := T\<rparr>) ys2"
  using assms
proof (induction ys arbitrary: xs delta)
  case Nil
  have "chain_next Fld_link (TailNode (WadogList d)) (mem s) = Some NULL"
    using linkq.next_end_law[where k = link_field and f = Fld_link, of "mem s" Q "WadogList d"] Nil
    by (simp add: queues_def)
  then show ?case
    by (subst watchdog_seek.simps) (auto intro!: exI[of _ "tcbs s"])
next
  case (Cons y ys)
  have nx: "chain_next Fld_link (Tcb y) (mem s) = Some (right_of (WadogList d) ys)"
    using linkq.next_law[where k = link_field and f = Fld_link, of "mem s" Q "WadogList d" xs y ys] Cons.prems
    by (simp add: queues_def)
  have nn: "right_of (WadogList d) ys \<noteq> NULL" by (simp add: right_of_def split: list.split)
  let ?x = "delta_interval (tcbs s y)"
  consider "delta = 0" | "delta \<noteq> 0" "delta < ?x" | "delta \<noteq> 0" "\<not> delta < ?x" by blast
  then show ?case
  proof cases
    case 1
    then show ?thesis
      by (subst watchdog_seek.simps)
        (rule exI[of _ "[]"], rule exI[of _ "y # ys"], rule exI[of _ delta], rule exI[of _ "tcbs s"], simp)
  next
    case 2
    let ?T = "(tcbs s)(y := (tcbs s y)\<lparr>delta_interval := ?x - delta\<rparr>)"
    have "timers (s\<lparr>tcbs := ?T\<rparr>) ys = timers s ys"
      using Cons.prems(3) by (intro timers_cong) auto
    with 2 nx nn show ?thesis
      by (subst watchdog_seek.simps)
        (rule exI[of _ "[]"], rule exI[of _ "y # ys"], rule exI[of _ delta], rule exI[of _ ?T],
          simp add: sys_defs retimed_upd)
  next
    case 3
    have "Q (WadogList d) = Some ((xs @ [y]) @ ys)" "distinct ys" using Cons.prems by simp_all
    from Cons.IH[OF Cons.prems(1) this, of "delta - ?x"] obtain ys1 ys2 delta' T where
      "watchdog_seek (right_of (WadogList d) ys) (delta - ?x) s =
         Some (right_of (WadogList d) ys2, delta', s\<lparr>tcbs := T\<rparr>)" "ys = ys1 @ ys2"
      "retimed (tcbs s) T (set ys2)"
      "delta_insert t (delta - ?x) (timers s ys) = timers s ys1 @ (t, delta') # timers (s\<lparr>tcbs := T\<rparr>) ys2"
      by blast
    with 3 nx nn show ?thesis
      by (subst watchdog_seek.simps)
        (rule exI[of _ "y # ys1"], rule exI[of _ ys2], rule exI[of _ delta'], rule exI[of _ T], simp)
  qed
qed

abbreviation link_free :: "(chain_id \<rightharpoonup> nat list) \<Rightarrow> nat \<Rightarrow> bool" where
  "link_free Q t \<equiv> off_chains link_field Fld_link Q t"

lemma link_insert_spec:
  assumes "queues s Q" "Q (WadogList d) = Some (xs @ ys)" "link_free Q t"
  shows "\<exists>m. chain_insert_before Fld_link (right_of (WadogList d) ys) (Tcb t) (mem s) = Some m \<and>
           chains link_field m (Q(WadogList d \<mapsto> xs @ t # ys))"
  using linkq.before_law[where k = link_field and f = Fld_link, of "mem s" Q "WadogList d" xs ys t] assms
  by (auto simp: queues_def off_chains_def)

lemma link_remove_spec:
  assumes "queues s Q" "Q (WadogList d) = Some (xs @ t # ys)"
  shows "\<exists>m. chain_remove Fld_link (Tcb t) (mem s) = Some m \<and>
           chains link_field m (Q(WadogList d \<mapsto> xs @ ys))"
  using linkq.remove_law[where k = link_field and f = Fld_link, of "mem s" Q "WadogList d" xs t ys] assms
  by (auto simp: queues_def)

lemma link_next_spec:
  assumes "queues s Q" "Q (WadogList d) = Some (xs @ t # ys)"
  shows "chain_next Fld_link (Tcb t) (mem s) = Some (right_of (WadogList d) ys)"
  using linkq.next_law[where k = link_field and f = Fld_link, of "mem s" Q "WadogList d" xs t ys] assms
  by (auto simp: queues_def)

lemma link_end_spec:
  assumes "queues s Q" "Q (WadogList d) = Some xs"
  shows "chain_next Fld_link (TailNode (WadogList d)) (mem s) = Some NULL"
  using linkq.next_end_law[where k = link_field and f = Fld_link, of "mem s" Q "WadogList d" xs] assms
  by (auto simp: queues_def)

lemma link_first_spec:
  assumes "queues s Q" "Q (WadogList d) = Some xs"
  shows "chain_first (WadogList d) (mem s) = right_of (WadogList d) xs"
  using linkq.first_law[where k = link_field and f = Fld_link, of "mem s" Q "WadogList d" xs] assms
  by (auto simp: queues_def)

lemma right_not_null [simp]: "right_of c ys \<noteq> NULL"
  by (simp add: right_of_def split: list.split)

text \<open>
  \<open>fiber_watchdog_insert\<close> performs \<open>delta_insert\<close> on the watchdog list of the task's
  scheduler, flags the task, and changes nothing else.
\<close>

lemma watchdog_insert_spec:
  assumes q: "queues s Q" and qt: "quiet s" and d: "scheddata (tcbs s t) = Some d"
    and L: "Q (WadogList d) = Some L" and free: "link_free Q t"
    and fl: "flags s t AND STATES_WAIT_TIMEOUTB = 0"
  shows "\<exists>s' L1 L2 T. fiber_watchdog_insert t s = Some (0, s') \<and> L = L1 @ L2 \<and>
     queues s' (Q(WadogList d \<mapsto> L1 @ t # L2)) \<and>
     timers s' (L1 @ t # L2) = delta_insert t (delta_interval (tcbs s t)) (timers s L) \<and>
     retimed (tcbs s) T (set (t # L)) \<and>
     tcbs s' = T(t := (T t)\<lparr>state := state (tcbs s t) OR STATES_WAIT_TIMEOUTB\<rparr>) \<and>
     current_task s' = current_task s \<and> scps s' = scps s \<and> mutexes s' = mutexes s \<and> sems s' = sems s \<and> frame s s'"
proof -
  let ?s = "s\<lparr>locks := (locks s)(WadogLock d := \<not> one_n_model s)\<rparr>"
  have q1: "queues ?s Q" using q by (simp add: queues_def)
  note dist = queues_distinct[OF q L]
  have tL: "t \<notin> set L" using off_chainsD[OF free L] by simp
  obtain L1 L2 x T where seek: "watchdog_seek (right_of (WadogList d) L) (delta_interval (tcbs s t)) ?s =
      Some (right_of (WadogList d) L2, x, ?s\<lparr>tcbs := T\<rparr>)" and LL: "L = L1 @ L2"
    and rt: "retimed (tcbs s) T (set L2)"
    and di: "delta_insert t (delta_interval (tcbs s t)) (timers s L) =
        timers s L1 @ (t, x) # timers (?s\<lparr>tcbs := T\<rparr>) L2"
    using seek_spec[OF q1, of d "[]" L "delta_interval (tcbs s t)" t] L dist
    by (auto simp: timers_def)
  obtain mm where ins: "chain_insert_before Fld_link (right_of (WadogList d) L2) (Tcb t) (mem s) = Some mm"
    and ch: "chains link_field mm (Q(WadogList d \<mapsto> L1 @ t # L2))"
    using link_insert_spec[OF q, of d L1 L2 t] L LL free by auto
  define T' where "T' = T(t := (T t)\<lparr>delta_interval := x\<rparr>)"
  have "T t = tcbs s t" using rt tL LL by (auto simp: retimed_def)
  then have "\<exists>s'. fiber_watchdog_insert t s = Some (0, s') \<and> mem s' = mm \<and>
    tcbs s' = T'(t := (T' t)\<lparr>state := state (tcbs s t) OR STATES_WAIT_TIMEOUTB\<rparr>) \<and>
    current_task s' = current_task s \<and> scps s' = scps s \<and> mutexes s' = mutexes s \<and> sems s' = sems s \<and> frame s s'"
    using d fl seek ins link_first_spec[OF q L] qt
    by (auto simp: fiber_watchdog_insert_def spin_simps sys_defs on_mem_def T'_def frame_def Let_def)
  then obtain s' where s': "fiber_watchdog_insert t s = Some (0, s')" "mem s' = mm"
    "tcbs s' = T'(t := (T' t)\<lparr>state := state (tcbs s t) OR STATES_WAIT_TIMEOUTB\<rparr>)"
    "current_task s' = current_task s" "scps s' = scps s" "mutexes s' = mutexes s" "sems s' = sems s" "frame s s'"
    by blast
  moreover have "retimed (tcbs s) T' (set (t # L))"
  proof (rule retimed_trans)
    show "retimed (tcbs s) T (set (t # L))" using rt LL by (auto simp: retimed_def)
    show "retimed T T' (set (t # L))" unfolding T'_def by (rule retimed_upd) simp
  qed
  moreover have "timers s' (L1 @ t # L2) = timers s L1 @ (t, x) # timers (?s\<lparr>tcbs := T\<rparr>) L2"
    using rt tL LL dist s'(3) by (auto simp: timers_def T'_def retimed_def)
  ultimately show ?thesis
    using di LL ch by (intro exI[of _ s'] exI[of _ L1] exI[of _ L2] exI[of _ T'])
      (simp add: queues_def)
qed

lemma delta_remove_at:
  "t \<notin> set xs \<Longrightarrow> delta_remove t (timers s xs @ (t, x) # M) =
     timers s xs @ (case M of [] \<Rightarrow> [] | (c, y) # M' \<Rightarrow> (c, y + x) # M')"
proof (induction xs)
  case Nil
  then show ?case by (cases M) auto
next
  case (Cons a xs)
  then show ?case by (cases xs) (auto split: list.split)
qed

lemma watchdog_remove_spec:
  assumes q: "queues s Q" and qt: "quiet s" and d: "scheddata (tcbs s t) = Some d"
    and L: "Q (WadogList d) = Some (xs @ t # ys)" and fl: "flags s t AND STATES_WAIT_TIMEOUTB \<noteq> 0"
  shows "\<exists>s' T. fiber_watchdog_remove t s = Some (0, s') \<and>
     queues s' (Q(WadogList d \<mapsto> xs @ ys)) \<and>
     timers s' (xs @ ys) = delta_remove t (timers s (xs @ t # ys)) \<and>
     retimed (tcbs s) T (set ys) \<and>
     tcbs s' = T(t := (tcbs s t)\<lparr>state := state (tcbs s t) AND NOT STATES_WAIT_TIMEOUTB\<rparr>) \<and>
     current_task s' = current_task s \<and> scps s' = scps s \<and> mutexes s' = mutexes s \<and> sems s' = sems s \<and> frame s s'"
proof -
  note dist = queues_distinct[OF q L]
  obtain mm where rm: "chain_remove Fld_link (Tcb t) (mem s) = Some mm"
    and ch: "chains link_field mm (Q(WadogList d \<mapsto> xs @ ys))"
    using link_remove_spec[OF q L] by blast
  note nx = link_next_spec[OF q L]
  define T where "T = (case ys of [] \<Rightarrow> tcbs s
     | y # _ \<Rightarrow> (tcbs s)(y := (tcbs s y)\<lparr>delta_interval := delta_interval (tcbs s y) + delta_interval (tcbs s t)\<rparr>))"
  have "\<exists>s'. fiber_watchdog_remove t s = Some (0, s') \<and> mem s' = mm \<and>
     tcbs s' = T(t := (tcbs s t)\<lparr>state := state (tcbs s t) AND NOT STATES_WAIT_TIMEOUTB\<rparr>) \<and>
     current_task s' = current_task s \<and> scps s' = scps s \<and> mutexes s' = mutexes s \<and> sems s' = sems s \<and> frame s s'"
  proof (cases ys)
    case Nil
    then show ?thesis using d fl qt rm nx link_end_spec[OF q L]
      by (auto simp: fiber_watchdog_remove_def spin_simps sys_defs on_mem_def frame_def Let_def T_def)
  next
    case (Cons y zs)
    then have "Q (WadogList d) = Some ((xs @ [t]) @ y # zs)" using L by simp
    from link_next_spec[OF q this] Cons d fl qt rm nx dist show ?thesis
      by (auto simp: fiber_watchdog_remove_def spin_simps sys_defs on_mem_def frame_def Let_def T_def)
  qed
  then obtain s' where s': "fiber_watchdog_remove t s = Some (0, s')" "mem s' = mm"
    "tcbs s' = T(t := (tcbs s t)\<lparr>state := state (tcbs s t) AND NOT STATES_WAIT_TIMEOUTB\<rparr>)"
    "current_task s' = current_task s" "scps s' = scps s" "mutexes s' = mutexes s" "sems s' = sems s" "frame s s'"
    by blast
  moreover have "retimed (tcbs s) T (set ys)" by (auto simp: T_def retimed_upd split: list.split)
  moreover have "timers s' (xs @ ys) = delta_remove t (timers s (xs @ t # ys))"
    using dist s'(3) delta_remove_at[of t xs s "delta_interval (tcbs s t)" "timers s ys"]
    by (cases ys) (auto simp: timers_def T_def)
  ultimately show ?thesis using ch by (intro exI[of _ s'] exI[of _ T]) (simp add: queues_def)
qed

section \<open>Expiry\<close>

text \<open>A node taken off whatever queue it is on.\<close>

definition drop_node :: "nat \<Rightarrow> (chain_id \<rightharpoonup> nat list) \<Rightarrow> (chain_id \<rightharpoonup> nat list)" where
  "drop_node t Q = (\<lambda>c. if link_field c = Fld_node then map_option (remove1 t) (Q c) else Q c)"

lemma drop_node_free: "node_free Q t \<Longrightarrow> drop_node t Q = Q"
proof
  fix c assume "node_free Q t"
  then show "drop_node t Q c = Q c"
    by (cases "Q c") (auto simp: drop_node_def off_chains_def remove1_idem)
qed

lemma drop_node_on:
  assumes "queues s Q" "link_field w = Fld_node" "Q w = Some (xs @ t # ys)"
  shows "drop_node t Q = Q(w \<mapsto> xs @ ys)"
proof
  fix c
  note dist = queues_distinct[OF assms(1,3)]
  have "remove1 t zs = zs" if "Q c = Some zs" "c \<noteq> w" "link_field c = Fld_node" for zs
    using queues_disjoint[OF assms(1) that(1) assms(3), of t] assms that
    by (intro remove1_idem) auto
  then show "drop_node t Q c = (Q(w \<mapsto> xs @ ys)) c"
    using assms(2,3) distinct_remove_mid[OF dist] by (cases "Q c") (auto simp: drop_node_def)
qed

lemma fold_drop_apply:
  "fold drop_node F Q c = (if link_field c = Fld_node then map_option (fold remove1 F) (Q c) else Q c)"
  by (induction F arbitrary: Q) (auto simp: drop_node_def option.map_comp o_def option.map_id)

text \<open>The flags of a task that the watchdog wakes.\<close>

definition wake_flags :: "32 word \<Rightarrow> 32 word" where
  "wake_flags x =
     (let sc = STATES_WAITFOR_SEMPH OR STATES_WAITFOR_CONDV; y = x AND NOT STATES_WAIT_TIMEOUTB in
      if x AND sc \<noteq> 0 then y AND NOT sc
      else if x AND STATES_WAITFOR_EVENT \<noteq> 0 then y AND NOT STATES_WAITFOR_EVENT
      else y AND NOT STATES_IN_USLEEP)"

text \<open>
  What a task on the watchdog list of scheduler task \<open>b\<close> looks like: it waits for a semaphore
  or condition variable, named in \<open>waitingObject\<close>, and is on one of the wait queues; or it waits
  for events or sleeps and is on no queue.
\<close>

definition timed_ok :: "sys \<Rightarrow> (chain_id \<rightharpoonup> nat list) \<Rightarrow> nat \<Rightarrow> nat \<Rightarrow> nat \<Rightarrow> bool" where
  "timed_ok s Q d b t =
     (scheduler (tcbs s t) = Some b \<and>
      (if flags s t AND (STATES_WAITFOR_SEMPH OR STATES_WAITFOR_CONDV) \<noteq> 0
       then wait_lock (waitingObject (tcbs s t)) \<noteq> None \<and>
            (\<exists>c L. link_field c = Fld_node \<and> c \<noteq> ReadyList d \<and> Q c = Some L \<and> t \<in> set L)
       else flags s t AND (STATES_WAITFOR_EVENT OR STATES_IN_USLEEP) \<noteq> 0 \<and> node_free Q t))"

lemma clear_timeout_flag:
  "(x AND NOT STATES_WAIT_TIMEOUTB) AND (STATES_WAITFOR_SEMPH OR STATES_WAITFOR_CONDV) =
     x AND (STATES_WAITFOR_SEMPH OR STATES_WAITFOR_CONDV)"
  "(x AND NOT STATES_WAIT_TIMEOUTB) AND STATES_WAITFOR_EVENT = x AND STATES_WAITFOR_EVENT"
  "(x AND NOT STATES_WAIT_TIMEOUTB) AND STATES_IN_USLEEP = x AND STATES_IN_USLEEP"
  by (simp_all add: bit_masks and.assoc)

lemma wait_lock_not_wadog: "wait_lock x = Some l \<Longrightarrow> l \<noteq> WadogLock d"
  by (cases x) auto

lemma retimed_mono: "retimed T T' A \<Longrightarrow> A \<subseteq> B \<Longrightarrow> retimed T T' B"
  by (auto simp: retimed_def)

text \<open>Waking one due task: it leaves the watchdog list and its wait queue and joins the ready list.\<close>

lemma watchdog_fire_spec:
  assumes q: "queues s Q" and lk: "\<And>l. l \<noteq> WadogLock d \<Longrightarrow> \<not> locks s l"
    and L: "Q (WadogList d) = Some (t # L)" and R: "Q (ReadyList d) = Some (us @ [b])"
    and ok: "timed_ok s Q d b t"
  shows "\<exists>s'. watchdog_fire t s = Some s' \<and>
     queues s' ((drop_node t Q)(WadogList d \<mapsto> L, ReadyList d \<mapsto> us @ [t, b])) \<and>
     tcbs s' = (tcbs s)(t := (tcbs s t)\<lparr>state := wake_flags (state (tcbs s t))\<rparr>) \<and>
     current_task s' = current_task s \<and> scps s' = scps s \<and> mutexes s' = mutexes s \<and> sems s' = sems s \<and> frame s s'"
proof -
  let ?sc = "STATES_WAITFOR_SEMPH OR STATES_WAITFOR_CONDV"
  have sch: "scheduler (tcbs s t) = Some b" using ok by (simp add: timed_ok_def)
  obtain m1 where m1: "chain_remove Fld_link (Tcb t) (mem s) = Some m1"
    "chains link_field m1 (Q(WadogList d \<mapsto> L))"
    using link_remove_spec[OF q, of d "[]" t L] L by auto
  let ?Q1 = "Q(WadogList d \<mapsto> L)"
  show ?thesis
  proof (cases "flags s t AND ?sc \<noteq> 0")
    case True
    with ok obtain l w ws where w: "link_field w = Fld_node" "w \<noteq> ReadyList d" "Q w = Some ws" "t \<in> set ws"
      and l: "wait_lock (waitingObject (tcbs s t)) = Some l"
      by (auto simp: timed_ok_def)
    obtain xs ys where ws: "ws = xs @ t # ys" using w(4) by (rule split_at_mem)
    have w1: "?Q1 w = Some (xs @ t # ys)" "?Q1 (ReadyList d) = Some (us @ [b])" "w \<noteq> WadogList d"
      using w ws R by auto
    obtain m2 m3 where m23: "node_remove (Tcb t) m1 = Some m2" "node_insert_before (Tcb b) (Tcb t) m2 = Some m3"
      "chains link_field m3 (?Q1(w \<mapsto> xs @ ys, ReadyList d \<mapsto> us @ [t, b]))"
      using linkq.move_before[where k = link_field and f = Fld_node, of m1 ?Q1 w "ReadyList d" xs t ys us "[b]"]
        m1 w w1 by (auto simp: node_remove_def node_insert_before_def)
    have Qeq: "?Q1(w \<mapsto> xs @ ys, ReadyList d \<mapsto> us @ [t, b]) =
        (drop_node t Q)(WadogList d \<mapsto> L, ReadyList d \<mapsto> us @ [t, b])"
      using drop_node_on[OF q w(1), of xs t ys] w ws w1(3) by (auto simp: fun_upd_twist)
    obtain l' where l': "(if one_n_model s then Some (SemLock 0) else wait_lock (waitingObject (tcbs s t))) = Some l'"
      "l' \<noteq> WadogLock d"
      using l wait_lock_not_wadog[OF l] by (cases "one_n_model s") auto
    show ?thesis
      using True m1 m23 sch l' lk[OF l'(2)]
      by (auto simp: watchdog_fire_def spin_simps sys_defs on_mem_def frame_def Let_def clear_timeout_flag
          wake_flags_def localReadyQProtectedInsertBefore_def queues_def Qeq[symmetric])
  next
    case False
    then have free: "node_free Q t" and fl: "flags s t AND STATES_WAITFOR_EVENT \<noteq> 0 \<or> flags s t AND STATES_IN_USLEEP \<noteq> 0"
      using ok by (auto simp: timed_ok_def bit.conj_disj_distrib)
    have "node_free ?Q1 t" using free by (auto simp: off_chains_def)
    then obtain m2 where m2: "node_insert_before (Tcb b) (Tcb t) m1 = Some m2"
      "chains link_field m2 (?Q1(ReadyList d \<mapsto> us @ [t, b]))"
      using insert_before_spec[of "s\<lparr>mem := m1\<rparr>" ?Q1 "ReadyList d" us b "[]" t] m1 R
      by (auto simp: localReadyQProtectedInsertBefore_def on_mem_def)
    show ?thesis
      using False fl m1 m2 sch lk[of "EventLock t"]
      by (auto simp: watchdog_fire_def spin_simps sys_defs on_mem_def frame_def Let_def clear_timeout_flag
          wake_flags_def localReadyQProtectedInsertBefore_def queues_def drop_node_free[OF free])
  qed
qed

definition woken :: "nat list \<Rightarrow> (nat \<Rightarrow> FibTCB) \<Rightarrow> (nat \<Rightarrow> FibTCB)" where
  "woken F T = (\<lambda>u. if u \<in> set F then (T u)\<lparr>state := wake_flags (state (T u))\<rparr> else T u)"

lemma fold_drop_upd:
  "(fold drop_node F (Q(a \<mapsto> x, b \<mapsto> y)))(a \<mapsto> u, b \<mapsto> v) = (fold drop_node F Q)(a \<mapsto> u, b \<mapsto> v)"
  by (rule ext) (simp add: fold_drop_apply)

lemma node_free_update: "node_free Q u \<Longrightarrow> link_field c = Fld_node \<longrightarrow> u \<notin> set xs \<Longrightarrow> node_free (Q(c \<mapsto> xs)) u"
  by (auto simp: off_chains_def)

lemma node_free_drop: "node_free Q u \<Longrightarrow> node_free (drop_node t Q) u"
  using set_remove1_subset[of t] by (force simp: off_chains_def drop_node_def)

lemma delta_tick_prefix: "take (length (fst (delta_tick gap (timers s L)))) L = fst (delta_tick gap (timers s L))"
  by (induction L) simp_all

lemma delta_tick_names: "set (fst (delta_tick gap P)) \<subseteq> fst ` set P"
  by (induction gap P rule: delta_tick.induct) auto

lemma timed_ok_after_fire:
  assumes "timed_ok s Q d b u" "u \<noteq> t" "Q (ReadyList d) = Some (us @ [b])"
    and "tcbs s' = (tcbs s)(t := x)"
  shows "timed_ok s' ((drop_node t Q)(WadogList d \<mapsto> L, ReadyList d \<mapsto> us @ [t, b])) d b u"
proof (cases "flags s u AND (STATES_WAITFOR_SEMPH OR STATES_WAITFOR_CONDV) \<noteq> 0")
  case True
  let ?Q = "(drop_node t Q)(WadogList d \<mapsto> L, ReadyList d \<mapsto> us @ [t, b])"
  from True obtain c M where c: "link_field c = Fld_node" "c \<noteq> ReadyList d" "Q c = Some M" "u \<in> set M"
    using assms(1) by (auto simp: timed_ok_def)
  then have "?Q c = Some (remove1 t M)" by (auto simp: drop_node_def)
  moreover have "u \<in> set (remove1 t M)" using c(4) assms(2) by (simp add: in_set_remove1)
  ultimately have "\<exists>c M. link_field c = Fld_node \<and> c \<noteq> ReadyList d \<and> ?Q c = Some M \<and> u \<in> set M"
    using c(1,2) by blast
  moreover have "tcbs s' u = tcbs s u" using assms(2,4) by simp
  ultimately show ?thesis using True assms(1) unfolding timed_ok_def flags_def by presburger
next
  case False
  then have "node_free Q u" using assms(1) by (auto simp: timed_ok_def)
  moreover from this have "u \<notin> set (us @ [b])"
    using assms(3) off_chainsD[of link_field Fld_node Q u "ReadyList d"] by auto
  ultimately have "node_free ((drop_node t Q)(WadogList d \<mapsto> L, ReadyList d \<mapsto> us @ [t, b])) u"
    using assms(2) by (intro node_free_update node_free_drop) auto
  with False assms show ?thesis unfolding timed_ok_def by (simp add: flags_def)
qed

lemma watchdog_scan_spec:
  assumes "queues s Q" and "\<And>l. l \<noteq> WadogLock d \<Longrightarrow> \<not> locks s l"
    and "Q (WadogList d) = Some L" and "Q (ReadyList d) = Some (us @ [b])"
    and "\<forall>t \<in> set L. timed_ok s Q d b t"
    and "F = fst (delta_tick gap (timers s L))" and "M = drop (length F) L"
  shows "\<exists>s'. watchdog_scan (right_of (WadogList d) L) gap s = Some s' \<and>
     queues s' ((fold drop_node F Q)(WadogList d \<mapsto> M, ReadyList d \<mapsto> us @ F @ [b])) \<and>
     timers s' M = snd (delta_tick gap (timers s L)) \<and> retimed (woken F (tcbs s)) (tcbs s') (set M) \<and>
     current_task s' = current_task s \<and> scps s' = scps s \<and> mutexes s' = mutexes s \<and> sems s' = sems s \<and> frame s s'"
  using assms
proof (induction L arbitrary: s Q us F M)
  case Nil
  then show ?case using link_end_spec[OF Nil(1,3)]
    by (subst watchdog_scan.simps) (auto simp: woken_def map_upd_triv fold_drop_apply)
next
  case (Cons t L)
  note q = Cons.prems(1) and lk = Cons.prems(2) and L = Cons.prems(3) and R = Cons.prems(4)
  note dist = queues_distinct[OF q L]
  have nx: "chain_next Fld_link (Tcb t) (mem s) = Some (right_of (WadogList d) L)"
    using link_next_spec[OF q, of d "[]" t L] L by simp
  show ?case
  proof (cases "delta_interval (tcbs s t) \<le> gap")
    case False
    let ?s = "upd_tcb t (\<lambda>b. b\<lparr>delta_interval := delta_interval b - gap\<rparr>) s"
    have "timers ?s L = timers s L" using dist by (intro timers_cong) (auto simp: sys_defs)
    then show ?thesis using False Cons.prems nx
      by (subst watchdog_scan.simps)
        (auto simp: sys_defs queues_def map_upd_triv woken_def retimed_upd frame_def)
  next
    case True
    have okt: "timed_ok s Q d b t" using Cons.prems(5) by simp
    obtain s1 where s1: "watchdog_fire t s = Some s1"
      "queues s1 ((drop_node t Q)(WadogList d \<mapsto> L, ReadyList d \<mapsto> us @ [t, b]))"
      "tcbs s1 = (tcbs s)(t := (tcbs s t)\<lparr>state := wake_flags (state (tcbs s t))\<rparr>)"
      "current_task s1 = current_task s" "scps s1 = scps s" "mutexes s1 = mutexes s" "sems s1 = sems s" "frame s s1"
      using watchdog_fire_spec[OF q lk L R okt] by blast
    let ?Q1 = "(drop_node t Q)(WadogList d \<mapsto> L, ReadyList d \<mapsto> us @ [t, b])"
    have tm: "timers s1 L = timers s L" using dist s1(3) by (intro timers_cong) auto
    have ok1: "\<forall>u \<in> set L. timed_ok s1 ?Q1 d b u"
      using Cons.prems(5) dist timed_ok_after_fire[where s = s and s' = s1 and t = t and Q = Q and d = d and us = us, OF _ _ R s1(3)] by auto
    have lk1: "\<And>l. l \<noteq> WadogLock d \<Longrightarrow> \<not> locks s1 l" using lk s1(8) by (simp add: frame_def)
    define F1 where "F1 = fst (delta_tick gap (timers s1 L))"
    have F: "F = t # F1" "M = drop (length F1) L" using Cons.prems(6,7) True tm by (auto simp: F1_def)
    obtain s2 where s2: "watchdog_scan (right_of (WadogList d) L) gap s1 = Some s2"
      "queues s2 ((fold drop_node F1 ?Q1)(WadogList d \<mapsto> M, ReadyList d \<mapsto> (us @ [t]) @ F1 @ [b]))"
      "timers s2 M = snd (delta_tick gap (timers s1 L))" "retimed (woken F1 (tcbs s1)) (tcbs s2) (set M)"
      "current_task s2 = current_task s1" "scps s2 = scps s1" "mutexes s2 = mutexes s1" "sems s2 = sems s1" "frame s1 s2"
    proof -
      have "?Q1 (WadogList d) = Some L" "?Q1 (ReadyList d) = Some ((us @ [t]) @ [b])" by simp_all
      from Cons.IH[OF s1(2) lk1 this ok1 F1_def F(2)] show ?thesis using that by blast
    qed
    have "set F1 \<subseteq> set L"
      using delta_tick_names[of gap "timers s1 L"] unfolding F1_def by (auto simp: timers_def)
    then have "woken F1 (tcbs s1) = woken F (tcbs s)"
      using dist s1(3) F by (auto simp: woken_def fun_eq_iff)
    moreover have "(fold drop_node F1 ?Q1)(WadogList d \<mapsto> M, ReadyList d \<mapsto> us @ F @ [b]) =
        (fold drop_node F Q)(WadogList d \<mapsto> M, ReadyList d \<mapsto> us @ F @ [b])"
      using F by (simp only: fold_drop_upd) simp
    ultimately show ?thesis
      using True nx s1 s2 F tm frame_trans[OF s1(8) s2(9)]
      by (subst watchdog_scan.simps) (auto simp del: fun_upd_apply)
  qed
qed

lemma watchdog_tickle_spec:
  assumes q: "queues s Q" and qt: "quiet s" and d: "scheddata (tcbs s b) = Some d"
    and L: "Q (WadogList d) = Some L" and R: "Q (ReadyList d) = Some (us @ [b])"
    and ok: "\<forall>t \<in> set L. timed_ok s Q d b t"
    and F: "F = fst (delta_tick gap (timers s L))" and M: "M = drop (length F) L"
  shows "\<exists>s'. fiber_watchdog_tickle b gap s = Some (0, s') \<and>
     queues s' ((fold drop_node F Q)(WadogList d \<mapsto> M, ReadyList d \<mapsto> us @ F @ [b])) \<and>
     timers s' M = snd (delta_tick gap (timers s L)) \<and> retimed (woken F (tcbs s)) (tcbs s') (set M) \<and>
     current_task s' = current_task s \<and> scps s' = scps s \<and> mutexes s' = mutexes s \<and> sems s' = sems s \<and> frame s s'"
proof -
  let ?s = "s\<lparr>locks := (locks s)(WadogLock d := \<not> one_n_model s)\<rparr>"
  have "queues ?s Q" "\<And>l. l \<noteq> WadogLock d \<Longrightarrow> \<not> locks ?s l" "\<forall>t \<in> set L. timed_ok ?s Q d b t"
    "timers ?s L = timers s L"
    using q qt ok by (auto simp: queues_def timed_ok_def flags_def timers_def)
  from watchdog_scan_spec[OF this(1,2) L R this(3), of F gap M] obtain s1 where s1:
    "watchdog_scan (right_of (WadogList d) L) gap ?s = Some s1"
    "queues s1 ((fold drop_node F Q)(WadogList d \<mapsto> M, ReadyList d \<mapsto> us @ F @ [b]))"
    "timers s1 M = snd (delta_tick gap (timers s L))" "retimed (woken F (tcbs s)) (tcbs s1) (set M)"
    "current_task s1 = current_task s" "scps s1 = scps s" "mutexes s1 = mutexes s" "sems s1 = sems s" "frame ?s s1"
    using F M \<open>timers ?s L = timers s L\<close> by auto
  have "fiber_watchdog_tickle b gap s = Some (0, spin_unlock (WadogLock d) s1)"
    using d qt link_first_spec[OF q L] s1(1) by (simp add: fiber_watchdog_tickle_def spin_lock_free)
  moreover have "frame s (spin_unlock (WadogLock d) s1)"
    using s1(9) qt by (auto simp: frame_def spin_unlock_eq fun_eq_iff)
  ultimately show ?thesis
    using s1 by (auto simp: spin_unlock_eq queues_def timers_def)
qed

text \<open>Arming and cancelling, read as deadlines.\<close>

lemma watchdog_insert_keeps_deadlines:
  assumes "queues s Q" "quiet s" "scheddata (tcbs s t) = Some d" "Q (WadogList d) = Some L" "link_free Q t"
    and "flags s t AND STATES_WAIT_TIMEOUTB = 0" "\<forall>p \<in> set (timers s L). 0 \<le> snd p" "0 \<le> delta_interval (tcbs s t)"
  shows "\<exists>s' L1 L2 D1 D2. fiber_watchdog_insert t s = Some (0, s') \<and> L = L1 @ L2 \<and>
     queues s' (Q(WadogList d \<mapsto> L1 @ t # L2)) \<and> deadlines 0 (timers s L) = D1 @ D2 \<and>
     deadlines 0 (timers s' (L1 @ t # L2)) = D1 @ (t, delta_interval (tcbs s t)) # D2 \<and>
     sorted (map snd (deadlines 0 (timers s' (L1 @ t # L2)))) \<and> flags s' t AND STATES_WAIT_TIMEOUTB \<noteq> 0"
proof -
  obtain s' L1 L2 T where s': "fiber_watchdog_insert t s = Some (0, s')" "L = L1 @ L2"
    "queues s' (Q(WadogList d \<mapsto> L1 @ t # L2))"
    "timers s' (L1 @ t # L2) = delta_insert t (delta_interval (tcbs s t)) (timers s L)"
    "tcbs s' = T(t := (T t)\<lparr>state := state (tcbs s t) OR STATES_WAIT_TIMEOUTB\<rparr>)"
    using watchdog_insert_spec[OF assms(1-6)] by blast
  obtain D1 D2 where D: "deadlines 0 (timers s L) = D1 @ D2"
    "deadlines 0 (timers s' (L1 @ t # L2)) = D1 @ (t, delta_interval (tcbs s t)) # D2"
    using delta_insert_deadlines[of 0 "timers s L" t "delta_interval (tcbs s t)"] s'(4) by auto
  have "sorted (map snd (deadlines 0 (timers s' (L1 @ t # L2))))"
    using deadlines_sorted[OF delta_insert_nonneg[OF assms(7,8)]] s'(4) by simp
  moreover have "(x OR STATES_WAIT_TIMEOUTB) AND STATES_WAIT_TIMEOUTB = STATES_WAIT_TIMEOUTB" for x
    by (rule bit_eqI) (auto simp: bit_simps)
  then have "flags s' t AND STATES_WAIT_TIMEOUTB \<noteq> 0" using s'(5) by (simp add: flags_def) (simp add: bit_masks)
  ultimately show ?thesis using s'(1-3) D by blast
qed

lemma watchdog_remove_keeps_deadlines:
  assumes "queues s Q" "quiet s" "scheddata (tcbs s t) = Some d" "Q (WadogList d) = Some L" "t \<in> set L"
    and "flags s t AND STATES_WAIT_TIMEOUTB \<noteq> 0"
  shows "\<exists>s'. fiber_watchdog_remove t s = Some (0, s') \<and> queues s' (Q(WadogList d \<mapsto> remove1 t L)) \<and>
     deadlines 0 (timers s' (remove1 t L)) = filter (\<lambda>p. fst p \<noteq> t) (deadlines 0 (timers s L))"
proof -
  obtain xs ys where L: "L = xs @ t # ys" using assms(5) by (auto simp: in_set_conv_decomp)
  have d: "distinct L" using queues_distinct[OF assms(1,4)] .
  then have r: "remove1 t L = xs @ ys" using L distinct_remove_mid by metis
  have f: "map fst (timers s L) = L" by (simp add: timers_def comp_def)
  have e: "deadlines 0 (delta_remove t (timers s L)) = filter (\<lambda>p. fst p \<noteq> t) (deadlines 0 (timers s L))"
    using delta_remove_deadlines[of "timers s L" 0 t] d f by simp
  obtain s' T where s': "fiber_watchdog_remove t s = Some (0, s')" "queues s' (Q(WadogList d \<mapsto> xs @ ys))"
    "timers s' (xs @ ys) = delta_remove t (timers s L)"
    using watchdog_remove_spec[OF assms(1-3) _ assms(6)] assms(4) unfolding L by blast
  show ?thesis unfolding r by (rule exI[of _ s']) (simp only: s' e simp_thms)
qed

end
