(* ===== verification/Wakeup.thy ===== *)
theory Wakeup
  imports Watchdog
begin

text \<open>
  The code that mutexes, semaphores, condition variables and events share: parking the running
  task on a wait queue, taking a task off the watchdog list, and making a task ready again, on its
  own thread's ready list or, when it belongs to another thread, on a global ready list.
\<close>

section \<open>Shared fragments\<close>

text \<open>\<open>FAS\<close> and \<open>FAA\<close> on the task counter of the scheduler a task belongs to.\<close>

definition dec_local_tasks :: "nat \<Rightarrow> sys \<Rightarrow> sys option" where
  "dec_local_tasks t s = do {
     d \<leftarrow> scheddata (tcbs s t);
     Some (upd_scp d (\<lambda>x. x\<lparr>nLocalFibTasks := nLocalFibTasks x - 1\<rparr>) s)
   }"

definition inc_local_tasks :: "nat \<Rightarrow> sys \<Rightarrow> sys option" where
  "inc_local_tasks t s = do {
     d \<leftarrow> scheddata (tcbs s t);
     Some (upd_scp d (\<lambda>x. x\<lparr>nLocalFibTasks := nLocalFibTasks x + 1\<rparr>) s)
   }"

text \<open>
  The two-way branch at the end of every wake-up (with \<open>ACTIVATE_TASKS_GLOBAL_READYLIST\<close>): a
  task of the same scheduler goes in front of that scheduler, any other one to its global list.
\<close>

definition activate :: "nat option \<Rightarrow> bool \<Rightarrow> nat \<Rightarrow> sys \<Rightarrow> sys option" where
  "activate anchor same the_task s =
     (if one_n_model s \<or> same then localReadyQProtectedInsertBefore anchor the_task s
      else do {
        s \<leftarrow> dec_local_tasks the_task s;
        pushIntoGlobalReadyList the_task s
      })"

text \<open>
  \<^verbatim>\<open>while (state & STATES_TRANSIENT) cpu_relax();\<close> as part of one step: nobody else can clear
  the flag, so a set flag is a fault.  The loop is compiled out under \<open>__1_N_MODEL__\<close>.
\<close>

definition await_settled :: "nat \<Rightarrow> sys \<Rightarrow> sys option" where
  "await_settled the_task s =
     (if \<not> one_n_model s \<and> flags s the_task AND STATES_TRANSIENT \<noteq> 0 then None else Some s)"

definition leave_watchdog :: "nat \<Rightarrow> sys \<Rightarrow> sys option" where
  "leave_watchdog the_task s =
     (if flags s the_task AND STATES_WAIT_TIMEOUTB \<noteq> 0
      then map_option snd (fiber_watchdog_remove the_task s) else Some s)"

text \<open>
  The common tail of the wake-ups, for a waiter already taken off its wait queue: let its timed wait
  settle, take it off the watchdog list and activate it, with \<open>my_sched\<close> the scheduler of the
  waking task.
\<close>

definition make_ready :: "nat option \<Rightarrow> nat \<Rightarrow> sys \<Rightarrow> sys option" where
  "make_ready my_sched the_first s = do {
     s \<leftarrow> await_settled the_first s;
     s \<leftarrow> leave_watchdog the_first s;
     activate my_sched (scheduler (tcbs s the_first) = my_sched) the_first s
   }"

text \<open>
  The part of the timed waits that enters the watchdog list, with \<open>STATES_TRANSIENT\<close> set from
  before the wait queue is released until the task is on that list.
\<close>

definition wait_flags :: "int \<Rightarrow> 32 word \<Rightarrow> 32 word" where
  "wait_flags timeout x = (if timeout > 0 then STATES_TRANSIENT else 0) OR x"

definition arm_timeout :: "nat \<Rightarrow> int \<Rightarrow> sys \<Rightarrow> sys option" where
  "arm_timeout the_task timeout s =
     (if timeout > 0 then do {
        let s = upd_tcb the_task (\<lambda>b. b\<lparr>delta_interval := timeout\<rparr>) s;
        (_, s) \<leftarrow> fiber_watchdog_insert the_task s;
        Some (clear_flags STATES_TRANSIENT the_task s)
      } else Some s)"

section \<open>Parking the running task\<close>

lemma park_spec:
  assumes r: "running s Q th d m us c" and ne: "c \<noteq> m"
    and w: "link_field w = Fld_node" "w \<noteq> ReadyList d" "Q w = Some ws"
  obtains m1 m2 where "node_remove (Tcb c) (mem s) = Some m1" "node_append w (Tcb c) m1 = Some m2"
    "chains link_field m2 (Q(ReadyList d \<mapsto> butlast us @ [m], w \<mapsto> ws @ [c]))"
    "c \<notin> set (butlast us @ [m])"
proof -
  have us: "us = butlast us @ [c]" using r ne by (auto simp: running_def)
  have ql: "Q (ReadyList d) = Some (butlast us @ c # [m])"
    using runningD(6)[OF r] us by (metis append.assoc append_Cons append_Nil)
  have q: "chains link_field (mem s) Q" using runningD(1)[OF r] by (simp add: queues_def)
  have "c \<notin> set (butlast us @ [m])" using chains_distinct[OF q ql] by auto
  then show ?thesis
    using that linkq.move_tail[where k = link_field and f = Fld_node, OF q _ w(1) _ ql w(3)] w(2)
    by (auto simp: node_remove_def node_append_def)
qed

text \<open>After parking, the next ready task runs; \<open>s\<close> may differ from the state before in other fields.\<close>

lemma sched_parked:
  assumes "queues s (Q(ReadyList d \<mapsto> vs @ [m], w \<mapsto> ws))" "w \<noteq> ReadyList d"
    and "the_maintask s th = Some m" "scheddata (tcbs s m) = Some d" "current_task s th = Some c"
    and "c \<notin> set (vs @ [m])"
  shows "\<exists>s'. fiber_sched th k s = Some (True, s') \<and>
     queues s' (Q(w \<mapsto> ws, ReadyList d \<mapsto> rotate1 vs @ [m])) \<and>
     current_task s' = (current_task s)(th := Some (next_up m vs)) \<and>
     tcbs s' = (tcbs s)(c := (tcbs s c)\<lparr>resume_at := k\<rparr>) \<and>
     scps s' = scps s \<and> mutexes s' = mutexes s \<and> sems s' = sems s \<and> frame s s'"
proof -
  have "on_thread s (Q(ReadyList d \<mapsto> vs @ [m], w \<mapsto> ws)) th d m vs"
    using assms by (auto simp: on_thread_def)
  from fiber_sched_away[OF assms(1) this assms(5,6), of k] show ?thesis
    using assms(2) by (simp add: fun_upd_twist)
qed

text \<open>The watchdog list of \<open>d\<close> after a task has been armed, and the flags of that task.\<close>

definition armed :: "sys \<Rightarrow> sys \<Rightarrow> int \<Rightarrow> nat \<Rightarrow> nat list \<Rightarrow> nat list \<Rightarrow> bool" where
  "armed s s' timeout t L L' =
     (if timeout > 0 then timers s' L' = delta_insert t timeout (timers s L) else L' = L \<and> timers s' L = timers s L)"

definition armed_flags :: "int \<Rightarrow> 32 word \<Rightarrow> 32 word" where
  "armed_flags timeout x = (if timeout > 0 then (x OR STATES_WAIT_TIMEOUTB) AND NOT STATES_TRANSIENT else x)"

lemma armed_wait_flags:
  assumes "x AND STATES_TRANSIENT = 0" "y AND STATES_TRANSIENT = 0"
  shows "armed_flags timeout (x OR wait_flags timeout y) =
    x OR y OR (if timeout > 0 then STATES_WAIT_TIMEOUTB else 0)"
proof (rule bit_word_eqI)
  fix n assume n: "n < LENGTH(32)"
  have b8: "0 < n" if "bit (8 :: 32 word) n" using that by (cases n) simp_all
  have "\<not> bit (x AND STATES_TRANSIENT) n" "\<not> bit (y AND STATES_TRANSIENT) n"
    using assms by simp_all
  then show "bit (armed_flags timeout (x OR wait_flags timeout y)) n =
      bit (x OR y OR (if timeout > 0 then STATES_WAIT_TIMEOUTB else 0)) n"
    using n b8 by (auto simp: armed_flags_def wait_flags_def bit_simps bit_masks)
qed

lemma arm_timeout_spec:
  assumes q: "queues s Q" "quiet s" and d: "scheddata (tcbs s t) = Some d" and L: "Q (WadogList d) = Some L"
    and free: "timeout > 0 \<longrightarrow> link_free Q t \<and> flags s t AND STATES_WAIT_TIMEOUTB = 0"
  shows "\<exists>s' L' T. arm_timeout t timeout s = Some s' \<and> queues s' (Q(WadogList d \<mapsto> L')) \<and>
     armed s s' timeout t L L' \<and> retimed (tcbs s) T (set (t # L)) \<and>
     tcbs s' = T(t := (T t)\<lparr>state := armed_flags timeout (state (tcbs s t))\<rparr>) \<and>
     current_task s' = current_task s \<and> scps s' = scps s \<and> mutexes s' = mutexes s \<and> sems s' = sems s \<and> frame s s'"
proof (cases "timeout > 0")
  case False
  then show ?thesis using q(1) L
    by (intro exI[of _ s] exI[of _ L] exI[of _ "tcbs s"])
      (auto simp: arm_timeout_def armed_def armed_flags_def map_upd_triv)
next
  case True
  let ?s = "upd_tcb t (\<lambda>b. b\<lparr>delta_interval := timeout\<rparr>) s"
  have tL: "t \<notin> set L" using free True off_chainsD[where k = link_field and f = Fld_link and c = "WadogList d"] L by auto
  have "queues ?s Q" "quiet ?s" "scheddata (tcbs ?s t) = Some d" "flags ?s t AND STATES_WAIT_TIMEOUTB = 0"
    using q d free True by (auto simp: sys_defs quiet_def queues_def)
  from watchdog_insert_spec[OF this(1-3) L _ this(4)] free True
  obtain s1 L1 L2 T where s1: "fiber_watchdog_insert t ?s = Some (0, s1)"
    "queues s1 (Q(WadogList d \<mapsto> L1 @ t # L2))"
    "timers s1 (L1 @ t # L2) = delta_insert t (delta_interval (tcbs ?s t)) (timers ?s L)"
    "retimed (tcbs ?s) T (set (t # L))" "tcbs s1 = T(t := (T t)\<lparr>state := state (tcbs ?s t) OR STATES_WAIT_TIMEOUTB\<rparr>)"
    "current_task s1 = current_task ?s" "scps s1 = scps ?s" "mutexes s1 = mutexes ?s" "sems s1 = sems ?s" "frame ?s s1"
    by blast
  let ?s' = "clear_flags STATES_TRANSIENT t s1"
  have "timers ?s L = timers s L" using tL by (intro timers_cong) (auto simp: sys_defs)
  moreover have "timers ?s' (L1 @ t # L2) = timers s1 (L1 @ t # L2)"
    by (intro timers_cong) (auto simp: sys_defs)
  ultimately have "armed s ?s' timeout t L (L1 @ t # L2)"
    using s1(3) True by (simp add: armed_def sys_defs)
  moreover have "retimed (tcbs s) T (set (t # L))"
    using retimed_trans[OF _ s1(4), of "tcbs s"] retimed_upd[of t _ "tcbs s" timeout] by (simp add: sys_defs)
  ultimately show ?thesis using s1 True
    by (intro exI[of _ ?s'] exI[of _ "L1 @ t # L2"] exI[of _ T])
      (auto simp: arm_timeout_def armed_flags_def sys_defs queues_def frame_def)
qed

text \<open>
  The end of every timed wait: the parked task, whose block \<open>b\<close> carries the wait flags, arms its timeout
  and gives up the processor.
\<close>

lemma arm_and_switch:
  assumes q: "queues s R" "quiet s" and th: "on_thread s R th d m vs" "current_task s th = Some c" "c \<notin> set (vs @ [m])"
    and home: "scheddata b = Some d" and L: "R (WadogList d) = Some L"
    and b: "tcbs s = (tcbs s0)(c := b)" "delta_interval b = delta_interval (tcbs s0 c)"
      "state b = state (tcbs s0 c) OR wait_flags timeout w"
    and fl: "state (tcbs s0 c) AND STATES_TRANSIENT = 0" "w AND STATES_TRANSIENT = 0" "w AND STATES_WAIT_TIMEOUTB = 0"
    and free: "timeout > 0 \<longrightarrow> link_free R c \<and> flags s0 c AND STATES_WAIT_TIMEOUTB = 0"
  obtains s1 s' L' T where "arm_timeout c timeout s = Some s1" "fiber_sched th k s1 = Some (True, s')"
    "queues s' (R(WadogList d \<mapsto> L', ReadyList d \<mapsto> rotate1 vs @ [m]))"
    "armed s0 s' timeout c L L'" "retimed (tcbs s0) T (set (c # L))"
    "tcbs s' = T(c := b\<lparr>delta_interval := delta_interval (T c),
        state := state (tcbs s0 c) OR w OR (if timeout > 0 then STATES_WAIT_TIMEOUTB else 0), resume_at := k\<rparr>)"
    "current_task s' = (current_task s)(th := Some (next_up m vs))"
    "mutexes s' = mutexes s" "sems s' = sems s" "frame s s'"
proof -
  have pre: "scheddata (tcbs s c) = Some d" "timeout > 0 \<longrightarrow> link_free R c \<and> flags s c AND STATES_WAIT_TIMEOUTB = 0"
    using home b free fl by (auto simp: flags_def wait_flags_def bit_masks bit.conj_disj_distrib2)
  obtain s1 L' T where s1: "arm_timeout c timeout s = Some s1" "queues s1 (R(WadogList d \<mapsto> L'))"
    "armed s s1 timeout c L L'" "retimed (tcbs s) T (set (c # L))"
    "tcbs s1 = T(c := (T c)\<lparr>state := armed_flags timeout (state (tcbs s c))\<rparr>)"
    "current_task s1 = current_task s" "mutexes s1 = mutexes s" "sems s1 = sems s" "frame s s1"
    using arm_timeout_spec[OF q pre(1) L pre(2)] by blast
  have "on_thread s1 (R(WadogList d \<mapsto> L')) th d m vs" "current_task s1 th = Some c"
    using s1(5,6,9) retimedD(2)[OF s1(4), of m] th by (auto simp: frame_def on_thread_def)
  from fiber_sched_away[OF s1(2) this th(3), of k]
  obtain s' where s': "fiber_sched th k s1 = Some (True, s')"
    "queues s' (R(WadogList d \<mapsto> L', ReadyList d \<mapsto> rotate1 vs @ [m]))"
    "current_task s' = (current_task s1)(th := Some (next_up m vs))"
    "tcbs s' = (tcbs s1)(c := (tcbs s1 c)\<lparr>resume_at := k\<rparr>)" "mutexes s' = mutexes s1"
    "sems s' = sems s1" "frame s1 s'" by blast
  obtain x where "T c = (tcbs s c)\<lparr>delta_interval := x\<rparr>" by (rule retimed_at[OF s1(4)])
  then have Tc: "T c = b\<lparr>delta_interval := x\<rparr>" using b(1) by simp
  have "timers s' L' = timers s1 L'" "timers s L = timers s0 L" "timers s' L = timers s1 L"
    using s'(4) b by (intro timers_cong; auto)+
  then have "armed s0 s' timeout c L L'" using s1(3) by (simp add: armed_def)
  moreover have "retimed (tcbs s0) (T(c := (tcbs s0 c)\<lparr>delta_interval := x\<rparr>)) (set (c # L))"
    using retimed_swap[of "tcbs s0" c b T "set (c # L)" x] s1(4) b(1) by simp
  moreover have "tcbs s' = (T(c := (tcbs s0 c)\<lparr>delta_interval := x\<rparr>))(c := b\<lparr>delta_interval := x,
      state := state (tcbs s0 c) OR w OR (if timeout > 0 then STATES_WAIT_TIMEOUTB else 0), resume_at := k\<rparr>)"
    using s'(4) s1(5) armed_wait_flags[OF fl(1,2), of timeout] Tc b(1,3) by simp
  ultimately show ?thesis
    using that[OF s1(1) s'(1,2), of "T(c := (tcbs s0 c)\<lparr>delta_interval := x\<rparr>)"] s1(6-8) s'(3,5,6)
      frame_trans[OF s1(9) s'(7)] by simp
qed

section \<open>Making a task ready\<close>

lemma activate_local:
  assumes "queues s Q" "one_n_model s \<or> same" "Q (ReadyList d) = Some (us @ [b])" "node_free Q t"
  shows "\<exists>s'. activate (Some b) same t s = Some s' \<and>
     queues s' (Q(ReadyList d \<mapsto> us @ [t, b])) \<and> tcbs s' = tcbs s \<and> current_task s' = current_task s \<and>
     scps s' = scps s \<and> mutexes s' = mutexes s \<and> sems s' = sems s \<and> frame s s'"
  using insert_before_spec[OF assms(1), of "ReadyList d" us b "[]" t] assms(2-4)
  by (auto simp: activate_def frame_def)

lemma activate_remote:
  assumes "queues s Q" "quiet s" "\<not> one_n_model s" "\<not> same" "scheddata (tcbs s t) = Some e"
    and "Q (GlobalReady (group (tcbs s t))) = Some gs" "node_free Q t"
  shows "\<exists>s'. activate anchor same t s = Some s' \<and>
     queues s' (Q(GlobalReady (group (tcbs s t)) \<mapsto> gs @ [t])) \<and>
     tcbs s' = (tcbs s)(t := (tcbs s t)\<lparr>scheduler := None, scheddata := None\<rparr>) \<and>
     scps s' = (scps s)(e := (scps s e)\<lparr>nLocalFibTasks := nLocalFibTasks (scps s e) - 1\<rparr>) \<and>
     current_task s' = current_task s \<and> mutexes s' = mutexes s \<and> sems s' = sems s \<and> frame s s'"
proof -
  let ?s = "upd_scp e (\<lambda>x. x\<lparr>nLocalFibTasks := nLocalFibTasks x - 1\<rparr>) s"
  have "queues ?s Q" "quiet ?s" using assms(1,2) by (simp_all add: queues_def quiet_def sys_defs)
  from push_global_spec[OF this, of t gs] assms(3-7) show ?thesis
    by (auto simp: activate_def dec_local_tasks_def sys_defs frame_def)
qed

lemma leave_watchdog_unflagged:
  "flags s t AND STATES_WAIT_TIMEOUTB = 0 \<Longrightarrow> leave_watchdog t s = Some s"
  by (simp add: leave_watchdog_def)

lemma leave_watchdog_flagged:
  assumes "queues s Q" "quiet s" "scheddata (tcbs s t) = Some d"
    and "Q (WadogList d) = Some (xs @ t # ys)" "flags s t AND STATES_WAIT_TIMEOUTB \<noteq> 0"
  shows "\<exists>s' T. leave_watchdog t s = Some s' \<and> queues s' (Q(WadogList d \<mapsto> xs @ ys)) \<and>
     timers s' (xs @ ys) = delta_remove t (timers s (xs @ t # ys)) \<and>
     retimed (tcbs s) T (set ys) \<and>
     tcbs s' = T(t := (tcbs s t)\<lparr>state := state (tcbs s t) AND NOT STATES_WAIT_TIMEOUTB\<rparr>) \<and>
     current_task s' = current_task s \<and> scps s' = scps s \<and> mutexes s' = mutexes s \<and> sems s' = sems s \<and> frame s s'"
  using watchdog_remove_spec[OF assms] assms(5) by (auto simp: leave_watchdog_def)

text \<open>
  A blocked task still has a home: the scheduler it last ran under, whose ready list ends with the
  scheduler's own task, and a global ready list of its group.
\<close>

definition homed :: "sys \<Rightarrow> (chain_id \<rightharpoonup> nat list) \<Rightarrow> nat \<Rightarrow> bool" where
  "homed s Q t = (\<exists>b d us gs. scheduler (tcbs s t) = Some b \<and> scheddata (tcbs s t) = Some d \<and>
     Q (ReadyList d) = Some (us @ [b]) \<and> Q (GlobalReady (group (tcbs s t))) = Some gs)"

lemma homed_cong:
  assumes "homed s Q x" and "Q (ReadyList d) = Some (us @ [m])"
    and "scheduler (tcbs s' x) = scheduler (tcbs s x)" "scheddata (tcbs s' x) = scheddata (tcbs s x)"
    "group (tcbs s' x) = group (tcbs s x)"
    and "Q' (ReadyList d) = Some (us' @ [m])" "\<And>e. e \<noteq> d \<Longrightarrow> Q' (ReadyList e) = Q (ReadyList e)"
    "\<And>g. Q' (GlobalReady g) = Q (GlobalReady g)"
  shows "homed s' Q' x"
proof -
  from assms(1) obtain b e vs gs where b: "scheduler (tcbs s x) = Some b" "scheddata (tcbs s x) = Some e"
    "Q (ReadyList e) = Some (vs @ [b])" "Q (GlobalReady (group (tcbs s x))) = Some gs"
    by (auto simp: homed_def)
  moreover have "\<exists>vs'. Q' (ReadyList e) = Some (vs' @ [b])" using b(3) assms(2,6,7) by (cases "e = d") auto
  ultimately show ?thesis using assms(3-5,8) by (auto simp: homed_def)
qed

text \<open>The queue a task is activated on, and the queues afterwards.\<close>

definition activated :: "bool \<Rightarrow> FibTCB \<Rightarrow> nat \<Rightarrow> (chain_id \<rightharpoonup> nat list) \<Rightarrow> (chain_id \<rightharpoonup> nat list)" where
  "activated near b t Q =
     (if near then let d = the (scheddata b); L = the (Q (ReadyList d)) in
                   Q(ReadyList d \<mapsto> butlast L @ [t, last L])
      else Q(GlobalReady (group b) \<mapsto> the (Q (GlobalReady (group b))) @ [t]))"

lemma activated_other [simp]:
  "(\<And>d. c \<noteq> ReadyList d) \<Longrightarrow> (\<And>g. c \<noteq> GlobalReady g) \<Longrightarrow> activated near b t Q c = Q c"
  by (simp add: activated_def Let_def)

text \<open>What activation may change of the control blocks: the home of the task, when it becomes global.\<close>

definition rehomed :: "(nat \<Rightarrow> FibTCB) \<Rightarrow> (nat \<Rightarrow> FibTCB) \<Rightarrow> bool \<Rightarrow> nat \<Rightarrow> bool" where
  "rehomed T T' near t =
     (T' = (if near then T else T(t := (T t)\<lparr>scheduler := None, scheddata := None\<rparr>)))"

lemma rehomedD:
  assumes "rehomed T T' near t"
  shows "u \<noteq> t \<Longrightarrow> T' u = T u" "state (T' u) = state (T u)" "yieldCode (T' u) = yieldCode (T u)"
    "pendingEvents (T' u) = pendingEvents (T u)" "waitingEvents (T' u) = waitingEvents (T u)"
    "seizedEvents (T' u) = seizedEvents (T u)" "waitingOptions (T' u) = waitingOptions (T u)"
    "resume_at (T' u) = resume_at (T u)" "group (T' u) = group (T u)"
    "delta_interval (T' u) = delta_interval (T u)" "near \<Longrightarrow> T' = T"
    "taskLocalStorages (T' u) = taskLocalStorages (T u)"
  using assms by (auto simp: rehomed_def split: if_splits)

lemma activate_spec:
  assumes q: "queues s Q" "quiet s" and h: "homed s Q t" and f: "node_free Q t"
    and anchor: "one_n_model s \<or> same \<Longrightarrow> anchor = scheduler (tcbs s t)"
    and near: "near = (one_n_model s \<or> same)"
  shows "\<exists>s'. activate anchor same t s = Some s' \<and> queues s' (activated near (tcbs s t) t Q) \<and>
     rehomed (tcbs s) (tcbs s') near t \<and> current_task s' = current_task s \<and>
     mutexes s' = mutexes s \<and> sems s' = sems s \<and> frame s s'"
proof (cases near)
  case True
  from h obtain b d us gs where b: "scheduler (tcbs s t) = Some b" "scheddata (tcbs s t) = Some d"
    "Q (ReadyList d) = Some (us @ [b])" by (auto simp: homed_def)
  have an: "anchor = Some b" and nr: "one_n_model s \<or> same" using True near anchor b(1) by auto
  show ?thesis using activate_local[OF q(1) nr b(3) f] b True an
    by (auto simp: activated_def rehomed_def Let_def)
next
  case False
  from h obtain e gs where e: "scheddata (tcbs s t) = Some e" "Q (GlobalReady (group (tcbs s t))) = Some gs"
    by (auto simp: homed_def)
  show ?thesis using activate_remote[OF q _ _ e f, of same anchor] e False near
    by (auto simp: activated_def rehomed_def)
qed

text \<open>
  A waiter that can be woken: settled, with a home, and on the watchdog list of its home exactly
  when its flags say so.
\<close>

definition wakeable :: "sys \<Rightarrow> (chain_id \<rightharpoonup> nat list) \<Rightarrow> nat \<Rightarrow> bool" where
  "wakeable s Q t = (homed s Q t \<and> flags s t AND STATES_TRANSIENT = 0 \<and>
     (flags s t AND STATES_WAIT_TIMEOUTB \<noteq> 0 \<longrightarrow>
        (\<exists>L. Q (WadogList (the (scheddata (tcbs s t)))) = Some L \<and> t \<in> set L)))"

definition untimed :: "FibTCB \<Rightarrow> nat \<Rightarrow> (chain_id \<rightharpoonup> nat list) \<Rightarrow> (chain_id \<rightharpoonup> nat list)" where
  "untimed b t Q =
     (if state b AND STATES_WAIT_TIMEOUTB \<noteq> 0
      then let w = WadogList (the (scheddata b)) in Q(w \<mapsto> remove1 t (the (Q w))) else Q)"

lemma untimed_node [simp]: "link_field c = Fld_node \<Longrightarrow> untimed b t Q c = Q c"
  by (auto simp: untimed_def Let_def)

lemma node_free_untimed: "node_free Q u \<Longrightarrow> node_free (untimed b t Q) u"
  by (auto simp: off_chains_def)

lemma clear_absent:
  fixes x y :: "32 word"
  assumes "x AND y = 0"
  shows "x AND NOT y = x"
proof (rule bit_word_eqI)
  fix n assume n: "n < LENGTH(32)"
  have "\<not> bit (x AND y) n" using assms by simp
  with n show "bit (x AND NOT y) n = bit x n" by (auto simp: bit_simps)
qed

lemma leave_watchdog_spec:
  assumes q: "queues s Q" "quiet s" and w: "wakeable s Q t"
  shows "\<exists>s' T. leave_watchdog t s = Some s' \<and> queues s' (untimed (tcbs s t) t Q) \<and>
     retimed (tcbs s) T (- {t}) \<and>
     tcbs s' = T(t := (tcbs s t)\<lparr>state := state (tcbs s t) AND NOT STATES_WAIT_TIMEOUTB\<rparr>) \<and>
     current_task s' = current_task s \<and> scps s' = scps s \<and> mutexes s' = mutexes s \<and> sems s' = sems s \<and> frame s s'"
proof (cases "flags s t AND STATES_WAIT_TIMEOUTB = 0")
  case True
  then have "tcbs s = (tcbs s)(t := (tcbs s t)\<lparr>state := state (tcbs s t) AND NOT STATES_WAIT_TIMEOUTB\<rparr>)"
    by (simp add: clear_absent flags_def)
  with True q(1) show ?thesis using leave_watchdog_unflagged[OF True]
    by (intro exI[of _ s] exI[of _ "tcbs s"]) (simp add: untimed_def flags_def)
next
  case False
  with w obtain d L where d: "scheddata (tcbs s t) = Some d" "Q (WadogList d) = Some L" "t \<in> set L"
    by (auto simp: wakeable_def homed_def)
  obtain xs ys where L: "L = xs @ t # ys" using d(3) by (rule split_at_mem)
  note dist = queues_distinct[OF q(1) d(2)]
  have "Q (WadogList d) = Some (xs @ t # ys)" using d(2) L by simp
  from leave_watchdog_flagged[OF q d(1) this False]
  obtain s' T where s': "leave_watchdog t s = Some s'" "queues s' (Q(WadogList d \<mapsto> xs @ ys))"
    "retimed (tcbs s) T (set ys)"
    "tcbs s' = T(t := (tcbs s t)\<lparr>state := state (tcbs s t) AND NOT STATES_WAIT_TIMEOUTB\<rparr>)"
    "current_task s' = current_task s" "scps s' = scps s" "mutexes s' = mutexes s" "sems s' = sems s" "frame s s'"
    by blast
  moreover have "untimed (tcbs s t) t Q = Q(WadogList d \<mapsto> xs @ ys)"
    using False d L dist distinct_remove_mid[of xs t ys] by (simp add: untimed_def flags_def)
  moreover have "retimed (tcbs s) T (- {t})" using retimed_mono[OF s'(3)] dist L by auto
  ultimately show ?thesis by auto
qed

lemma make_ready_spec:
  assumes q: "queues s Q" "quiet s" and w: "wakeable s Q t" and f: "node_free Q t"
    and one: "one_n_model s \<Longrightarrow> scheduler (tcbs s t) = my_sched"
    and near: "near = (one_n_model s \<or> scheduler (tcbs s t) = my_sched)"
  shows "\<exists>s' T. make_ready my_sched t s = Some s' \<and>
     queues s' (activated near (tcbs s t) t (untimed (tcbs s t) t Q)) \<and>
     retimed (tcbs s) T (- {t}) \<and>
     rehomed (T(t := (tcbs s t)\<lparr>state := state (tcbs s t) AND NOT STATES_WAIT_TIMEOUTB\<rparr>)) (tcbs s') near t \<and>
     current_task s' = current_task s \<and> mutexes s' = mutexes s \<and> sems s' = sems s \<and> frame s s'"
proof -
  obtain s1 T where s1: "leave_watchdog t s = Some s1" "queues s1 (untimed (tcbs s t) t Q)"
    "retimed (tcbs s) T (- {t})"
    "tcbs s1 = T(t := (tcbs s t)\<lparr>state := state (tcbs s t) AND NOT STATES_WAIT_TIMEOUTB\<rparr>)"
    "current_task s1 = current_task s" "mutexes s1 = mutexes s" "sems s1 = sems s" "frame s s1"
    using leave_watchdog_spec[OF q w] by blast
  let ?Q = "untimed (tcbs s t) t Q"
  have h: "homed s1 ?Q t" using w s1(4) by (auto simp: wakeable_def homed_def)
  have one1: "one_n_model s1 = one_n_model s" "quiet s1" using s1(8) q(2) by (auto simp: frame_def quiet_def)
  have sch: "scheduler (tcbs s1 t) = scheduler (tcbs s t)" using s1(4) by simp
  have "\<exists>s'. activate my_sched (scheduler (tcbs s1 t) = my_sched) t s1 = Some s' \<and>
     queues s' (activated near (tcbs s1 t) t ?Q) \<and> rehomed (tcbs s1) (tcbs s') near t \<and>
     current_task s' = current_task s1 \<and> mutexes s' = mutexes s1 \<and> sems s' = sems s1 \<and> frame s1 s'"
    using activate_spec[OF s1(2) one1(2) h node_free_untimed[OF f]] one near one1(1) sch by auto
  moreover have "activated near (tcbs s1 t) t ?Q = activated near (tcbs s t) t ?Q"
    using s1(4) by (simp add: activated_def)
  moreover have "await_settled t s = Some s" using w by (simp add: await_settled_def wakeable_def)
  ultimately show ?thesis using s1 frame_trans[OF s1(8)] by (auto simp: make_ready_def)
qed

text \<open>
  Waking a waiter: \<open>s1\<close> is \<open>s\<close> with task \<open>x\<close> off its wait queue, the waiting flag \<open>F\<close>
  cleared and the return code set.
\<close>

definition woken_tcb :: "32 word \<Rightarrow> FibTCB \<Rightarrow> FibTCB" where
  "woken_tcb F b = b\<lparr>yieldCode := 1, state := state b AND NOT (F OR STATES_WAIT_TIMEOUTB)\<rparr>"

lemma woken_tcb_sel [simp]:
  "yieldCode (woken_tcb F b) = 1" "state (woken_tcb F b) = state b AND NOT (F OR STATES_WAIT_TIMEOUTB)"
  "scheduler (woken_tcb F b) = scheduler b" "scheddata (woken_tcb F b) = scheddata b"
  "group (woken_tcb F b) = group b" "delta_interval (woken_tcb F b) = delta_interval b"
  "resume_at (woken_tcb F b) = resume_at b"
  by (simp_all add: woken_tcb_def)

definition wait_flag :: "32 word \<Rightarrow> bool" where
  "wait_flag F = (F AND (STATES_TRANSIENT OR STATES_WAIT_TIMEOUTB) = 0)"

lemma wait_flag_keeps:
  assumes "wait_flag F"
  shows "(y AND NOT F) AND STATES_TRANSIENT = y AND STATES_TRANSIENT"
    "(y AND NOT F) AND STATES_WAIT_TIMEOUTB = y AND STATES_WAIT_TIMEOUTB"
proof -
  have "\<not> bit (F AND (STATES_TRANSIENT OR STATES_WAIT_TIMEOUTB)) n" for n
    using assms by (simp add: wait_flag_def)
  then have *: "bit F n \<Longrightarrow> \<not> bit STATES_TRANSIENT n \<and> \<not> bit STATES_WAIT_TIMEOUTB n" for n
    by (simp only: bit_and_iff bit_or_iff) blast
  show "(y AND NOT F) AND STATES_TRANSIENT = y AND STATES_TRANSIENT"
    "(y AND NOT F) AND STATES_WAIT_TIMEOUTB = y AND STATES_WAIT_TIMEOUTB"
    using * by (auto intro!: bit_word_eqI simp: bit_simps)
qed

lemma wait_flag_vals:
  "wait_flag STATES_WAITFOR_SEMPH" "wait_flag STATES_WAITFOR_CONDV" "wait_flag STATES_WAITFOR_EVENT"
  by (simp_all add: wait_flag_def bit_masks)

lemma wake_extracted:
  assumes q: "queues s1 (Q(w \<mapsto> ws))" "quiet s1" and w: "link_field w = Fld_node" "\<And>d. w \<noteq> ReadyList d" "\<And>g. w \<noteq> GlobalReady g"
    and f: "node_free (Q(w \<mapsto> ws)) x" and wk: "wakeable s Q x" and F: "wait_flag F"
    and T1: "tcbs s1 = (tcbs s)(x := (tcbs s x)\<lparr>state := state (tcbs s x) AND NOT F, yieldCode := 1\<rparr>)"
    and one: "one_n_model s1 \<Longrightarrow> scheduler (tcbs s x) = sch"
    and near: "near = (one_n_model s1 \<or> scheduler (tcbs s x) = sch)"
  shows "\<exists>s' T. make_ready sch x s1 = Some s' \<and>
     queues s' (activated near (tcbs s x) x (untimed (tcbs s x) x (Q(w \<mapsto> ws)))) \<and>
     retimed (tcbs s) T (- {x}) \<and> rehomed (T(x := woken_tcb F (tcbs s x))) (tcbs s') near x \<and>
     current_task s' = current_task s1 \<and> mutexes s' = mutexes s1 \<and> sems s' = sems s1 \<and> frame s1 s'"
proof -
  note keep = wait_flag_keeps[OF F]
  let ?Q = "Q(w \<mapsto> ws)"
  have wk1: "wakeable s1 ?Q x"
    using wk w T1 by (auto simp: wakeable_def homed_def flags_def keep)
  obtain s' T where s': "make_ready sch x s1 = Some s'"
    "queues s' (activated near (tcbs s1 x) x (untimed (tcbs s1 x) x ?Q))" "retimed (tcbs s1) T (- {x})"
    "rehomed (T(x := (tcbs s1 x)\<lparr>state := state (tcbs s1 x) AND NOT STATES_WAIT_TIMEOUTB\<rparr>)) (tcbs s') near x"
    "current_task s' = current_task s1" "mutexes s' = mutexes s1" "sems s' = sems s1" "frame s1 s'"
    using make_ready_spec[OF q wk1 f, of sch near] one near T1 by fastforce
  moreover have "activated near (tcbs s1 x) x (untimed (tcbs s1 x) x ?Q) =
      activated near (tcbs s x) x (untimed (tcbs s x) x ?Q)"
    by (simp add: activated_def untimed_def keep T1)
  moreover have "retimed (tcbs s) (T(x := tcbs s x)) (- {x})"
    using s'(3) T1 by (rule retimed_off)
  moreover have "(tcbs s1 x)\<lparr>state := state (tcbs s1 x) AND NOT STATES_WAIT_TIMEOUTB\<rparr> = woken_tcb F (tcbs s x)"
    by (simp add: T1 woken_tcb_def and.assoc)
  ultimately show ?thesis by (intro exI[of _ s'] exI[of _ "T(x := tcbs s x)"]) simp
qed

end
