(* ===== verification/Mutex.thy ===== *)
theory Mutex
  imports Wakeup
begin

text \<open>
  The recursive fiber mutex of \<^verbatim>\<open>src/task.c\<close>.  \<open>mutex_lock\<close> and \<open>mutex_unlock\<close>
  are the functions \<^verbatim>\<open>_fiber_mutex_lock\<close> and \<^verbatim>\<open>_fiber_mutex_unlock\<close>; the names
  without underscore are their aliases, or empty macros under \<open>__1_N_MODEL__\<close>.  An abstract
  mutex (owner, depth, waiters) specifies them.
\<close>

section \<open>The operations\<close>

definition mutex_init :: "nat \<Rightarrow> sys \<Rightarrow> int \<times> sys" where
  "mutex_init p s =
     (let s = upd_mutex p (\<lambda>_. \<lparr>holder = None, reentries = 0\<rparr>) s;
          s = s\<lparr>locks := (locks s)(MutexLock p := False)\<rparr>;
          s = s\<lparr>mem := chain_init_empty (MutexWaitq p) (mem s)\<rparr>
      in (0, s))"

definition mutex_lock :: "nat \<Rightarrow> nat \<Rightarrow> sys \<Rightarrow> (bool outcome \<times> sys) option" where
  "mutex_lock th p s = do {
     the_task \<leftarrow> current_task s th;
     if holder (mutexes s p) = Some the_task
     then Some (Returns True, upd_mutex p (\<lambda>x. x\<lparr>reentries := reentries x + 1\<rparr>) s)
     else do {
       s \<leftarrow> spin_lock (MutexLock p) s;
       if holder (mutexes s p) = None then do {
         let s = upd_mutex p (\<lambda>x. x\<lparr>holder := Some the_task\<rparr>) s;
         let s = spin_unlock (MutexLock p) s;
         Some (Returns True, upd_mutex p (\<lambda>x. x\<lparr>reentries := 1\<rparr>) s)
       } else do {
         let s = set_flags STATES_WAITFOR_MUTEX the_task s;
         s \<leftarrow> localReadyQProtectedExtract the_task s;
         s \<leftarrow> on_mem (node_append (MutexWaitq p) (Tcb the_task)) s;
         let s = spin_unlock (MutexLock p) s;
         (sw, s) \<leftarrow> fiber_sched th K_mutex_lock s;
         Some (if sw then Switched else Returns True, s)
       }
     }
   }"

definition mutex_unlock :: "nat \<Rightarrow> nat \<Rightarrow> sys \<Rightarrow> (bool \<times> sys) option" where
  "mutex_unlock th p s = do {
     the_task \<leftarrow> current_task s th;
     if holder (mutexes s p) \<noteq> Some the_task then Some (False, s)
     else do {
       let s = upd_mutex p (\<lambda>x. x\<lparr>reentries := reentries x - 1\<rparr>) s;
       if reentries (mutexes s p) \<noteq> 0 then Some (True, s)
       else do {
         s \<leftarrow> spin_lock (MutexLock p) s;
         (r, m) \<leftarrow> node_extract_first (MutexWaitq p) (mem s);
         let s = s\<lparr>mem := m\<rparr>;
         let s = upd_mutex p (\<lambda>x. x\<lparr>holder := as_task r\<rparr>) s;
         let s = spin_unlock (MutexLock p) s;
         case as_task r of
           None \<Rightarrow> Some (True, s)
         | Some the_first \<Rightarrow> do {
             let s = upd_mutex p (\<lambda>x. x\<lparr>reentries := 1\<rparr>) s;
             let s = clear_flags STATES_WAITFOR_MUTEX the_first s;
             s \<leftarrow> activate (scheduler (tcbs s the_first))
                    (scheduler (tcbs s the_first) = scheduler (tcbs s the_task)) the_first s;
             Some (True, s)
           }
       }
     }
   }"

definition mutex_destroy :: "nat \<Rightarrow> sys \<Rightarrow> bool \<times> sys" where
  "mutex_destroy p s = (True, s)"

definition fiber_mutex_lock :: "nat \<Rightarrow> nat \<Rightarrow> sys \<Rightarrow> (bool outcome \<times> sys) option" where
  "fiber_mutex_lock th p s = (if one_n_model s then Some (Returns True, s) else mutex_lock th p s)"

definition fiber_mutex_unlock :: "nat \<Rightarrow> nat \<Rightarrow> sys \<Rightarrow> (bool \<times> sys) option" where
  "fiber_mutex_unlock th p s = (if one_n_model s then Some (True, s) else mutex_unlock th p s)"

section \<open>The abstract mutex\<close>

record amutex =
  owner :: "nat option"
  depth :: nat
  waiters :: "nat list"

definition amutex_new :: amutex where
  "amutex_new = \<lparr>owner = None, depth = 0, waiters = []\<rparr>"

definition amutex_lock :: "nat \<Rightarrow> amutex \<Rightarrow> amutex" where
  "amutex_lock t a =
     (if owner a = Some t then a\<lparr>depth := depth a + 1\<rparr>
      else if owner a = None then a\<lparr>owner := Some t, depth := 1\<rparr>
      else a\<lparr>waiters := waiters a @ [t]\<rparr>)"

definition amutex_unlock :: "nat \<Rightarrow> amutex \<Rightarrow> amutex" where
  "amutex_unlock t a =
     (if owner a \<noteq> Some t then a
      else if depth a > 1 then a\<lparr>depth := depth a - 1\<rparr>
      else case waiters a of
        [] \<Rightarrow> \<lparr>owner = None, depth = 0, waiters = []\<rparr>
      | x # ws \<Rightarrow> \<lparr>owner = Some x, depth = 1, waiters = ws\<rparr>)"

text \<open>Its invariant: a free mutex has no waiters, a held one has a depth and an owner that is not waiting.\<close>

definition amutex_inv :: "amutex \<Rightarrow> bool" where
  "amutex_inv a = (distinct (waiters a) \<and>
     (case owner a of None \<Rightarrow> depth a = 0 \<and> waiters a = []
      | Some t \<Rightarrow> depth a > 0 \<and> t \<notin> set (waiters a)))"

lemma amutex_inv_lock:
  "amutex_inv a \<Longrightarrow> t \<notin> set (waiters a) \<Longrightarrow> amutex_inv (amutex_lock t a)"
  by (auto simp: amutex_inv_def amutex_lock_def split: option.splits)

lemma amutex_inv_unlock: "amutex_inv a \<Longrightarrow> amutex_inv (amutex_unlock t a)"
  by (auto simp: amutex_inv_def amutex_unlock_def split: option.splits list.splits)

definition abs_mutex :: "nat \<Rightarrow> sys \<Rightarrow> (chain_id \<rightharpoonup> nat list) \<Rightarrow> amutex" where
  "abs_mutex p s Q = \<lparr>owner = holder (mutexes s p), depth = unat (reentries (mutexes s p)),
     waiters = the (Q (MutexWaitq p))\<rparr>"

section \<open>The operations on every branch\<close>

lemma mutex_lock_reenter:
  assumes "current_task s th = Some c" "holder (mutexes s p) = Some c"
  shows "mutex_lock th p s = Some (Returns True, s\<lparr>mutexes := (mutexes s)(p :=
           (mutexes s p)\<lparr>reentries := reentries (mutexes s p) + 1\<rparr>)\<rparr>)"
  using assms by (simp add: mutex_lock_def sys_defs)

lemma mutex_lock_free:
  assumes "current_task s th = Some c" "quiet s" "holder (mutexes s p) = None"
  shows "mutex_lock th p s = Some (Returns True, s\<lparr>mutexes := (mutexes s)(p :=
           (mutexes s p)\<lparr>holder := Some c, reentries := 1\<rparr>)\<rparr>)"
  using assms by (simp add: mutex_lock_def sys_defs spin_simps)

lemma mutex_lock_blocks:
  assumes r: "running s Q th d m us c" and ne: "c \<noteq> m" and qt: "quiet s"
    and h: "holder (mutexes s p) = Some h" "h \<noteq> c" and w: "Q (MutexWaitq p) = Some ws"
  shows "\<exists>s'. mutex_lock th p s = Some (Switched, s') \<and>
     queues s' (Q(MutexWaitq p \<mapsto> ws @ [c], ReadyList d \<mapsto> rotate1 (butlast us) @ [m])) \<and>
     current_task s' = (current_task s)(th := Some (next_up m (butlast us))) \<and>
     tcbs s' = (tcbs s)(c := (tcbs s c)\<lparr>state := state (tcbs s c) OR STATES_WAITFOR_MUTEX,
                                      resume_at := K_mutex_lock\<rparr>) \<and>
     scps s' = scps s \<and> mutexes s' = mutexes s \<and> sems s' = sems s \<and> frame s s'"
proof -
  obtain m1 m2 where m: "node_remove (Tcb c) (mem s) = Some m1" "node_append (MutexWaitq p) (Tcb c) m1 = Some m2"
    "chains link_field m2 (Q(ReadyList d \<mapsto> butlast us @ [m], MutexWaitq p \<mapsto> ws @ [c]))"
    "c \<notin> set (butlast us @ [m])"
    by (rule park_spec[OF r ne _ _ w]) auto
  let ?s = "s\<lparr>tcbs := (tcbs s)(c := (tcbs s c)\<lparr>state := state (tcbs s c) OR STATES_WAITFOR_MUTEX\<rparr>), mem := m2\<rparr>"
  have "queues ?s (Q(ReadyList d \<mapsto> butlast us @ [m], MutexWaitq p \<mapsto> ws @ [c]))"
    using m(3) by simp
  from sched_parked[OF this, of th c K_mutex_lock] runningD[OF r] m(4) ne
  have "\<exists>s'. fiber_sched th K_mutex_lock ?s = Some (True, s') \<and>
     queues s' (Q(MutexWaitq p \<mapsto> ws @ [c], ReadyList d \<mapsto> rotate1 (butlast us) @ [m])) \<and>
     current_task s' = (current_task s)(th := Some (next_up m (butlast us))) \<and>
     tcbs s' = (tcbs s)(c := (tcbs s c)\<lparr>state := state (tcbs s c) OR STATES_WAITFOR_MUTEX,
                                      resume_at := K_mutex_lock\<rparr>) \<and>
     scps s' = scps s \<and> mutexes s' = mutexes s \<and> sems s' = sems s \<and> frame s s'"
    by (auto simp: frame_def)
  moreover have "mutex_lock th p s = Option.bind (fiber_sched th K_mutex_lock ?s)
      (\<lambda>(sw, s). Some (if sw then Switched else Returns True, s))"
    using m(1,2) runningD(3)[OF r] h qt
    by (simp add: mutex_lock_def sys_defs spin_simps localReadyQProtectedExtract_def on_mem_def)
  ultimately show ?thesis by fastforce
qed

lemma mutex_unlock_not_holder:
  assumes "current_task s th = Some c" "holder (mutexes s p) \<noteq> Some c"
  shows "mutex_unlock th p s = Some (False, s)"
  using assms by (simp add: mutex_unlock_def)

lemma mutex_unlock_nested:
  assumes "current_task s th = Some c" "holder (mutexes s p) = Some c" "reentries (mutexes s p) \<noteq> 1"
  shows "mutex_unlock th p s = Some (True, s\<lparr>mutexes := (mutexes s)(p :=
           (mutexes s p)\<lparr>reentries := reentries (mutexes s p) - 1\<rparr>)\<rparr>)"
  using assms by (simp add: mutex_unlock_def sys_defs)

lemma mutex_unlock_last:
  assumes "current_task s th = Some c" "holder (mutexes s p) = Some c" "reentries (mutexes s p) = 1"
    and "quiet s" "queues s Q" "Q (MutexWaitq p) = Some []"
  shows "\<exists>s'. mutex_unlock th p s = Some (True, s') \<and> queues s' Q \<and> tcbs s' = tcbs s \<and>
     mutexes s' = (mutexes s)(p := (mutexes s p)\<lparr>holder := None, reentries := 0\<rparr>) \<and>
     current_task s' = current_task s \<and> scps s' = scps s \<and> sems s' = sems s \<and> frame s s'"
  using assms extract_first_empty_spec[OF assms(5) _ assms(6)]
  by (auto simp: mutex_unlock_def sys_defs spin_simps frame_def queues_def)

lemma mutex_unlock_handoff:
  assumes cur: "current_task s th = Some c" "holder (mutexes s p) = Some c" "reentries (mutexes s p) = 1"
    and q: "quiet s" "queues s Q" and w: "Q (MutexWaitq p) = Some (x # ws)" and h: "homed s Q x"
    and near: "near = (one_n_model s \<or> scheduler (tcbs s x) = scheduler (tcbs s c))"
  shows "\<exists>s'. mutex_unlock th p s = Some (True, s') \<and>
     queues s' (activated near (tcbs s x) x (Q(MutexWaitq p \<mapsto> ws))) \<and>
     rehomed ((tcbs s)(x := (tcbs s x)\<lparr>state := state (tcbs s x) AND NOT STATES_WAITFOR_MUTEX\<rparr>))
       (tcbs s') near x \<and>
     mutexes s' = (mutexes s)(p := (mutexes s p)\<lparr>holder := Some x, reentries := 1\<rparr>) \<and>
     current_task s' = current_task s \<and> sems s' = sems s \<and> frame s s'"
proof -
  obtain mm where mm: "node_extract_first (MutexWaitq p) (mem s) = Some (Tcb x, mm)"
    "chains link_field mm (Q(MutexWaitq p \<mapsto> ws))"
    using extract_first_spec[OF q(2) _ w] by auto
  let ?Q = "Q(MutexWaitq p \<mapsto> ws)"
  let ?s = "s\<lparr>mem := mm, mutexes := (mutexes s)(p := (mutexes s p)\<lparr>holder := Some x, reentries := 1\<rparr>),
     tcbs := (tcbs s)(x := (tcbs s x)\<lparr>state := state (tcbs s x) AND NOT STATES_WAITFOR_MUTEX\<rparr>)\<rparr>"
  let ?same = "scheduler (tcbs ?s x) = scheduler (tcbs ?s c)"
  have "node_free ?Q x" using gone_spec[OF q(2), of "MutexWaitq p" "[]" x ws] w by simp
  moreover have "homed ?s ?Q x" "queues ?s ?Q" "quiet ?s"
    using h mm(2) q(1) by (auto simp: homed_def quiet_def queues_def)
  moreover have "near = (one_n_model ?s \<or> ?same)" using near by simp
  ultimately obtain s' where s': "activate (scheduler (tcbs ?s x)) ?same x ?s = Some s'"
    "queues s' (activated near (tcbs ?s x) x ?Q)" "rehomed (tcbs ?s) (tcbs s') near x"
    "current_task s' = current_task ?s" "mutexes s' = mutexes ?s" "sems s' = sems ?s" "frame ?s s'"
    using activate_spec[where s = ?s and Q = ?Q and t = x and same = ?same and anchor = "scheduler (tcbs ?s x)" and near = near]
    by blast
  have "mutex_unlock th p s = Option.bind (activate (scheduler (tcbs ?s x)) ?same x ?s) (\<lambda>s. Some (True, s))"
    using mm(1) cur q(1) by (simp add: mutex_unlock_def sys_defs spin_simps)
  moreover have "frame s s'" "activated near (tcbs ?s x) x ?Q = activated near (tcbs s x) x ?Q"
    using s'(7) by (simp_all add: frame_def activated_def)
  ultimately show ?thesis using s' by simp
qed

section \<open>Refinement of the abstract mutex\<close>

text \<open>
  Everything a call of the mutex needs of the state: the caller runs on its thread, no spin lock is
  left held, the wait queue is initialised and every waiter has a home.
\<close>

definition mutex_ready :: "sys \<Rightarrow> (chain_id \<rightharpoonup> nat list) \<Rightarrow> nat \<Rightarrow> nat \<Rightarrow> nat \<Rightarrow> nat list \<Rightarrow> nat \<Rightarrow> nat \<Rightarrow> bool" where
  "mutex_ready s Q th d m us c p =
     (running s Q th d m us c \<and> c \<noteq> m \<and> quiet s \<and> Q (MutexWaitq p) \<noteq> None \<and>
      amutex_inv (abs_mutex p s Q) \<and> (\<forall>x \<in> set (the (Q (MutexWaitq p))). homed s Q x))"

lemma running_not_waiting:
  assumes r: "running s Q th d m us c" and w: "link_field w = Fld_node" "w \<noteq> ReadyList d" "Q w = Some ws"
  shows "c \<notin> set ws"
proof -
  have "c \<in> set (us @ [m])" using r by (auto simp: running_def)
  then show ?thesis using queues_disjoint[OF runningD(1)[OF r] runningD(6)[OF r] w(3), of c] w(1,2) by auto
qed

lemma mutex_lock_refines:
  assumes "mutex_ready s Q th d m us c p" and "reentries (mutexes s p) \<noteq> - 1"
  shows "\<exists>r s' Q'. mutex_lock th p s = Some (r, s') \<and> queues s' Q' \<and> frame s s' \<and>
     abs_mutex p s' Q' = amutex_lock c (abs_mutex p s Q) \<and>
     (r = Switched) = (owner (amutex_lock c (abs_mutex p s Q)) \<noteq> Some c)"
proof -
  from assms(1) obtain ws where r: "running s Q th d m us c" "c \<noteq> m" "quiet s" "Q (MutexWaitq p) = Some ws"
    by (auto simp: mutex_ready_def)
  note rd = runningD[OF r(1)]
  have wrap: "unat (x + 1) = unat x + 1" if "x \<noteq> - 1" for x :: "32 word"
    using that unatSuc[of x] by (metis Suc_eq_plus1 add.commute add_eq_0_iff2)
  consider "holder (mutexes s p) = Some c" | "holder (mutexes s p) = None"
    | h where "holder (mutexes s p) = Some h" "h \<noteq> c" by (cases "holder (mutexes s p)") auto
  then show ?thesis
  proof cases
    case 1
    then show ?thesis using mutex_lock_reenter[OF rd(3) 1] rd(1) wrap[OF assms(2)]
      by (auto simp: abs_mutex_def amutex_lock_def queues_def frame_def)
  next
    case 2
    then show ?thesis using mutex_lock_free[OF rd(3) r(3) 2] rd(1)
      by (auto simp: abs_mutex_def amutex_lock_def queues_def frame_def)
  next
    case 3
    let ?Q = "Q(MutexWaitq p \<mapsto> ws @ [c], ReadyList d \<mapsto> rotate1 (butlast us) @ [m])"
    from mutex_lock_blocks[OF r(1-3) 3 r(4)] obtain s' where s': "mutex_lock th p s = Some (Switched, s')"
      "queues s' ?Q" "mutexes s' = mutexes s" "frame s s'" by blast
    then have "abs_mutex p s' ?Q = amutex_lock c (abs_mutex p s Q)"
      using 3 r(4) by (auto simp: abs_mutex_def amutex_lock_def)
    with s' 3 show ?thesis by (auto simp: abs_mutex_def amutex_lock_def)
  qed
qed

text \<open>
  The whole effect of an unlock, for any caller, also one that has already left the ready list (as
  \<open>fiber_cond_wait\<close> does): the abstract step, and that ready lists only grow in front of
  their scheduler.
\<close>

definition grows :: "(chain_id \<rightharpoonup> nat list) \<Rightarrow> (chain_id \<rightharpoonup> nat list) \<Rightarrow> nat set \<Rightarrow> bool" where
  "grows Q Q' A = (\<forall>d us m. Q (ReadyList d) = Some (us @ [m]) \<longrightarrow>
     (\<exists>us'. Q' (ReadyList d) = Some (us' @ [m]) \<and> set us' \<subseteq> set us \<union> A))"

lemma grows_refl [simp]: "grows Q Q A"
  by (auto simp: grows_def)

lemma grows_activated:
  assumes "homed s Q x" "Q c = Some L" "\<And>d. c \<noteq> ReadyList d"
  shows "grows Q (activated near (tcbs s x) x (Q(c \<mapsto> M))) {x}"
  using assms by (auto simp: grows_def activated_def homed_def Let_def)

lemma mutex_unlock_effect:
  assumes cur: "current_task s th = Some c" and q: "quiet s" "queues s Q" and w: "Q (MutexWaitq p) = Some ws"
    and inv: "amutex_inv (abs_mutex p s Q)" and h: "\<forall>x \<in> set ws. homed s Q x"
  shows "\<exists>s' Q'. mutex_unlock th p s = Some (owner (abs_mutex p s Q) = Some c, s') \<and> queues s' Q' \<and> frame s s' \<and>
     abs_mutex p s' Q' = amutex_unlock c (abs_mutex p s Q) \<and>
     grows Q Q' (set ws) \<and> (\<forall>k. k \<noteq> MutexWaitq p \<longrightarrow> (\<forall>d. k \<noteq> ReadyList d) \<longrightarrow> (\<forall>g. k \<noteq> GlobalReady g) \<longrightarrow> Q' k = Q k) \<and>
     (\<forall>u. u \<notin> set ws \<longrightarrow> tcbs s' u = tcbs s u) \<and> current_task s' = current_task s \<and> sems s' = sems s"
proof -
  consider "holder (mutexes s p) \<noteq> Some c"
    | "holder (mutexes s p) = Some c" "reentries (mutexes s p) \<noteq> 1"
    | "holder (mutexes s p) = Some c" "reentries (mutexes s p) = 1" "ws = []"
    | x xs where "holder (mutexes s p) = Some c" "reentries (mutexes s p) = 1" "ws = x # xs"
    by (cases ws) auto
  then show ?thesis
  proof cases
    case 1
    then show ?thesis using mutex_unlock_not_holder[OF cur 1] q(2)
      by (intro exI[of _ s] exI[of _ Q]) (auto simp: abs_mutex_def amutex_unlock_def)
  next
    case 2
    have "unat (reentries (mutexes s p)) > 0" using inv 2(1) by (simp add: amutex_inv_def abs_mutex_def)
    moreover have "unat (reentries (mutexes s p)) \<noteq> 1"
      using 2(2) by (metis unat_1 word_unat_eq_iff)
    moreover from calculation have "unat (reentries (mutexes s p) - 1) = unat (reentries (mutexes s p)) - 1"
      by (metis unat_1 unat_gt_0 unat_minus_one)
    ultimately show ?thesis using mutex_unlock_nested[OF cur 2] q(2) 2
      by (intro exI[of _ "snd (the (mutex_unlock th p s))"] exI[of _ Q])
        (auto simp: abs_mutex_def amutex_unlock_def queues_def frame_def)
  next
    case 3
    have w: "Q (MutexWaitq p) = Some []" using w 3(3) by simp
    obtain s' where s': "mutex_unlock th p s = Some (True, s')" "queues s' Q" "tcbs s' = tcbs s"
     "mutexes s' = (mutexes s)(p := (mutexes s p)\<lparr>holder := None, reentries := 0\<rparr>)"
     "current_task s' = current_task s" "sems s' = sems s" "frame s s'"
      using mutex_unlock_last[OF cur 3(1,2) q w] by blast
    then show ?thesis using 3 w
      by (intro exI[of _ s'] exI[of _ Q]) (simp add: abs_mutex_def amutex_unlock_def)
  next
    case 4
    have w: "Q (MutexWaitq p) = Some (x # xs)" using w 4(3) by simp
    have hx: "homed s Q x" using h 4(3) by simp
    let ?near = "one_n_model s \<or> scheduler (tcbs s x) = scheduler (tcbs s c)"
    let ?Q = "activated ?near (tcbs s x) x (Q(MutexWaitq p \<mapsto> xs))"
    obtain s' where s': "mutex_unlock th p s = Some (True, s')" "queues s' ?Q" "frame s s'"
      "mutexes s' = (mutexes s)(p := (mutexes s p)\<lparr>holder := Some x, reentries := 1\<rparr>)"
      "rehomed ((tcbs s)(x := (tcbs s x)\<lparr>state := state (tcbs s x) AND NOT STATES_WAITFOR_MUTEX\<rparr>)) (tcbs s') ?near x"
      "current_task s' = current_task s" "sems s' = sems s"
      using mutex_unlock_handoff[OF cur 4(1,2) q w hx refl] by blast
    have "abs_mutex p s' ?Q = amutex_unlock c (abs_mutex p s Q)"
      using s'(4) 4 w by (simp add: abs_mutex_def amutex_unlock_def)
    moreover have "grows Q ?Q (set ws)"
      using grows_activated[OF hx w] 4(3) by (fastforce simp: grows_def)
    moreover have "tcbs s' u = tcbs s u" if "u \<notin> set ws" for u
      using rehomedD(1)[OF s'(5), of u] that 4(3) by auto
    ultimately show ?thesis using s' 4(1)
      by (intro exI[of _ s'] exI[of _ ?Q]) (auto simp: abs_mutex_def)
  qed
qed

lemma mutex_unlock_refines:
  assumes "mutex_ready s Q th d m us c p"
  shows "\<exists>s' Q'. mutex_unlock th p s = Some (owner (abs_mutex p s Q) = Some c, s') \<and> queues s' Q' \<and> frame s s' \<and>
     abs_mutex p s' Q' = amutex_unlock c (abs_mutex p s Q)"
  using assms mutex_unlock_effect[of s th c Q p] runningD[of s Q th d m us c]
  by (fastforce simp: mutex_ready_def)

end
