(* ===== verification/Semaphore.thy ===== *)
theory Semaphore
  imports Wakeup
begin

text \<open>
  The counting semaphore of \<^verbatim>\<open>src/task.c\<close>.  A negative \<open>count\<close> is the number of waiting
  tasks.  An abstract semaphore (count, waiters) specifies wait, timed wait and post, and the
  theory shows where a timeout breaks the relation between the two.
\<close>

section \<open>The operations\<close>

definition fiber_sem_init :: "nat \<Rightarrow> int \<Rightarrow> sys \<Rightarrow> int \<times> sys" where
  "fiber_sem_init p initval s =
     (let s = s\<lparr>locks := (locks s)(SemLock p := False)\<rparr>;
          s = s\<lparr>mem := chain_init_empty (SemWaitq p) (mem s)\<rparr>;
          s = upd_sem p (\<lambda>_. \<lparr>count = initval\<rparr>) s
      in (0, s))"

definition fiber_sem_wait :: "nat \<Rightarrow> nat \<Rightarrow> sys \<Rightarrow> (bool outcome \<times> sys) option" where
  "fiber_sem_wait th p s = do {
     the_task \<leftarrow> current_task s th;
     s \<leftarrow> spin_lock (SemLock p) s;
     let s = upd_sem p (\<lambda>x. x\<lparr>count := count x - 1\<rparr>) s;
     if count (sems s p) \<ge> 0 then Some (Returns True, spin_unlock (SemLock p) s)
     else do {
       s \<leftarrow> localReadyQProtectedExtract the_task s;
       s \<leftarrow> on_mem (node_append (SemWaitq p) (Tcb the_task)) s;
       let s = set_flags STATES_WAITFOR_SEMPH the_task s;
       let s = spin_unlock (SemLock p) s;
       (sw, s) \<leftarrow> fiber_sched th K_sem_wait s;
       Some (if sw then Switched else Returns True, s)
     }
   }"

text \<open>What \<open>fiber_sem_timedwait\<close> returns once the task runs again.\<close>

definition sem_timedwait_result :: "nat \<Rightarrow> sys \<Rightarrow> bool" where
  "sem_timedwait_result the_task s = (yieldCode (tcbs s the_task) = 1)"

definition fiber_sem_timedwait :: "nat \<Rightarrow> nat \<Rightarrow> int \<Rightarrow> sys \<Rightarrow> (bool outcome \<times> sys) option" where
  "fiber_sem_timedwait th p timeout s = do {
     the_task \<leftarrow> current_task s th;
     s \<leftarrow> spin_lock (SemLock p) s;
     let s = upd_sem p (\<lambda>x. x\<lparr>count := count x - 1\<rparr>) s;
     if count (sems s p) \<ge> 0 then Some (Returns True, spin_unlock (SemLock p) s)
     else if timeout = 0 then do {
       let s = upd_sem p (\<lambda>x. x\<lparr>count := count x + 1\<rparr>) s;
       Some (Returns False, spin_unlock (SemLock p) s)
     }
     else do {
       s \<leftarrow> localReadyQProtectedExtract the_task s;
       s \<leftarrow> on_mem (node_append (SemWaitq p) (Tcb the_task)) s;
       let s = set_flags (wait_flags timeout STATES_WAITFOR_SEMPH) the_task s;
       let s = upd_tcb the_task (\<lambda>b. b\<lparr>waitingObject := SemObject p, yieldCode := 0\<rparr>) s;
       let s = spin_unlock (SemLock p) s;
       s \<leftarrow> arm_timeout the_task timeout s;
       (sw, s) \<leftarrow> fiber_sched th K_sem_timedwait s;
       Some (if sw then Switched else Returns (sem_timedwait_result the_task s), s)
     }
   }"

definition fiber_sem_post :: "nat \<Rightarrow> nat \<Rightarrow> sys \<Rightarrow> (bool \<times> sys) option" where
  "fiber_sem_post th p s = do {
     s \<leftarrow> spin_lock (SemLock p) s;
     let s = upd_sem p (\<lambda>x. x\<lparr>count := count x + 1\<rparr>) s;
     (r, m) \<leftarrow> node_extract_first (SemWaitq p) (mem s);
     let s = s\<lparr>mem := m\<rparr>;
     case as_task r of
       None \<Rightarrow> Some (True, spin_unlock (SemLock p) s)
     | Some the_first \<Rightarrow> do {
         let s = clear_flags STATES_WAITFOR_SEMPH the_first s;
         let s = upd_tcb the_first (\<lambda>b. b\<lparr>yieldCode := 1\<rparr>) s;
         let s = spin_unlock (SemLock p) s;
         the_task \<leftarrow> current_task s th;
         s \<leftarrow> make_ready (scheduler (tcbs s the_task)) the_first s;
         Some (True, s)
       }
   }"

definition fiber_sem_destroy :: "nat \<Rightarrow> sys \<Rightarrow> bool \<times> sys" where
  "fiber_sem_destroy p s = (True, s)"

section \<open>The abstract semaphore\<close>

record asem =
  credit :: int
  pending :: "nat list"

definition asem_new :: "int \<Rightarrow> asem" where
  "asem_new n = \<lparr>credit = n, pending = []\<rparr>"

definition asem_wait :: "nat \<Rightarrow> asem \<Rightarrow> asem" where
  "asem_wait t a = \<lparr>credit = credit a - 1, pending = (if credit a > 0 then pending a else pending a @ [t])\<rparr>"

definition asem_post :: "asem \<Rightarrow> asem" where
  "asem_post a = \<lparr>credit = credit a + 1, pending = tl (pending a)\<rparr>"

text \<open>Its invariant: tasks wait exactly when the credit is negative, and as many as it says.\<close>

definition asem_inv :: "asem \<Rightarrow> bool" where
  "asem_inv a = (int (length (pending a)) = max 0 (- credit a) \<and> distinct (pending a))"

lemma asem_inv_new: "0 \<le> n \<Longrightarrow> asem_inv (asem_new n)"
  by (simp add: asem_inv_def asem_new_def)

lemma asem_inv_wait: "asem_inv a \<Longrightarrow> t \<notin> set (pending a) \<Longrightarrow> asem_inv (asem_wait t a)"
  by (auto simp: asem_inv_def asem_wait_def max_def split: if_splits)

lemma asem_inv_post: "asem_inv a \<Longrightarrow> asem_inv (asem_post a)"
  by (cases "pending a") (auto simp: asem_inv_def asem_post_def max_def split: if_splits)

definition abs_sem :: "nat \<Rightarrow> sys \<Rightarrow> (chain_id \<rightharpoonup> nat list) \<Rightarrow> asem" where
  "abs_sem p s Q = \<lparr>credit = count (sems s p), pending = the (Q (SemWaitq p))\<rparr>"

section \<open>The operations on every branch\<close>

lemma sem_wait_grants:
  assumes "current_task s th = Some c" "quiet s" "count (sems s p) > 0"
  shows "fiber_sem_wait th p s = Some (Returns True,
     s\<lparr>sems := (sems s)(p := (sems s p)\<lparr>count := count (sems s p) - 1\<rparr>)\<rparr>)"
  using assms by (simp add: fiber_sem_wait_def sys_defs spin_simps)

lemma sem_wait_blocks:
  assumes r: "running s Q th d m us c" and ne: "c \<noteq> m" and qt: "quiet s"
    and n: "count (sems s p) \<le> 0" and w: "Q (SemWaitq p) = Some ws"
  shows "\<exists>s'. fiber_sem_wait th p s = Some (Switched, s') \<and>
     queues s' (Q(SemWaitq p \<mapsto> ws @ [c], ReadyList d \<mapsto> rotate1 (butlast us) @ [m])) \<and>
     current_task s' = (current_task s)(th := Some (next_up m (butlast us))) \<and>
     tcbs s' = (tcbs s)(c := (tcbs s c)\<lparr>state := state (tcbs s c) OR STATES_WAITFOR_SEMPH,
                                      resume_at := K_sem_wait\<rparr>) \<and>
     sems s' = (sems s)(p := (sems s p)\<lparr>count := count (sems s p) - 1\<rparr>) \<and>
     scps s' = scps s \<and> mutexes s' = mutexes s \<and> frame s s'"
proof -
  obtain m1 m2 where m: "node_remove (Tcb c) (mem s) = Some m1" "node_append (SemWaitq p) (Tcb c) m1 = Some m2"
    "chains link_field m2 (Q(ReadyList d \<mapsto> butlast us @ [m], SemWaitq p \<mapsto> ws @ [c]))"
    "c \<notin> set (butlast us @ [m])"
    by (rule park_spec[OF r ne _ _ w]) auto
  let ?s = "s\<lparr>sems := (sems s)(p := (sems s p)\<lparr>count := count (sems s p) - 1\<rparr>),
     mem := m2, tcbs := (tcbs s)(c := (tcbs s c)\<lparr>state := state (tcbs s c) OR STATES_WAITFOR_SEMPH\<rparr>)\<rparr>"
  have "queues ?s (Q(ReadyList d \<mapsto> butlast us @ [m], SemWaitq p \<mapsto> ws @ [c]))"
    using m(3) by (simp add: queues_def)
  from sched_parked[OF this, of th c K_sem_wait] runningD[OF r] m(4) ne
  obtain s' where "fiber_sched th K_sem_wait ?s = Some (True, s')"
     "queues s' (Q(SemWaitq p \<mapsto> ws @ [c], ReadyList d \<mapsto> rotate1 (butlast us) @ [m]))"
     "current_task s' = (current_task ?s)(th := Some (next_up m (butlast us)))"
     "tcbs s' = (tcbs ?s)(c := (tcbs ?s c)\<lparr>resume_at := K_sem_wait\<rparr>)"
     "scps s' = scps ?s" "mutexes s' = mutexes ?s" "sems s' = sems ?s" "frame ?s s'"
    by fastforce
  moreover have "fiber_sem_wait th p s = Option.bind (fiber_sched th K_sem_wait ?s)
      (\<lambda>(sw, s). Some (if sw then Switched else Returns True, s))"
    using m(1,2) runningD(3)[OF r] n qt
    by (simp add: fiber_sem_wait_def sys_defs spin_simps localReadyQProtectedExtract_def on_mem_def)
  ultimately show ?thesis by (auto simp: frame_def)
qed

lemma sem_timedwait_grants:
  assumes "current_task s th = Some c" "quiet s" "count (sems s p) > 0"
  shows "fiber_sem_timedwait th p timeout s = Some (Returns True,
     s\<lparr>sems := (sems s)(p := (sems s p)\<lparr>count := count (sems s p) - 1\<rparr>)\<rparr>)"
  using assms by (simp add: fiber_sem_timedwait_def sys_defs spin_simps)

lemma sem_timedwait_try:
  assumes "current_task s th = Some c" "quiet s" "count (sems s p) \<le> 0"
  shows "fiber_sem_timedwait th p 0 s = Some (Returns False, s)"
  using assms by (simp add: fiber_sem_timedwait_def sys_defs spin_simps)

text \<open>
  A timed wait that blocks: the task is on the wait queue and, for a positive timeout, on the watchdog
  list with its deadline; its return code is 0 until a post sets it.
\<close>

lemma sem_timedwait_blocks:
  assumes r: "running s Q th d m us c" and ne: "c \<noteq> m" and qt: "quiet s"
    and n: "count (sems s p) \<le> 0" "timeout \<noteq> 0" and w: "Q (SemWaitq p) = Some ws"
    and home: "scheddata (tcbs s c) = Some d" and L: "Q (WadogList d) = Some L"
    and free: "timeout > 0 \<longrightarrow> link_free Q c \<and> flags s c AND STATES_WAIT_TIMEOUTB = 0"
    and settled: "flags s c AND STATES_TRANSIENT = 0"
  shows "\<exists>s' L' T. fiber_sem_timedwait th p timeout s = Some (Switched, s') \<and>
     queues s' (Q(SemWaitq p \<mapsto> ws @ [c], WadogList d \<mapsto> L', ReadyList d \<mapsto> rotate1 (butlast us) @ [m])) \<and>
     armed s s' timeout c L L' \<and> retimed (tcbs s) T (set (c # L)) \<and>
     tcbs s' = T(c := (T c)\<lparr>state := state (tcbs s c) OR STATES_WAITFOR_SEMPH OR
                               (if timeout > 0 then STATES_WAIT_TIMEOUTB else 0),
                           waitingObject := SemObject p, yieldCode := 0, resume_at := K_sem_timedwait\<rparr>) \<and>
     current_task s' = (current_task s)(th := Some (next_up m (butlast us))) \<and>
     sems s' = (sems s)(p := (sems s p)\<lparr>count := count (sems s p) - 1\<rparr>) \<and> frame s s'"
proof -
  obtain m1 m2 where m: "node_remove (Tcb c) (mem s) = Some m1" "node_append (SemWaitq p) (Tcb c) m1 = Some m2"
    "chains link_field m2 (Q(ReadyList d \<mapsto> butlast us @ [m], SemWaitq p \<mapsto> ws @ [c]))"
    "c \<notin> set (butlast us @ [m])"
    by (rule park_spec[OF r ne _ _ w]) auto
  let ?Q = "Q(ReadyList d \<mapsto> butlast us @ [m], SemWaitq p \<mapsto> ws @ [c])"
  let ?b = "(tcbs s c)\<lparr>state := state (tcbs s c) OR wait_flags timeout STATES_WAITFOR_SEMPH,
      waitingObject := SemObject p, yieldCode := 0\<rparr>"
  let ?s = "s\<lparr>sems := (sems s)(p := (sems s p)\<lparr>count := count (sems s p) - 1\<rparr>),
     mem := m2, tcbs := (tcbs s)(c := ?b)\<rparr>"
  have pre: "queues ?s ?Q" "quiet ?s" "on_thread ?s ?Q th d m (butlast us)" "current_task ?s th = Some c"
    "?Q (WadogList d) = Some L" "timeout > 0 \<longrightarrow> link_free ?Q c \<and> flags s c AND STATES_WAIT_TIMEOUTB = 0"
    using m(3) qt L free runningD[OF r] ne by (auto simp: queues_def quiet_def off_chains_def on_thread_def)
  obtain s1 s' L' T where s': "arm_timeout c timeout ?s = Some s1" "fiber_sched th K_sem_timedwait s1 = Some (True, s')"
    "queues s' (?Q(WadogList d \<mapsto> L', ReadyList d \<mapsto> rotate1 (butlast us) @ [m]))"
    "armed s s' timeout c L L'" "retimed (tcbs s) T (set (c # L))"
    "tcbs s' = T(c := ?b\<lparr>delta_interval := delta_interval (T c), state := state (tcbs s c) OR STATES_WAITFOR_SEMPH OR
        (if timeout > 0 then STATES_WAIT_TIMEOUTB else 0), resume_at := K_sem_timedwait\<rparr>)"
    "current_task s' = (current_task ?s)(th := Some (next_up m (butlast us)))"
    "mutexes s' = mutexes ?s" "sems s' = sems ?s" "frame ?s s'"
    by (rule arm_and_switch[of ?s ?Q th d m "butlast us" c ?b L s timeout STATES_WAITFOR_SEMPH K_sem_timedwait])
      (use pre m(4) home settled in \<open>simp_all add: flags_def bit_masks\<close>)
  have "fiber_sem_timedwait th p timeout s = Some (Switched, s')"
    using m(1,2) runningD(3)[OF r] n qt s'(1,2)
    by (simp add: fiber_sem_timedwait_def sys_defs spin_simps localReadyQProtectedExtract_def on_mem_def)
  moreover have "?b\<lparr>delta_interval := delta_interval (T c), state := y, resume_at := k\<rparr> =
      (T c)\<lparr>state := y, waitingObject := SemObject p, yieldCode := 0, resume_at := k\<rparr>" for y k
    by (rule retimed_at[OF s'(5), of c]) (auto intro!: FibTCB.equality)
  ultimately show ?thesis using s'(3-10)
    by (intro exI[of _ s'] exI[of _ L'] exI[of _ T]) (simp add: frame_def fun_upd_twist)
qed

lemma sem_post_idle:
  assumes "quiet s" "queues s Q" "Q (SemWaitq p) = Some []"
  shows "\<exists>s'. fiber_sem_post th p s = Some (True, s') \<and> queues s' Q \<and> tcbs s' = tcbs s \<and>
     sems s' = (sems s)(p := (sems s p)\<lparr>count := count (sems s p) + 1\<rparr>) \<and>
     current_task s' = current_task s \<and> scps s' = scps s \<and> mutexes s' = mutexes s \<and> frame s s'"
  using assms extract_first_empty_spec[OF assms(2) _ assms(3)]
  by (auto simp: fiber_sem_post_def sys_defs spin_simps frame_def queues_def)

text \<open>
  A post with waiters wakes the first one: it leaves the wait queue and the watchdog list, its
  return code becomes 1, and it is ready on its own thread or globally.
\<close>

lemma sem_post_wakes:
  assumes cur: "current_task s th = Some c" and q: "quiet s" "queues s Q"
    and w: "Q (SemWaitq p) = Some (x # ws)" and wk: "wakeable s Q x"
    and one: "one_n_model s \<Longrightarrow> scheduler (tcbs s x) = scheduler (tcbs s c)"
    and near: "near = (one_n_model s \<or> scheduler (tcbs s x) = scheduler (tcbs s c))"
  shows "\<exists>s' T. fiber_sem_post th p s = Some (True, s') \<and>
     queues s' (activated near (tcbs s x) x (untimed (tcbs s x) x (Q(SemWaitq p \<mapsto> ws)))) \<and>
     retimed (tcbs s) T (- {x}) \<and> rehomed (T(x := woken_tcb STATES_WAITFOR_SEMPH (tcbs s x))) (tcbs s') near x \<and>
     sems s' = (sems s)(p := (sems s p)\<lparr>count := count (sems s p) + 1\<rparr>) \<and>
     current_task s' = current_task s \<and> mutexes s' = mutexes s \<and> frame s s'"
proof -
  obtain mm where mm: "node_extract_first (SemWaitq p) (mem s) = Some (Tcb x, mm)"
    "chains link_field mm (Q(SemWaitq p \<mapsto> ws))"
    using extract_first_spec[OF q(2) _ w] by auto
  let ?Q = "Q(SemWaitq p \<mapsto> ws)"
  let ?s = "s\<lparr>sems := (sems s)(p := (sems s p)\<lparr>count := count (sems s p) + 1\<rparr>), mem := mm,
     tcbs := (tcbs s)(x := (tcbs s x)\<lparr>state := state (tcbs s x) AND NOT STATES_WAITFOR_SEMPH, yieldCode := 1\<rparr>)\<rparr>"
  have f: "node_free ?Q x" using gone_spec[OF q(2), of "SemWaitq p" "[]" x ws] w by simp
  have pre: "queues ?s ?Q" "quiet ?s" using mm(2) q(1) by (auto simp: queues_def quiet_def)
  obtain s' T where s': "make_ready (scheduler (tcbs s c)) x ?s = Some s'"
    "queues s' (activated near (tcbs s x) x (untimed (tcbs s x) x ?Q))" "retimed (tcbs s) T (- {x})"
    "rehomed (T(x := woken_tcb STATES_WAITFOR_SEMPH (tcbs s x))) (tcbs s') near x"
    "current_task s' = current_task ?s" "mutexes s' = mutexes ?s" "sems s' = sems ?s" "frame ?s s'"
    using wake_extracted[where s = s and ?s1.0 = ?s and Q = Q and w = "SemWaitq p" and ws = ws and x = x
        and F = STATES_WAITFOR_SEMPH and sch = "scheduler (tcbs s c)" and near = near, OF pre _ _ _ f wk]
      one near wait_flag_vals by auto
  have "fiber_sem_post th p s = Some (True, s')"
    using mm(1) cur q(1) s'(1) by (cases "c = x") (simp_all add: fiber_sem_post_def sys_defs spin_simps Let_def)
  then show ?thesis using s' by (intro exI[of _ s'] exI[of _ T]) (simp add: frame_def)
qed

section \<open>Refinement of the abstract semaphore\<close>

text \<open>
  What a call of the semaphore needs of the state; \<open>waiters_ok\<close> also says that the build for one
  thread has one scheduler.
\<close>

definition waiters_ok :: "sys \<Rightarrow> (chain_id \<rightharpoonup> nat list) \<Rightarrow> nat \<Rightarrow> chain_id \<Rightarrow> bool" where
  "waiters_ok s Q c w = (Q w \<noteq> None \<and> (\<forall>x \<in> set (the (Q w)). wakeable s Q x \<and>
     (one_n_model s \<longrightarrow> scheduler (tcbs s x) = scheduler (tcbs s c))))"

definition sem_ready :: "sys \<Rightarrow> (chain_id \<rightharpoonup> nat list) \<Rightarrow> nat \<Rightarrow> nat \<Rightarrow> nat \<Rightarrow> nat list \<Rightarrow> nat \<Rightarrow> nat \<Rightarrow> bool" where
  "sem_ready s Q th d m us c p =
     (running s Q th d m us c \<and> quiet s \<and> waiters_ok s Q c (SemWaitq p))"

lemma sem_wait_refines:
  assumes "sem_ready s Q th d m us c p" "c \<noteq> m"
  shows "\<exists>r s' Q'. fiber_sem_wait th p s = Some (r, s') \<and> queues s' Q' \<and> frame s s' \<and>
     abs_sem p s' Q' = asem_wait c (abs_sem p s Q) \<and> (r = Switched) = (credit (abs_sem p s Q) \<le> 0)"
proof -
  from assms obtain ws where r: "running s Q th d m us c" "quiet s" "Q (SemWaitq p) = Some ws"
    by (auto simp: sem_ready_def waiters_ok_def)
  note rd = runningD[OF r(1)]
  show ?thesis
  proof (cases "count (sems s p) > 0")
    case True
    then show ?thesis using sem_wait_grants[OF rd(3) r(2) True] rd(1)
      by (auto simp: abs_sem_def asem_wait_def queues_def frame_def)
  next
    case False
    then have n: "count (sems s p) \<le> 0" by simp
    let ?Q = "Q(SemWaitq p \<mapsto> ws @ [c], ReadyList d \<mapsto> rotate1 (butlast us) @ [m])"
    from sem_wait_blocks[OF r(1) assms(2) r(2) n r(3)] obtain s' where s':
      "fiber_sem_wait th p s = Some (Switched, s')" "queues s' ?Q" "frame s s'"
      "sems s' = (sems s)(p := (sems s p)\<lparr>count := count (sems s p) - 1\<rparr>)" by blast
    then have "abs_sem p s' ?Q = asem_wait c (abs_sem p s Q)"
      using n r(3) by (simp add: abs_sem_def asem_wait_def)
    with s' n show ?thesis by (auto simp: abs_sem_def)
  qed
qed

lemma sem_post_refines:
  assumes "sem_ready s Q th d m us c p"
  shows "\<exists>s' Q'. fiber_sem_post th p s = Some (True, s') \<and> queues s' Q' \<and> frame s s' \<and>
     abs_sem p s' Q' = asem_post (abs_sem p s Q) \<and>
     (\<forall>x xs. pending (abs_sem p s Q) = x # xs \<longrightarrow> sem_timedwait_result x s' \<and>
        (\<exists>w L. Q' w = Some L \<and> x \<in> set L \<and> (w = GlobalReady (group (tcbs s x)) \<or> (\<exists>e. w = ReadyList e))))"
proof -
  from assms obtain ws where r: "running s Q th d m us c" "quiet s" "Q (SemWaitq p) = Some ws"
    and wk: "\<forall>x \<in> set ws. wakeable s Q x \<and> (one_n_model s \<longrightarrow> scheduler (tcbs s x) = scheduler (tcbs s c))"
    by (auto simp: sem_ready_def waiters_ok_def)
  note rd = runningD[OF r(1)]
  show ?thesis
  proof (cases ws)
    case Nil
    then have w: "Q (SemWaitq p) = Some []" using r(3) by simp
    from sem_post_idle[OF r(2) rd(1) w, of th] w show ?thesis
      by (auto simp: abs_sem_def asem_post_def intro!: exI[of _ Q])
  next
    case (Cons x xs)
    then have w: "Q (SemWaitq p) = Some (x # xs)" using r(3) by simp
    have x: "wakeable s Q x" "one_n_model s \<Longrightarrow> scheduler (tcbs s x) = scheduler (tcbs s c)"
      using wk Cons by auto
    let ?near = "one_n_model s \<or> scheduler (tcbs s x) = scheduler (tcbs s c)"
    let ?Q = "activated ?near (tcbs s x) x (untimed (tcbs s x) x (Q(SemWaitq p \<mapsto> xs)))"
    from sem_post_wakes[OF rd(3) r(2) rd(1) w x refl] obtain s' T where s':
      "fiber_sem_post th p s = Some (True, s')" "queues s' ?Q" "frame s s'"
      "rehomed (T(x := woken_tcb STATES_WAITFOR_SEMPH (tcbs s x))) (tcbs s') ?near x"
      "sems s' = (sems s)(p := (sems s p)\<lparr>count := count (sems s p) + 1\<rparr>)" by blast
    have "abs_sem p s' ?Q = asem_post (abs_sem p s Q)"
      using s'(5) w by (simp add: abs_sem_def asem_post_def)
    moreover have "sem_timedwait_result x s'"
      using rehomedD(3)[OF s'(4), of x] by (simp add: sem_timedwait_result_def)
    moreover have "\<exists>w L. ?Q w = Some L \<and> x \<in> set L \<and> (w = GlobalReady (group (tcbs s x)) \<or> (\<exists>e. w = ReadyList e))"
    proof (cases ?near)
      case True
      then show ?thesis
        by (intro exI[of _ "ReadyList (the (scheddata (tcbs s x)))"]) (auto simp: activated_def Let_def)
    next
      case False
      then show ?thesis by (intro exI[of _ "GlobalReady (group (tcbs s x))"]) (auto simp: activated_def)
    qed
    ultimately show ?thesis using s'(1-3) w by (intro exI[of _ s'] exI[of _ ?Q]) (auto simp: abs_sem_def)
  qed
qed

text \<open>A timed wait without a token: it fails at once, or the caller is queued and its timer is armed.\<close>

lemma sem_timedwait_correct:
  assumes "running s Q th d m us c" "c \<noteq> m" "quiet s" "count (sems s p) \<le> 0" "Q (SemWaitq p) = Some ws"
    and "scheddata (tcbs s c) = Some d" "Q (WadogList d) = Some L"
    and "timeout > 0 \<longrightarrow> link_free Q c \<and> flags s c AND STATES_WAIT_TIMEOUTB = 0" "flags s c AND STATES_TRANSIENT = 0"
  shows "if timeout = 0 then fiber_sem_timedwait th p timeout s = Some (Returns False, s)
     else \<exists>s' L'. fiber_sem_timedwait th p timeout s = Some (Switched, s') \<and>
       queues s' (Q(SemWaitq p \<mapsto> ws @ [c], WadogList d \<mapsto> L', ReadyList d \<mapsto> rotate1 (butlast us) @ [m])) \<and>
       armed s s' timeout c L L' \<and> count (sems s' p) = count (sems s p) - 1 \<and> \<not> sem_timedwait_result c s'"
proof (cases "timeout = 0")
  case True
  then show ?thesis using sem_timedwait_try[OF runningD(3)[OF assms(1)] assms(3,4)] by simp
next
  case False
  obtain s' L' T where r: "fiber_sem_timedwait th p timeout s = Some (Switched, s')"
    "queues s' (Q(SemWaitq p \<mapsto> ws @ [c], WadogList d \<mapsto> L', ReadyList d \<mapsto> rotate1 (butlast us) @ [m]))"
    "armed s s' timeout c L L'" "yieldCode (tcbs s' c) = 0"
    "sems s' = (sems s)(p := (sems s p)\<lparr>count := count (sems s p) - 1\<rparr>)"
    using sem_timedwait_blocks[OF assms(1-4) False assms(5-9)] by auto
  then have "count (sems s' p) = count (sems s p) - 1" "\<not> sem_timedwait_result c s'"
    by (simp_all add: sem_timedwait_result_def)
  with False r(1-3) show ?thesis by auto
qed

end
