(* ===== verification/Condition.thy ===== *)
theory Condition
  imports Mutex Semaphore
begin

text \<open>
  Condition variables (\<^verbatim>\<open>src/task.c\<close>).  A wait queues the caller, releases the mutex and
  gives up the processor; the code behind \<open>fiber_sched\<close>, which takes the mutex again, is
  \<open>cond_resume\<close>.  Signal wakes the first waiter, broadcast all of them in order.
\<close>

section \<open>The operations\<close>

definition fiber_cond_init :: "nat \<Rightarrow> sys \<Rightarrow> int \<times> sys" where
  "fiber_cond_init p s =
     (let s = s\<lparr>locks := (locks s)(CondLock p := False)\<rparr>;
          s = s\<lparr>mem := chain_init_empty (CondWaitq p) (mem s)\<rparr>
      in (0, s))"

text \<open>What the wait returns in the end: the timed one tells whether it was woken by a signal.\<close>

definition cond_result :: "bool \<Rightarrow> nat \<Rightarrow> sys \<Rightarrow> bool" where
  "cond_result timed the_task s = (timed \<longrightarrow> yieldCode (tcbs s the_task) = 1)"

text \<open>
  The end of \<open>fiber_cond_wait\<close> and \<open>fiber_cond_timedwait\<close>, which runs when the task is
  switched to again: take the mutex, then return.  When the mutex is taken, the task waits once
  more, and returns from there.
\<close>

definition cond_resume :: "nat \<Rightarrow> bool \<Rightarrow> nat \<Rightarrow> nat \<Rightarrow> sys \<Rightarrow> (bool outcome \<times> sys) option" where
  "cond_resume th timed the_task q s = do {
     (r, s) \<leftarrow> fiber_mutex_lock th q s;
     case r of
       Switched \<Rightarrow> Some (Switched, upd_tcb the_task (\<lambda>b. b\<lparr>resume_at := K_cond_relock timed\<rparr>) s)
     | Returns _ \<Rightarrow> Some (Returns (cond_result timed the_task s), s)
   }"

definition fiber_cond_wait :: "nat \<Rightarrow> nat \<Rightarrow> nat \<Rightarrow> sys \<Rightarrow> (bool outcome \<times> sys) option" where
  "fiber_cond_wait th p q s = do {
     the_task \<leftarrow> current_task s th;
     s \<leftarrow> spin_lock (CondLock p) s;
     s \<leftarrow> localReadyQProtectedExtract the_task s;
     s \<leftarrow> on_mem (node_append (CondWaitq p) (Tcb the_task)) s;
     let s = set_flags STATES_WAITFOR_CONDV the_task s;
     let s = spin_unlock (CondLock p) s;
     (_, s) \<leftarrow> fiber_mutex_unlock th q s;
     (sw, s) \<leftarrow> fiber_sched th (K_cond_wait q) s;
     if sw then Some (Switched, s) else cond_resume th False the_task q s
   }"

definition fiber_cond_timedwait :: "nat \<Rightarrow> nat \<Rightarrow> nat \<Rightarrow> int \<Rightarrow> sys \<Rightarrow> (bool outcome \<times> sys) option" where
  "fiber_cond_timedwait th p q timeout s = do {
     the_task \<leftarrow> current_task s th;
     s \<leftarrow> spin_lock (CondLock p) s;
     if timeout = 0 then Some (Returns False, spin_unlock (CondLock p) s)
     else do {
       s \<leftarrow> localReadyQProtectedExtract the_task s;
       s \<leftarrow> on_mem (node_append (CondWaitq p) (Tcb the_task)) s;
       let s = set_flags (wait_flags timeout STATES_WAITFOR_CONDV) the_task s;
       let s = upd_tcb the_task (\<lambda>b. b\<lparr>waitingObject := CondObject p, yieldCode := 0\<rparr>) s;
       let s = spin_unlock (CondLock p) s;
       s \<leftarrow> arm_timeout the_task timeout s;
       (_, s) \<leftarrow> fiber_mutex_unlock th q s;
       (sw, s) \<leftarrow> fiber_sched th (K_cond_timedwait q) s;
       if sw then Some (Switched, s) else cond_resume th True the_task q s
     }
   }"

definition fiber_cond_signal :: "nat \<Rightarrow> nat \<Rightarrow> sys \<Rightarrow> (bool \<times> sys) option" where
  "fiber_cond_signal th p s = do {
     s \<leftarrow> spin_lock (CondLock p) s;
     (r, m) \<leftarrow> node_extract_first (CondWaitq p) (mem s);
     let s = s\<lparr>mem := m\<rparr>;
     case as_task r of
       None \<Rightarrow> Some (True, spin_unlock (CondLock p) s)
     | Some the_first \<Rightarrow> do {
         let s = clear_flags STATES_WAITFOR_CONDV the_first s;
         let s = upd_tcb the_first (\<lambda>b. b\<lparr>yieldCode := 1\<rparr>) s;
         let s = spin_unlock (CondLock p) s;
         the_task \<leftarrow> current_task s th;
         s \<leftarrow> make_ready (scheduler (tcbs s the_task)) the_first s;
         Some (True, s)
       }
   }"

text \<open>The two loops of \<open>fiber_cond_broadcast\<close>, each reading the successor before its body.\<close>

partial_function (option) broadcast_collect :: "nat \<Rightarrow> chain_id ref \<Rightarrow> sys \<Rightarrow> sys option" where
  "broadcast_collect th the_node s =
     (case chain_next Fld_node the_node (mem s) of
        None \<Rightarrow> None
      | Some the_nxt \<Rightarrow>
         if the_nxt = NULL then Some s
         else case as_task the_node of
           None \<Rightarrow> None
         | Some the_tcb \<Rightarrow>
            Option.bind (on_mem (node_remove (Tcb the_tcb)) s) (\<lambda>s.
            Option.bind (on_mem (node_append (LocalChain th) (Tcb the_tcb)) s) (\<lambda>s.
            broadcast_collect th the_nxt
              (upd_tcb the_tcb (\<lambda>b. b\<lparr>yieldCode := 1\<rparr>) (clear_flags STATES_WAITFOR_CONDV the_tcb s)))))"

partial_function (option) broadcast_wake :: "nat option \<Rightarrow> chain_id ref \<Rightarrow> sys \<Rightarrow> sys option" where
  "broadcast_wake my_sched the_node s =
     (case chain_next Fld_node the_node (mem s) of
        None \<Rightarrow> None
      | Some the_nxt \<Rightarrow>
         if the_nxt = NULL then Some s
         else case as_task the_node of
           None \<Rightarrow> None
         | Some the_tcb \<Rightarrow>
            Option.bind (on_mem (node_remove (Tcb the_tcb)) s) (\<lambda>s.
            Option.bind (make_ready my_sched the_tcb s) (\<lambda>s. broadcast_wake my_sched the_nxt s)))"

definition fiber_cond_broadcast :: "nat \<Rightarrow> nat \<Rightarrow> sys \<Rightarrow> (bool \<times> sys) option" where
  "fiber_cond_broadcast th p s = do {
     the_task \<leftarrow> current_task s th;
     let s = s\<lparr>mem := chain_init_empty (LocalChain th) (mem s)\<rparr>;
     s \<leftarrow> spin_lock (CondLock p) s;
     s \<leftarrow> broadcast_collect th (chain_first (CondWaitq p) (mem s)) s;
     let s = spin_unlock (CondLock p) s;
     s \<leftarrow> broadcast_wake (scheduler (tcbs s the_task)) (chain_first (LocalChain th) (mem s)) s;
     Some (True, s)
   }"

definition fiber_cond_destroy :: "nat \<Rightarrow> sys \<Rightarrow> bool \<times> sys" where
  "fiber_cond_destroy p s = (True, s)"

section \<open>Waiting\<close>

text \<open>
  Between releasing the mutex and the next task running there is no gap in which a signal could be
  lost: when another task runs, the caller is on the wait queue and the mutex has made its
  abstract unlock step.
\<close>

lemma cond_wait_spec:
  assumes r: "running s Q th d m us c" and ne: "c \<noteq> m" and qt: "quiet s" and nn: "\<not> one_n_model s"
    and w: "Q (CondWaitq p) = Some ws" and mw: "Q (MutexWaitq q) = Some ms"
    and inv: "amutex_inv (abs_mutex q s Q)" and h: "\<forall>x \<in> set ms. homed s Q x"
  shows "\<exists>s' Q'. fiber_cond_wait th p q s = Some (Switched, s') \<and> queues s' Q' \<and> frame s s' \<and>
     Q' (CondWaitq p) = Some (ws @ [c]) \<and> abs_mutex q s' Q' = amutex_unlock c (abs_mutex q s Q) \<and>
     (\<exists>n. current_task s' = (current_task s)(th := Some n) \<and> n \<noteq> c) \<and> sems s' = sems s \<and>
     tcbs s' c = (tcbs s c)\<lparr>state := state (tcbs s c) OR STATES_WAITFOR_CONDV, resume_at := K_cond_wait q\<rparr>"
proof -
  let ?Q = "Q(ReadyList d \<mapsto> butlast us @ [m], CondWaitq p \<mapsto> ws @ [c])"
  obtain m1 m2 where m: "node_remove (Tcb c) (mem s) = Some m1" "node_append (CondWaitq p) (Tcb c) m1 = Some m2"
    "chains link_field m2 ?Q" "c \<notin> set (butlast us @ [m])"
    by (rule park_spec[OF r ne _ _ w]) auto
  let ?s = "s\<lparr>mem := m2, tcbs := (tcbs s)(c := (tcbs s c)\<lparr>state := state (tcbs s c) OR STATES_WAITFOR_CONDV\<rparr>)\<rparr>"
  note rd = runningD[OF r]
  have cw: "c \<notin> set ms" by (rule running_not_waiting[OF r _ _ mw]) auto
  have mm: "m \<notin> set ms" using queues_disjoint[OF rd(1,6) mw, of m] by auto
  have ab: "abs_mutex q ?s ?Q = abs_mutex q s Q" by (simp add: abs_mutex_def)
  have "homed ?s ?Q x" if "homed s Q x" for x
    using that rd(6) by (rule homed_cong) auto
  then have pre: "current_task ?s th = Some c" "quiet ?s" "queues ?s ?Q" "?Q (MutexWaitq q) = Some ms"
    "amutex_inv (abs_mutex q ?s ?Q)" "\<forall>x \<in> set ms. homed ?s ?Q x"
    using rd qt m(3) mw inv ab h by (auto simp: quiet_def queues_def)
  obtain s1 Q1 b where s1: "mutex_unlock th q ?s = Some (b, s1)" "queues s1 Q1" "frame ?s s1"
    "abs_mutex q s1 Q1 = amutex_unlock c (abs_mutex q s Q)" "grows ?Q Q1 (set ms)"
    "\<forall>k. k \<noteq> MutexWaitq q \<longrightarrow> (\<forall>d. k \<noteq> ReadyList d) \<longrightarrow> (\<forall>g. k \<noteq> GlobalReady g) \<longrightarrow> Q1 k = ?Q k"
    "\<forall>u. u \<notin> set ms \<longrightarrow> tcbs s1 u = tcbs ?s u" "current_task s1 = current_task ?s" "sems s1 = sems ?s"
    using mutex_unlock_effect[OF pre] ab by force
  have "?Q (ReadyList d) = Some (butlast us @ [m])" by simp
  with s1(5) obtain vs where vs: "Q1 (ReadyList d) = Some (vs @ [m])" "set vs \<subseteq> set (butlast us) \<union> set ms"
    unfolding grows_def by blast
  then have cv: "c \<notin> set (vs @ [m])" using m(4) cw ne by auto
  have th: "on_thread s1 Q1 th d m vs" "current_task s1 th = Some c"
    using s1(3,7,8) vs rd mm ne by (auto simp: on_thread_def frame_def)
  obtain s' where s': "fiber_sched th (K_cond_wait q) s1 = Some (True, s')"
     "queues s' (Q1(ReadyList d \<mapsto> rotate1 vs @ [m]))"
     "current_task s' = (current_task s1)(th := Some (next_up m vs))"
     "tcbs s' = (tcbs s1)(c := (tcbs s1 c)\<lparr>resume_at := K_cond_wait q\<rparr>)"
     "mutexes s' = mutexes s1" "sems s' = sems s1" "frame s1 s'"
    using fiber_sched_away[OF s1(2) th cv, of "K_cond_wait q"] by blast
  have op: "fiber_cond_wait th p q s = Some (Switched, s')"
    using m(1,2) rd(3) qt nn s1(1) s'(1)
    by (simp add: fiber_cond_wait_def sys_defs spin_simps localReadyQProtectedExtract_def on_mem_def
        fiber_mutex_unlock_def Let_def)
  have "next_up m vs \<noteq> c" using cv by (cases vs) (auto simp: next_up_def)
  moreover have "tcbs s1 c = tcbs ?s c" using s1(7) cw by blast
  moreover have "abs_mutex q s' (Q1(ReadyList d \<mapsto> rotate1 vs @ [m])) = abs_mutex q s1 Q1"
    using s'(5) by (simp add: abs_mutex_def)
  moreover have "Q1 (CondWaitq p) = Some (ws @ [c])" using s1(6) by simp
  moreover have "frame s s'" using frame_trans[OF s1(3) s'(7)] by (simp add: frame_def)
  ultimately show ?thesis using op s' s1(4,8,9)
    by (intro exI[of _ s'] exI[of _ "Q1(ReadyList d \<mapsto> rotate1 vs @ [m])"]) auto
qed

text \<open>With one thread the mutex calls are empty; the caller is queued and another task runs.\<close>

lemma cond_wait_one_n:
  assumes r: "running s Q th d m us c" and ne: "c \<noteq> m" and qt: "quiet s" and one: "one_n_model s"
    and w: "Q (CondWaitq p) = Some ws"
  shows "\<exists>s'. fiber_cond_wait th p q s = Some (Switched, s') \<and>
     queues s' (Q(ReadyList d \<mapsto> rotate1 (butlast us) @ [m], CondWaitq p \<mapsto> ws @ [c])) \<and> frame s s' \<and>
     current_task s' = (current_task s)(th := Some (next_up m (butlast us))) \<and> next_up m (butlast us) \<noteq> c \<and>
     sems s' = sems s \<and> mutexes s' = mutexes s \<and>
     tcbs s' c = (tcbs s c)\<lparr>state := state (tcbs s c) OR STATES_WAITFOR_CONDV, resume_at := K_cond_wait q\<rparr>"
proof -
  let ?Q = "Q(ReadyList d \<mapsto> butlast us @ [m], CondWaitq p \<mapsto> ws @ [c])"
  obtain m1 m2 where m: "node_remove (Tcb c) (mem s) = Some m1" "node_append (CondWaitq p) (Tcb c) m1 = Some m2"
    "chains link_field m2 ?Q" "c \<notin> set (butlast us @ [m])"
    by (rule park_spec[OF r ne _ _ w]) auto
  let ?s = "s\<lparr>mem := m2, tcbs := (tcbs s)(c := (tcbs s c)\<lparr>state := state (tcbs s c) OR STATES_WAITFOR_CONDV\<rparr>)\<rparr>"
  note rd = runningD[OF r]
  have th: "queues ?s ?Q" "on_thread ?s ?Q th d m (butlast us)" "current_task ?s th = Some c"
    using m(3) rd ne by (auto simp: queues_def on_thread_def)
  obtain s' where s': "fiber_sched th (K_cond_wait q) ?s = Some (True, s')"
     "queues s' (?Q(ReadyList d \<mapsto> rotate1 (butlast us) @ [m]))"
     "current_task s' = (current_task ?s)(th := Some (next_up m (butlast us)))"
     "tcbs s' = (tcbs ?s)(c := (tcbs ?s c)\<lparr>resume_at := K_cond_wait q\<rparr>)"
     "mutexes s' = mutexes ?s" "sems s' = sems ?s" "frame ?s s'"
    using fiber_sched_away[OF th m(4), of "K_cond_wait q"] by blast
  have op: "fiber_cond_wait th p q s = Some (Switched, s')"
    using m(1,2) rd(3) qt one s'(1)
    by (simp add: fiber_cond_wait_def sys_defs spin_simps localReadyQProtectedExtract_def on_mem_def
        fiber_mutex_unlock_def Let_def)
  have nx: "next_up m (butlast us) \<noteq> c" using m(4) by (cases "butlast us") (auto simp: next_up_def)
  have "?Q(ReadyList d \<mapsto> rotate1 (butlast us) @ [m]) = Q(ReadyList d \<mapsto> rotate1 (butlast us) @ [m], CondWaitq p \<mapsto> ws @ [c])"
    by (auto simp: fun_eq_iff)
  moreover have "frame s s'" using s'(7) by (simp add: frame_def)
  ultimately show ?thesis using op s' nx by (intro exI[of _ s']) simp
qed

text \<open>Resuming: a free mutex is taken before the wait returns.\<close>

lemma cond_resume_takes:
  assumes "current_task s th = Some c" "quiet s" "holder (mutexes s q) = None" "\<not> one_n_model s"
  shows "cond_resume th timed c q s = Some (Returns (cond_result timed c s),
     s\<lparr>mutexes := (mutexes s)(q := (mutexes s q)\<lparr>holder := Some c, reentries := 1\<rparr>)\<rparr>)"
  using mutex_lock_free[OF assms(1-3)] assms(4)
  by (simp add: cond_resume_def fiber_mutex_lock_def cond_result_def)

section \<open>Signal\<close>

lemma cond_signal_idle:
  assumes "quiet s" "queues s Q" "Q (CondWaitq p) = Some []"
  shows "\<exists>s'. fiber_cond_signal th p s = Some (True, s') \<and> queues s' Q \<and> tcbs s' = tcbs s \<and>
     current_task s' = current_task s \<and> scps s' = scps s \<and> mutexes s' = mutexes s \<and> sems s' = sems s \<and> frame s s'"
  using assms extract_first_empty_spec[OF assms(2) _ assms(3)]
  by (auto simp: fiber_cond_signal_def sys_defs spin_simps frame_def queues_def)

lemma cond_signal_wakes:
  assumes cur: "current_task s th = Some c" and q: "quiet s" "queues s Q"
    and w: "Q (CondWaitq p) = Some (x # ws)" and wk: "wakeable s Q x"
    and one: "one_n_model s \<Longrightarrow> scheduler (tcbs s x) = scheduler (tcbs s c)"
    and near: "near = (one_n_model s \<or> scheduler (tcbs s x) = scheduler (tcbs s c))"
  shows "\<exists>s' T. fiber_cond_signal th p s = Some (True, s') \<and>
     queues s' (activated near (tcbs s x) x (untimed (tcbs s x) x (Q(CondWaitq p \<mapsto> ws)))) \<and>
     retimed (tcbs s) T (- {x}) \<and> rehomed (T(x := woken_tcb STATES_WAITFOR_CONDV (tcbs s x))) (tcbs s') near x \<and>
     current_task s' = current_task s \<and> mutexes s' = mutexes s \<and> sems s' = sems s \<and> frame s s'"
proof -
  obtain mm where mm: "node_extract_first (CondWaitq p) (mem s) = Some (Tcb x, mm)"
    "chains link_field mm (Q(CondWaitq p \<mapsto> ws))"
    using extract_first_spec[OF q(2) _ w] by auto
  let ?Q = "Q(CondWaitq p \<mapsto> ws)"
  let ?s = "s\<lparr>mem := mm,
     tcbs := (tcbs s)(x := (tcbs s x)\<lparr>state := state (tcbs s x) AND NOT STATES_WAITFOR_CONDV, yieldCode := 1\<rparr>)\<rparr>"
  have f: "node_free ?Q x" using gone_spec[OF q(2), of "CondWaitq p" "[]" x ws] w by simp
  have pre: "queues ?s ?Q" "quiet ?s" using mm(2) q(1) by (auto simp: queues_def quiet_def)
  obtain s' T where s': "make_ready (scheduler (tcbs s c)) x ?s = Some s'"
    "queues s' (activated near (tcbs s x) x (untimed (tcbs s x) x ?Q))" "retimed (tcbs s) T (- {x})"
    "rehomed (T(x := woken_tcb STATES_WAITFOR_CONDV (tcbs s x))) (tcbs s') near x"
    "current_task s' = current_task ?s" "mutexes s' = mutexes ?s" "sems s' = sems ?s" "frame ?s s'"
    using wake_extracted[where s = s and ?s1.0 = ?s and Q = Q and w = "CondWaitq p" and ws = ws and x = x
        and F = STATES_WAITFOR_CONDV and sch = "scheduler (tcbs s c)" and near = near, OF pre _ _ _ f wk]
      one near wait_flag_vals by auto
  have "fiber_cond_signal th p s = Some (True, s')"
    using mm(1) cur q(1) s'(1) by (cases "c = x") (simp_all add: fiber_cond_signal_def sys_defs spin_simps Let_def)
  then show ?thesis using s' by (intro exI[of _ s'] exI[of _ T]) (simp add: frame_def)
qed

section \<open>Broadcast\<close>

definition collected :: "nat list \<Rightarrow> (nat \<Rightarrow> FibTCB) \<Rightarrow> (nat \<Rightarrow> FibTCB)" where
  "collected ws T = (\<lambda>u. if u \<in> set ws
     then (T u)\<lparr>state := state (T u) AND NOT STATES_WAITFOR_CONDV, yieldCode := 1\<rparr> else T u)"

lemma node_next_spec:
  assumes "queues s Q" "link_field c = Fld_node" "Q c = Some (xs @ t # ys)"
  shows "chain_next Fld_node (Tcb t) (mem s) = Some (right_of c ys)"
  using chain_neighbours(2)[of Fld_node "mem s" c xs t ys] chains_is_chain[of link_field "mem s" Q c] assms
  by (simp add: queues_def)

lemma node_end_spec:
  assumes "queues s Q" "link_field c = Fld_node" "Q c = Some xs"
  shows "chain_next Fld_node (right_of c []) (mem s) = Some NULL"
  using chain_next_end(1)[of Fld_node "mem s" c xs] chains_is_chain[of link_field "mem s" Q c] assms
  by (simp add: queues_def)

lemma broadcast_collect_spec:
  assumes "queues s Q" "Q (CondWaitq p) = Some ws" "Q (LocalChain th) = Some ls"
  shows "\<exists>s'. broadcast_collect th (right_of (CondWaitq p) ws) s = Some s' \<and>
     queues s' (Q(CondWaitq p \<mapsto> [], LocalChain th \<mapsto> ls @ ws)) \<and> tcbs s' = collected ws (tcbs s) \<and>
     current_task s' = current_task s \<and> scps s' = scps s \<and> mutexes s' = mutexes s \<and> sems s' = sems s \<and> frame s s'"
  using assms
proof (induction ws arbitrary: s Q ls)
  case Nil
  then show ?case using node_end_spec[OF Nil(1) _ Nil(2)]
    by (subst broadcast_collect.simps) (auto simp: collected_def map_upd_triv)
next
  case (Cons x ws)
  note q = Cons.prems(1)
  have nx: "chain_next Fld_node (Tcb x) (mem s) = Some (right_of (CondWaitq p) ws)"
    using node_next_spec[OF q, of "CondWaitq p" "[]" x ws] Cons.prems(2) by simp
  have cw: "Q (CondWaitq p) = Some ([] @ x # ws)" using Cons.prems(2) by simp
  obtain m1 m2 where m: "node_remove (Tcb x) (mem s) = Some m1" "node_append (LocalChain th) (Tcb x) m1 = Some m2"
    "chains link_field m2 (Q(CondWaitq p \<mapsto> [] @ ws, LocalChain th \<mapsto> ls @ [x]))"
    using linkq.move_tail[where k = link_field and f = Fld_node, OF q[unfolded queues_def] _ _ _ cw Cons.prems(3)]
    by (auto simp: node_remove_def node_append_def)
  let ?s = "upd_tcb x (\<lambda>b. b\<lparr>yieldCode := 1\<rparr>) (clear_flags STATES_WAITFOR_CONDV x (s\<lparr>mem := m2\<rparr>))"
  let ?Q = "Q(CondWaitq p \<mapsto> ws, LocalChain th \<mapsto> ls @ [x])"
  have xw: "x \<notin> set ws" using queues_distinct[OF q Cons.prems(2)] by simp
  have pre: "queues ?s ?Q" "?Q (CondWaitq p) = Some ws" "?Q (LocalChain th) = Some (ls @ [x])"
    using m(3) by (simp_all add: clear_flags_def)
  obtain s' where s': "broadcast_collect th (right_of (CondWaitq p) ws) ?s = Some s'"
     "queues s' (?Q(CondWaitq p \<mapsto> [], LocalChain th \<mapsto> (ls @ [x]) @ ws))" "tcbs s' = collected ws (tcbs ?s)"
     "current_task s' = current_task ?s" "scps s' = scps ?s" "mutexes s' = mutexes ?s" "sems s' = sems ?s" "frame ?s s'"
    using Cons.IH[OF pre] by blast
  have "?Q(CondWaitq p \<mapsto> [], LocalChain th \<mapsto> (ls @ [x]) @ ws) = Q(CondWaitq p \<mapsto> [], LocalChain th \<mapsto> ls @ x # ws)"
    by (simp add: fun_upd_twist)
  moreover have "collected ws (tcbs ?s) = collected (x # ws) (tcbs s)"
    using xw by (auto simp: collected_def sys_defs fun_eq_iff)
  ultimately show ?case using s' nx m(1,2)
    by (subst broadcast_collect.simps) (simp add: on_mem_def sys_defs frame_def)
qed

text \<open>The queues after one waiter has been woken, and after a list of them has.\<close>

definition wake_one :: "(nat \<Rightarrow> bool) \<Rightarrow> (nat \<Rightarrow> FibTCB) \<Rightarrow> nat \<Rightarrow> (chain_id \<rightharpoonup> nat list) \<Rightarrow> (chain_id \<rightharpoonup> nat list)" where
  "wake_one near T x Q = activated (near x) (T x) x (untimed (T x) x Q)"

lemma wake_one_cong:
  "near x = near' x \<Longrightarrow> state (T x) = state (T' x) \<Longrightarrow> scheddata (T x) = scheddata (T' x) \<Longrightarrow> group (T x) = group (T' x) \<Longrightarrow>
     wake_one near T x = wake_one near' T' x"
  by (simp add: wake_one_def activated_def untimed_def fun_eq_iff)

lemma wake_one_local [simp]: "wake_one near T x Q (LocalChain th) = Q (LocalChain th)"
  by (simp add: wake_one_def)

lemma wakeable_after:
  assumes u: "wakeable s Q u" "u \<noteq> x" and x: "homed s Q x"
    and T: "retimed (tcbs s) T (- {x})" "rehomed (T(x := b)) (tcbs s') nr x" and nr: "nr = near x"
    and Q': "Q' = wake_one near (tcbs s) x Q"
  shows "wakeable s' Q' u"
proof -
  have tu: "state (tcbs s' u) = state (tcbs s u)" "scheduler (tcbs s' u) = scheduler (tcbs s u)"
    "scheddata (tcbs s' u) = scheddata (tcbs s u)" "group (tcbs s' u) = group (tcbs s u)"
    using rehomedD(1)[OF T(2) u(2)] retimedD[OF T(1), of u] u(2) by simp_all
  from u(1) obtain c d us gs where c: "scheduler (tcbs s u) = Some c" "scheddata (tcbs s u) = Some d"
    "Q (ReadyList d) = Some (us @ [c])" "Q (GlobalReady (group (tcbs s u))) = Some gs"
    by (auto simp: wakeable_def homed_def)
  have "\<exists>us'. Q' (ReadyList d) = Some (us' @ [c])" "\<exists>gs'. Q' (GlobalReady (group (tcbs s u))) = Some gs'"
    using c(3,4) x by (auto simp: Q' wake_one_def activated_def untimed_def homed_def Let_def)
  moreover have "\<exists>L. Q' (WadogList d) = Some L \<and> u \<in> set L" if "Q (WadogList d) = Some M" "u \<in> set M" for M
    using that u(2) by (auto simp: Q' wake_one_def activated_def untimed_def Let_def)
  ultimately show ?thesis using u(1) c(1,2) tu by (auto simp: wakeable_def homed_def flags_def)
qed

lemma wakeable_cong:
  "wakeable s Q x \<Longrightarrow> (\<And>d. Q' (ReadyList d) = Q (ReadyList d)) \<Longrightarrow> (\<And>d. Q' (WadogList d) = Q (WadogList d)) \<Longrightarrow>
     (\<And>g. Q' (GlobalReady g) = Q (GlobalReady g)) \<Longrightarrow> tcbs s' = tcbs s \<Longrightarrow> wakeable s' Q' x"
  by (auto simp: wakeable_def homed_def flags_def)

lemma broadcast_wake_first:
  assumes q: "queues s Q" "quiet s" and lc: "Q (LocalChain th) = Some (x # ls)" and wk: "\<forall>u \<in> set (x # ls). wakeable s Q u"
    and one: "one_n_model s \<longrightarrow> scheduler (tcbs s x) = sch"
    and near: "near = (\<lambda>x. one_n_model s \<or> scheduler (tcbs s x) = sch)"
  obtains m1 s2 where "chain_next Fld_node (Tcb x) (mem s) = Some (right_of (LocalChain th) ls)"
    "on_mem (node_remove (Tcb x)) s = Some (s\<lparr>mem := m1\<rparr>)" "make_ready sch x (s\<lparr>mem := m1\<rparr>) = Some s2"
    "queues s2 (wake_one near (tcbs s) x (Q(LocalChain th \<mapsto> ls)))" "frame s s2"
    "\<forall>u \<in> set ls. wakeable s2 (wake_one near (tcbs s) x (Q(LocalChain th \<mapsto> ls))) u"
    "\<forall>u. u \<noteq> x \<longrightarrow> state (tcbs s2 u) = state (tcbs s u) \<and> scheduler (tcbs s2 u) = scheduler (tcbs s u) \<and>
        scheddata (tcbs s2 u) = scheddata (tcbs s u) \<and> group (tcbs s2 u) = group (tcbs s u)"
    "\<forall>u. yieldCode (tcbs s2 u) = yieldCode (tcbs s u)"
    "state (tcbs s2 x) = state (tcbs s x) AND NOT STATES_WAIT_TIMEOUTB"
    "current_task s2 = current_task s" "mutexes s2 = mutexes s" "sems s2 = sems s" "x \<notin> set ls"
proof -
  have cw: "Q (LocalChain th) = Some ([] @ x # ls)" using lc by simp
  have nx: "chain_next Fld_node (Tcb x) (mem s) = Some (right_of (LocalChain th) ls)"
    using node_next_spec[OF q(1) _ cw] by simp
  let ?Q = "Q(LocalChain th \<mapsto> ls)"
  obtain m1 where m1: "on_mem (node_remove (Tcb x)) s = Some (s\<lparr>mem := m1\<rparr>)" "chains link_field m1 ?Q"
    using extract_spec[OF q(1) _ cw] by (auto simp: localReadyQProtectedExtract_def)
  have f: "node_free ?Q x" using gone_spec[OF q(1) _ cw] by simp
  let ?s = "s\<lparr>mem := m1\<rparr>"
  have wk1: "wakeable ?s ?Q u" if "u \<in> set (x # ls)" for u
    using wk that by (intro wakeable_cong[of s Q u ?Q ?s]) auto
  have pre: "queues ?s ?Q" "quiet ?s" using m1(2) q(2) by (auto simp: quiet_def)
  have nr: "near x = (one_n_model ?s \<or> scheduler (tcbs ?s x) = sch)" using near by simp
  have one1: "one_n_model ?s \<Longrightarrow> scheduler (tcbs ?s x) = sch" using one by simp
  obtain s2 T where s2: "make_ready sch x ?s = Some s2"
    "queues s2 (activated (near x) (tcbs ?s x) x (untimed (tcbs ?s x) x ?Q))" "retimed (tcbs ?s) T (- {x})"
    "rehomed (T(x := (tcbs ?s x)\<lparr>state := state (tcbs ?s x) AND NOT STATES_WAIT_TIMEOUTB\<rparr>)) (tcbs s2) (near x) x"
    "current_task s2 = current_task ?s" "mutexes s2 = mutexes ?s" "sems s2 = sems ?s" "frame ?s s2"
    using make_ready_spec[OF pre wk1 f one1 nr] by auto
  have xl: "x \<notin> set ls" using queues_distinct[OF q(1) lc] by simp
  have "wakeable s2 (wake_one near (tcbs s) x ?Q) u" if u: "u \<in> set ls" for u
    using wakeable_after[where near = near, OF wk1 _ _ s2(3,4) refl, of u "wake_one near (tcbs s) x ?Q"] wk1[of x] u xl
    by (auto simp: wakeable_def)
  moreover have "state (tcbs s2 u) = state (tcbs s u) \<and> scheduler (tcbs s2 u) = scheduler (tcbs s u) \<and>
      scheddata (tcbs s2 u) = scheddata (tcbs s u) \<and> group (tcbs s2 u) = group (tcbs s u)" if "u \<noteq> x" for u
    using rehomedD(1)[OF s2(4) that] retimedD[OF s2(3), of u] that by simp
  moreover have "yieldCode (tcbs s2 u) = yieldCode (tcbs s u)" for u
    using rehomedD(3)[OF s2(4), of u] retimedD(6)[OF s2(3), of u] by (cases "u = x") simp_all
  moreover have "state (tcbs s2 x) = state (tcbs s x) AND NOT STATES_WAIT_TIMEOUTB"
    using rehomedD(2)[OF s2(4), of x] by simp
  ultimately show ?thesis using that[OF nx m1(1) s2(1)] s2(2,5-8) xl by (simp add: wake_one_def frame_def)
qed

lemma broadcast_wake_spec:
  assumes "queues s Q" "quiet s" "Q (LocalChain th) = Some ls" "\<forall>x \<in> set ls. wakeable s Q x"
    and "one_n_model s \<longrightarrow> (\<forall>x \<in> set ls. scheduler (tcbs s x) = sch)"
    and "near = (\<lambda>x. one_n_model s \<or> scheduler (tcbs s x) = sch)"
  shows "\<exists>s'. broadcast_wake sch (right_of (LocalChain th) ls) s = Some s' \<and>
     queues s' (fold (wake_one near (tcbs s)) ls (Q(LocalChain th \<mapsto> []))) \<and>
     (\<forall>u. yieldCode (tcbs s' u) = yieldCode (tcbs s u) \<and>
          state (tcbs s' u) = (if u \<in> set ls then state (tcbs s u) AND NOT STATES_WAIT_TIMEOUTB else state (tcbs s u))) \<and>
     current_task s' = current_task s \<and> mutexes s' = mutexes s \<and> sems s' = sems s \<and> frame s s'"
  using assms
proof (induction ls arbitrary: s Q near)
  case Nil
  then show ?case using node_end_spec[OF Nil(1) _ Nil(3)]
    by (subst broadcast_wake.simps) (auto simp: map_upd_triv)
next
  case (Cons x ls)
  note q = Cons.prems(1,2) and one = Cons.prems(5) and near = Cons.prems(6)
  let ?Q2 = "wake_one near (tcbs s) x (Q(LocalChain th \<mapsto> ls))"
  have onex: "one_n_model s \<longrightarrow> scheduler (tcbs s x) = sch" using one by simp
  obtain m1 s2 where s2: "chain_next Fld_node (Tcb x) (mem s) = Some (right_of (LocalChain th) ls)"
    "on_mem (node_remove (Tcb x)) s = Some (s\<lparr>mem := m1\<rparr>)" "make_ready sch x (s\<lparr>mem := m1\<rparr>) = Some s2"
    "queues s2 ?Q2" "frame s s2" "\<forall>u \<in> set ls. wakeable s2 ?Q2 u"
    and keep: "\<forall>u. u \<noteq> x \<longrightarrow> state (tcbs s2 u) = state (tcbs s u) \<and> scheduler (tcbs s2 u) = scheduler (tcbs s u) \<and>
        scheddata (tcbs s2 u) = scheddata (tcbs s u) \<and> group (tcbs s2 u) = group (tcbs s u)"
      "\<forall>u. yieldCode (tcbs s2 u) = yieldCode (tcbs s u)" "state (tcbs s2 x) = state (tcbs s x) AND NOT STATES_WAIT_TIMEOUTB"
      "current_task s2 = current_task s" "mutexes s2 = mutexes s" "sems s2 = sems s" "x \<notin> set ls"
    by (rule broadcast_wake_first[OF q Cons.prems(3,4) onex near])
  note fr = s2(5)
  have xm: "\<And>u. u \<in> set ls \<Longrightarrow> u \<noteq> x" using keep(7) by auto
  have "quiet s2" using frame_quiet[OF fr q(2)] .
  moreover have "?Q2 (LocalChain th) = Some ls" by simp
  moreover have "one_n_model s2 \<longrightarrow> (\<forall>u \<in> set ls. scheduler (tcbs s2 u) = sch)"
    using one fr keep(1) xm by (auto simp: frame_def)
  ultimately obtain s' where s': "broadcast_wake sch (right_of (LocalChain th) ls) s2 = Some s'"
     "queues s' (fold (wake_one (\<lambda>x. one_n_model s2 \<or> scheduler (tcbs s2 x) = sch) (tcbs s2)) ls (?Q2(LocalChain th \<mapsto> [])))"
     "\<forall>u. yieldCode (tcbs s' u) = yieldCode (tcbs s2 u) \<and>
          state (tcbs s' u) = (if u \<in> set ls then state (tcbs s2 u) AND NOT STATES_WAIT_TIMEOUTB else state (tcbs s2 u))"
     "current_task s' = current_task s2" "mutexes s' = mutexes s2" "sems s' = sems s2" "frame s2 s'"
    using Cons.IH[OF s2(4) _ _ s2(6) _ refl] by blast
  have "fold (wake_one (\<lambda>x. one_n_model s2 \<or> scheduler (tcbs s2 x) = sch) (tcbs s2)) ls A =
      fold (wake_one near (tcbs s)) ls A" for A
    using fr keep xm by (intro fold_cong refl wake_one_cong) (auto simp: near frame_def)
  moreover have "?Q2(LocalChain th \<mapsto> []) = wake_one near (tcbs s) x (Q(LocalChain th \<mapsto> []))"
    by (auto simp: wake_one_def activated_def untimed_def Let_def fun_upd_twist)
  ultimately show ?case using s' s2(1-3) keep xm frame_trans[OF fr s'(7)]
    by (subst broadcast_wake.simps) auto
qed

text \<open>
  Broadcast empties the wait queue and wakes its tasks in the order in which they waited; each one
  gets return code 1 and none keeps a waiting flag.
\<close>

lemma broadcast_spec:
  assumes cur: "current_task s th = Some c" and q: "quiet s" "queues s Q" and lc: "Q (LocalChain th) = Some []"
    and w: "Q (CondWaitq p) = Some ws" and wk: "waiters_ok s Q c (CondWaitq p)" and cw: "c \<notin> set ws"
    and near: "near = (\<lambda>x. one_n_model s \<or> scheduler (tcbs s x) = scheduler (tcbs s c))"
  shows "\<exists>s'. fiber_cond_broadcast th p s = Some (True, s') \<and>
     queues s' (fold (wake_one near (tcbs s)) ws (Q(CondWaitq p \<mapsto> []))) \<and>
     (\<forall>x \<in> set ws. yieldCode (tcbs s' x) = 1 \<and>
        state (tcbs s' x) = state (tcbs s x) AND NOT (STATES_WAITFOR_CONDV OR STATES_WAIT_TIMEOUTB)) \<and>
     current_task s' = current_task s \<and> mutexes s' = mutexes s \<and> sems s' = sems s \<and> frame s s'"
proof -
  note keepf = wait_flag_keeps[OF wait_flag_vals(2)]
  let ?s0 = "s\<lparr>mem := chain_init_empty (LocalChain th) (mem s), locks := (locks s)(CondLock p := \<not> one_n_model s)\<rparr>"
  have q0: "queues ?s0 Q" using init_empty_chain[of link_field "mem s" Q "LocalChain th"] q(2) lc
    by (simp add: queues_def map_upd_triv)
  obtain s1 where s1: "broadcast_collect th (right_of (CondWaitq p) ws) ?s0 = Some s1"
    "queues s1 (Q(CondWaitq p \<mapsto> [], LocalChain th \<mapsto> [] @ ws))" "tcbs s1 = collected ws (tcbs ?s0)"
    "current_task s1 = current_task ?s0" "scps s1 = scps ?s0" "mutexes s1 = mutexes ?s0" "sems s1 = sems ?s0" "frame ?s0 s1"
    using broadcast_collect_spec[OF q0 w lc] by blast
  let ?Q1 = "Q(CondWaitq p \<mapsto> [], LocalChain th \<mapsto> ws)"
  let ?s1 = "spin_unlock (CondLock p) s1"
  have t1: "tcbs ?s1 = collected ws (tcbs s)" using s1(3) by (simp add: spin_unlock_eq)
  have fr1: "frame s ?s1" using s1(8) q(1) by (auto simp: frame_def spin_unlock_eq fun_eq_iff)
  have pre: "queues ?s1 ?Q1" "quiet ?s1" "?Q1 (LocalChain th) = Some ws"
    using s1(2) frame_quiet[OF fr1 q(1)] by (auto simp: queues_def spin_unlock_eq)
  have fld: "state (tcbs ?s1 x) = state (tcbs s x) AND NOT STATES_WAITFOR_CONDV" "yieldCode (tcbs ?s1 x) = 1"
     if "x \<in> set ws" for x using that t1 by (simp_all add: collected_def)
  have home: "scheduler (tcbs ?s1 x) = scheduler (tcbs s x)" "scheddata (tcbs ?s1 x) = scheddata (tcbs s x)"
    "group (tcbs ?s1 x) = group (tcbs s x)" for x using t1 by (auto simp: collected_def)
  have wk1: "\<forall>x \<in> set ws. wakeable ?s1 ?Q1 x"
  proof
    fix x assume x: "x \<in> set ws"
    then have "wakeable s Q x" using wk w by (simp add: waiters_ok_def)
    then show "wakeable ?s1 ?Q1 x"
      using fld(1)[OF x] home[of x] by (auto simp: wakeable_def homed_def flags_def keepf)
  qed
  have one1: "one_n_model ?s1 \<longrightarrow> (\<forall>x \<in> set ws. scheduler (tcbs ?s1 x) = scheduler (tcbs s c))"
    using wk w home fr1 by (auto simp: waiters_ok_def frame_def)
  obtain s' where s': "broadcast_wake (scheduler (tcbs s c)) (right_of (LocalChain th) ws) ?s1 = Some s'"
     "queues s' (fold (wake_one near (tcbs ?s1)) ws (?Q1(LocalChain th \<mapsto> [])))"
     "\<forall>u. yieldCode (tcbs s' u) = yieldCode (tcbs ?s1 u) \<and>
          state (tcbs s' u) = (if u \<in> set ws then state (tcbs ?s1 u) AND NOT STATES_WAIT_TIMEOUTB else state (tcbs ?s1 u))"
     "current_task s' = current_task ?s1" "mutexes s' = mutexes ?s1" "sems s' = sems ?s1" "frame ?s1 s'"
    using broadcast_wake_spec[OF pre wk1 one1, of near] near home fr1 by (auto simp: frame_def)
  have "wake_one near (tcbs ?s1) x = wake_one near (tcbs s) x" if "x \<in> set ws" for x
    using fld(1)[OF that] home[of x] by (simp add: wake_one_def activated_def untimed_def keepf fun_eq_iff)
  then have "fold (wake_one near (tcbs ?s1)) ws A = fold (wake_one near (tcbs s)) ws A" for A
    by (intro fold_cong refl) auto
  moreover have "?Q1(LocalChain th \<mapsto> []) = Q(CondWaitq p \<mapsto> [])" using lc by (auto simp: fun_eq_iff)
  moreover have "fiber_cond_broadcast th p s = Some (True, s')"
    using cur q(1) first_spec[OF q0 _ w] first_spec[OF pre(1) _ pre(3)] s1(1) s'(1) home(1)[of c]
    by (simp add: fiber_cond_broadcast_def spin_lock_free)
  ultimately show ?thesis
    using s' fld s1(4,6,7) frame_trans[OF fr1 s'(7)]
    by (intro exI[of _ s']) (auto simp: spin_unlock_eq and.assoc)
qed

end
