(* ===== verification/Monitor.thy ===== *)
theory Monitor
  imports Condition
begin

text \<open>
  The shape of every blocking operation built on a fiber mutex and condition variables: take the
  mutex, wait while the object is not ready, change it, notify, release the mutex
  (\<^verbatim>\<open>include/fiberq.h\<close>, \<^verbatim>\<open>blockq.c\<close>, \<^verbatim>\<open>rwlock.c\<close>).  The object is passed
  separately from the system state; only the holder of the mutex changes it.
\<close>

section \<open>The operations\<close>

text \<open>
  The loop and what follows it.  A wait that switches away ends the step; the task enters the loop
  again when it is switched to, after the wait has taken the mutex again.
\<close>

partial_function (option) monitor_loop ::
  "nat \<Rightarrow> nat \<Rightarrow> nat \<Rightarrow> ('q \<Rightarrow> bool) \<Rightarrow> ('q \<Rightarrow> ('r \<times> 'q) option) \<Rightarrow> ('q \<Rightarrow> sys \<Rightarrow> sys option) \<Rightarrow>
     sys \<Rightarrow> 'q \<Rightarrow> ('r outcome \<times> sys \<times> 'q) option" where
  "monitor_loop th mtx cv blocked body notify s q =
     (if blocked q then
        Option.bind (fiber_cond_wait th cv mtx s) (\<lambda>(r, s).
          case r of Switched \<Rightarrow> Some (Switched, s, q)
          | Returns _ \<Rightarrow> monitor_loop th mtx cv blocked body notify s q)
      else
        Option.bind (body q) (\<lambda>(x, q).
        Option.bind (notify q s) (\<lambda>s.
        Option.bind (fiber_mutex_unlock th mtx s) (\<lambda>(_, s). Some (Returns x, s, q)))))"

definition monitor_op ::
  "nat \<Rightarrow> nat \<Rightarrow> nat \<Rightarrow> ('q \<Rightarrow> bool) \<Rightarrow> ('q \<Rightarrow> ('r \<times> 'q) option) \<Rightarrow> ('q \<Rightarrow> sys \<Rightarrow> sys option) \<Rightarrow>
     sys \<Rightarrow> 'q \<Rightarrow> ('r outcome \<times> sys \<times> 'q) option" where
  "monitor_op th mtx cv blocked body notify s q = do {
     (r, s) \<leftarrow> fiber_mutex_lock th mtx s;
     case r of Switched \<Rightarrow> Some (Switched, s, q)
     | Returns _ \<Rightarrow> monitor_loop th mtx cv blocked body notify s q
   }"

definition notify_one :: "nat \<Rightarrow> nat \<Rightarrow> 'q \<Rightarrow> sys \<Rightarrow> sys option" where
  "notify_one th cv q s = map_option snd (fiber_cond_signal th cv s)"

definition notify_all :: "nat \<Rightarrow> nat \<Rightarrow> ('q \<Rightarrow> bool) \<Rightarrow> 'q \<Rightarrow> sys \<Rightarrow> sys option" where
  "notify_all th cv P q s = (if P q then map_option snd (fiber_cond_broadcast th cv s) else Some s)"

definition notify_none :: "'q \<Rightarrow> sys \<Rightarrow> sys option" where
  "notify_none q s = Some s"

section \<open>Their effect\<close>

text \<open>
  The state in which a task enters a monitor that nobody is in: the mutex is free.  In a library
  built for one thread mutexes are empty and there is nothing to be free.
\<close>

definition unowned :: "sys \<Rightarrow> nat \<Rightarrow> bool" where
  "unowned s mtx = (one_n_model s \<or> holder (mutexes s mtx) = None)"

definition entered :: "nat \<Rightarrow> nat \<Rightarrow> sys \<Rightarrow> sys" where
  "entered c mtx s = (if one_n_model s then s
     else s\<lparr>mutexes := (mutexes s)(mtx := (mutexes s mtx)\<lparr>holder := Some c, reentries := 1\<rparr>)\<rparr>)"

definition enterable :: "sys \<Rightarrow> (chain_id \<rightharpoonup> nat list) \<Rightarrow> nat \<Rightarrow> nat \<Rightarrow> nat \<Rightarrow> nat list \<Rightarrow> nat \<Rightarrow> nat \<Rightarrow> bool" where
  "enterable s Q th d m us c mtx =
     (running s Q th d m us c \<and> c \<noteq> m \<and> quiet s \<and> unowned s mtx \<and> (\<not> one_n_model s \<longrightarrow> Q (MutexWaitq mtx) = Some []))"

lemma entered_sel [simp]:
  "mem (entered c mtx s) = mem s" "tcbs (entered c mtx s) = tcbs s" "sems (entered c mtx s) = sems s"
  "current_task (entered c mtx s) = current_task s" "locks (entered c mtx s) = locks s" "one_n_model (entered c mtx s) = one_n_model s"
  "the_maintask (entered c mtx s) = the_maintask s" "quiet (entered c mtx s) = quiet s" "queues (entered c mtx s) Q = queues s Q"
  "frame (entered c mtx s) s' = frame s s'" "frame s0 (entered c mtx s) = frame s0 s" "running (entered c mtx s) Q th d m us c' = running s Q th d m us c'"
  "waiters_ok (entered c mtx s) Q c' w = waiters_ok s Q c' w"
  by (simp_all add: entered_def quiet_def queues_def frame_def running_def on_thread_def waiters_ok_def wakeable_def homed_def flags_def)

lemma lock_enters:
  assumes "current_task s th = Some c" "quiet s" "unowned s mtx"
  shows "fiber_mutex_lock th mtx s = Some (Returns True, entered c mtx s)"
  using mutex_lock_free[OF assms(1,2)] assms(3) by (auto simp: fiber_mutex_lock_def entered_def unowned_def)

lemma unlock_leaves:
  assumes "current_task s th = Some c" "quiet s" "queues s Q" "\<not> one_n_model s \<longrightarrow> Q (MutexWaitq mtx) = Some []"
    and "\<not> one_n_model s \<longrightarrow> holder (mutexes s mtx) = Some c \<and> reentries (mutexes s mtx) = 1"
  shows "\<exists>s'. fiber_mutex_unlock th mtx s = Some (True, s') \<and> queues s' Q \<and> tcbs s' = tcbs s \<and> unowned s' mtx \<and>
     (\<forall>k. k \<noteq> mtx \<longrightarrow> mutexes s' k = mutexes s k) \<and> current_task s' = current_task s \<and> sems s' = sems s \<and> frame s s'"
proof (cases "one_n_model s")
  case True
  then show ?thesis using assms(3) by (simp add: fiber_mutex_unlock_def unowned_def)
next
  case False
  then obtain s' where "mutex_unlock th mtx s = Some (True, s')" "queues s' Q" "tcbs s' = tcbs s"
    "mutexes s' = (mutexes s)(mtx := (mutexes s mtx)\<lparr>holder := None, reentries := 0\<rparr>)"
    "current_task s' = current_task s" "sems s' = sems s" "frame s s'"
    using mutex_unlock_last[OF assms(1) _ _ assms(2,3)] assms(4,5) by blast
  with False show ?thesis by (auto simp: fiber_mutex_unlock_def unowned_def)
qed

text \<open>
  What a notification must do: leave mutexes, the caller and the wait queue of the monitor's mutex
  as they are.
\<close>

definition calm :: "('q \<Rightarrow> sys \<Rightarrow> sys option) \<Rightarrow> 'q \<Rightarrow> nat \<Rightarrow> (chain_id \<rightharpoonup> nat list) \<Rightarrow> sys \<Rightarrow> (chain_id \<rightharpoonup> nat list) \<Rightarrow> bool" where
  "calm notify q mtx Q s Q' =
     (\<exists>s'. notify q s = Some s' \<and> queues s' Q' \<and> mutexes s' = mutexes s \<and> current_task s' = current_task s \<and>
        sems s' = sems s \<and> frame s s' \<and> Q' (MutexWaitq mtx) = Q (MutexWaitq mtx))"

text \<open>An operation on an object that is ready runs to its end and leaves the mutex free.\<close>

lemma monitor_completes:
  assumes e: "enterable s Q th d m us c mtx" and nb: "\<not> blocked q" and b: "body q = Some (x, q')"
    and n: "calm notify q' mtx Q (entered c mtx s) Q'"
  shows "\<exists>s'. monitor_op th mtx cv blocked body notify s q = Some (Returns x, s', q') \<and> queues s' Q' \<and>
     unowned s' mtx \<and> current_task s' = current_task s \<and> sems s' = sems s \<and> frame s s'"
proof -
  let ?s1 = "entered c mtx s"
  from e have r: "running s Q th d m us c" "quiet s" "unowned s mtx" "\<not> one_n_model s \<longrightarrow> Q (MutexWaitq mtx) = Some []"
    by (auto simp: enterable_def)
  have lock: "fiber_mutex_lock th mtx s = Some (Returns True, ?s1)"
    by (rule lock_enters[OF runningD(3)[OF r(1)] r(2,3)])
  obtain s2 where s2: "notify q' ?s1 = Some s2" "queues s2 Q'" "mutexes s2 = mutexes ?s1"
    "current_task s2 = current_task s" "sems s2 = sems s" "frame s s2" "Q' (MutexWaitq mtx) = Q (MutexWaitq mtx)"
    using n by (auto simp: calm_def)
  have o: "one_n_model s2 = one_n_model s" using s2(6) by (simp add: frame_def)
  have pre: "current_task s2 th = Some c" "quiet s2" "\<not> one_n_model s2 \<longrightarrow> Q' (MutexWaitq mtx) = Some []"
    "\<not> one_n_model s2 \<longrightarrow> holder (mutexes s2 mtx) = Some c \<and> reentries (mutexes s2 mtx) = 1"
    using s2 r o runningD(3)[OF r(1)] by (auto simp: frame_def quiet_def entered_def)
  obtain s3 where s3: "fiber_mutex_unlock th mtx s2 = Some (True, s3)" "queues s3 Q'" "unowned s3 mtx"
    "current_task s3 = current_task s2" "sems s3 = sems s2" "frame s2 s3"
    using unlock_leaves[OF pre(1,2) s2(2) pre(3,4)] by blast
  have "monitor_op th mtx cv blocked body notify s q = Some (Returns x, s3, q')"
    using lock nb b s2(1) s3(1) by (simp add: monitor_op_def, subst monitor_loop.simps) simp
  then show ?thesis using s2 s3 frame_trans[OF s2(6) s3(6)] by auto
qed

text \<open>
  On an object that is not ready, the caller ends up on the wait queue and leaves the mutex free
  for whoever will make the object ready.
\<close>

lemma entered_waits:
  assumes e: "enterable s Q th d m us c mtx" and w: "Q (CondWaitq cv) = Some ws"
  shows "\<exists>s' Q'. fiber_cond_wait th cv mtx (entered c mtx s) = Some (Switched, s') \<and> queues s' Q' \<and> frame s s' \<and>
    Q' (CondWaitq cv) = Some (ws @ [c]) \<and> unowned s' mtx \<and> current_task s' th \<noteq> Some c \<and>
    resume_at (tcbs s' c) = K_cond_wait mtx \<and> sems s' = sems s"
proof -
  let ?s1 = "entered c mtx s"
  from e have r: "running s Q th d m us c" "c \<noteq> m" "quiet s" "unowned s mtx" "\<not> one_n_model s \<longrightarrow> Q (MutexWaitq mtx) = Some []"
    by (auto simp: enterable_def)
  have r1: "running ?s1 Q th d m us c" "quiet ?s1" using r by simp_all
  show ?thesis
  proof (cases "one_n_model s")
    case True
    then obtain s' where "fiber_cond_wait th cv mtx ?s1 = Some (Switched, s')"
      "queues s' (Q(ReadyList d \<mapsto> rotate1 (butlast us) @ [m], CondWaitq cv \<mapsto> ws @ [c]))" "frame s s'" "sems s' = sems s"
      "current_task s' = (current_task s)(th := Some (next_up m (butlast us)))" "next_up m (butlast us) \<noteq> c"
      "tcbs s' c = (tcbs s c)\<lparr>state := state (tcbs s c) OR STATES_WAITFOR_CONDV, resume_at := K_cond_wait mtx\<rparr>"
      using cond_wait_one_n[OF r1(1) r(2) r1(2) _ w, of mtx] by auto
    then show ?thesis using True
      by (intro exI[of _ s'] exI[of _ "Q(ReadyList d \<mapsto> rotate1 (butlast us) @ [m], CondWaitq cv \<mapsto> ws @ [c])"])
        (simp add: unowned_def frame_def)
  next
    case False
    then have mw: "Q (MutexWaitq mtx) = Some []" and nn: "\<not> one_n_model ?s1" using r(5) by simp_all
    have inv: "amutex_inv (abs_mutex mtx ?s1 Q)" using mw False by (simp add: amutex_inv_def abs_mutex_def entered_def)
    have "\<forall>x \<in> set ([] :: nat list). homed ?s1 Q x" by simp
    from cond_wait_spec[OF r1(1) r(2) r1(2) nn w mw inv this]
    obtain s' Q' n where s': "fiber_cond_wait th cv mtx ?s1 = Some (Switched, s')" "queues s' Q'" "frame s s'"
      "Q' (CondWaitq cv) = Some (ws @ [c])" "abs_mutex mtx s' Q' = amutex_unlock c (abs_mutex mtx ?s1 Q)"
      "current_task s' = (current_task s)(th := Some n)" "n \<noteq> c" "sems s' = sems s"
      "tcbs s' c = (tcbs s c)\<lparr>state := state (tcbs s c) OR STATES_WAITFOR_CONDV, resume_at := K_cond_wait mtx\<rparr>"
      by auto
    have "abs_mutex mtx s' Q' = \<lparr>owner = None, depth = 0, waiters = []\<rparr>"
      using s'(5) mw False by (simp add: abs_mutex_def amutex_unlock_def entered_def)
    then have "unowned s' mtx" by (simp add: abs_mutex_def unowned_def)
    with s' show ?thesis by (intro exI[of _ s'] exI[of _ Q']) simp
  qed
qed

lemma monitor_waits:
  assumes e: "enterable s Q th d m us c mtx" and b: "blocked q" and w: "Q (CondWaitq cv) = Some ws"
  shows "\<exists>s' Q'. monitor_op th mtx cv blocked body notify s q = Some (Switched, s', q) \<and> queues s' Q' \<and>
     Q' (CondWaitq cv) = Some (ws @ [c]) \<and> unowned s' mtx \<and> current_task s' th \<noteq> Some c \<and>
     resume_at (tcbs s' c) = K_cond_wait mtx \<and> sems s' = sems s \<and> frame s s'"
proof -
  have lock: "fiber_mutex_lock th mtx s = Some (Returns True, entered c mtx s)"
    by (rule lock_enters) (use e in \<open>auto simp: enterable_def running_def\<close>)
  obtain s' Q' where s': "fiber_cond_wait th cv mtx (entered c mtx s) = Some (Switched, s')" "queues s' Q'" "frame s s'"
    "Q' (CondWaitq cv) = Some (ws @ [c])" "unowned s' mtx" "current_task s' th \<noteq> Some c"
    "resume_at (tcbs s' c) = K_cond_wait mtx" "sems s' = sems s" using entered_waits[OF e w] by blast
  have "monitor_op th mtx cv blocked body notify s q = Some (Switched, s', q)"
    using lock b s'(1) by (simp add: monitor_op_def, subst monitor_loop.simps) simp
  with s' show ?thesis by blast
qed

section \<open>Notifications are calm\<close>

lemma calm_none: "queues s Q \<Longrightarrow> calm notify_none q mtx Q s Q"
  by (simp add: calm_def notify_none_def)

lemma untimed_other: "(\<And>d. c \<noteq> WadogList d) \<Longrightarrow> untimed b t Q c = Q c"
  by (simp add: untimed_def Let_def)

lemma calm_signal:
  assumes cur: "current_task s th = Some c" and q: "quiet s" "queues s Q" and w: "Q (CondWaitq cv) = Some ws"
    and ok: "waiters_ok s Q c (CondWaitq cv)"
  shows "\<exists>Q'. calm (notify_one th cv) q mtx Q s Q' \<and> Q' (CondWaitq cv) = Some (tl ws)"
proof (cases ws)
  case Nil
  then show ?thesis using cond_signal_idle[OF q, of cv th] w
    by (intro exI[of _ Q]) (auto simp: calm_def notify_one_def)
next
  case (Cons x xs)
  have x: "wakeable s Q x" "one_n_model s \<Longrightarrow> scheduler (tcbs s x) = scheduler (tcbs s c)"
    using ok w Cons by (auto simp: waiters_ok_def)
  have w': "Q (CondWaitq cv) = Some (x # xs)" using w Cons by simp
  let ?near = "one_n_model s \<or> scheduler (tcbs s x) = scheduler (tcbs s c)"
  let ?Q = "activated ?near (tcbs s x) x (untimed (tcbs s x) x (Q(CondWaitq cv \<mapsto> xs)))"
  obtain s' where "fiber_cond_signal th cv s = Some (True, s')" "queues s' ?Q"
    "current_task s' = current_task s" "mutexes s' = mutexes s" "sems s' = sems s" "frame s s'"
    using cond_signal_wakes[OF cur q w' x refl] by blast
  moreover have "?Q (MutexWaitq mtx) = Q (MutexWaitq mtx)" "?Q (CondWaitq cv) = Some xs" by simp_all
  ultimately show ?thesis using Cons by (intro exI[of _ ?Q]) (auto simp: calm_def notify_one_def)
qed

lemma wake_all_other:
  "(\<And>d. k \<noteq> ReadyList d) \<Longrightarrow> (\<And>g. k \<noteq> GlobalReady g) \<Longrightarrow> (\<And>d. k \<noteq> WadogList d) \<Longrightarrow>
     fold (wake_one near T) ws Q k = Q k"
  by (induction ws arbitrary: Q) (simp_all add: wake_one_def untimed_other)

lemma calm_broadcast:
  assumes cur: "current_task s th = Some c" and q: "quiet s" "queues s Q" and w: "Q (CondWaitq cv) = Some ws"
    and ok: "waiters_ok s Q c (CondWaitq cv)" and lc: "Q (LocalChain th) = Some []" and cw: "c \<notin> set ws" and t: "P q"
  shows "\<exists>Q'. calm (notify_all th cv P) q mtx Q s Q' \<and> Q' (CondWaitq cv) = Some []"
proof -
  let ?near = "\<lambda>x. one_n_model s \<or> scheduler (tcbs s x) = scheduler (tcbs s c)"
  let ?Q = "fold (wake_one ?near (tcbs s)) ws (Q(CondWaitq cv \<mapsto> []))"
  obtain s' where "fiber_cond_broadcast th cv s = Some (True, s')" "queues s' ?Q"
    "current_task s' = current_task s" "mutexes s' = mutexes s" "sems s' = sems s" "frame s s'"
    using broadcast_spec[OF cur q lc w ok cw refl] by blast
  moreover have "?Q (MutexWaitq mtx) = Q (MutexWaitq mtx)" "?Q (CondWaitq cv) = Some []"
    by (simp_all add: wake_all_other)
  ultimately show ?thesis using t by (intro exI[of _ ?Q]) (auto simp: calm_def notify_all_def)
qed

section \<open>The three shapes of an operation that completes\<close>

lemma monitor_silent:
  assumes e: "enterable s Q th d m us c mtx" and nb: "\<not> blocked q" and b: "body q = Some (x, q')"
  shows "\<exists>s'. monitor_op th mtx cv blocked body notify_none s q = Some (Returns x, s', q') \<and> queues s' Q \<and>
     unowned s' mtx \<and> current_task s' = current_task s \<and> sems s' = sems s \<and> frame s s'"
proof -
  have "queues s Q" using e by (auto simp: enterable_def running_def)
  from monitor_completes[where blocked = blocked and body = body and q = q, OF e nb b calm_none] this show ?thesis by simp
qed

lemma monitor_signals:
  assumes e: "enterable s Q th d m us c mtx" and nb: "\<not> blocked q" and b: "body q = Some (x, q')"
    and w: "Q (CondWaitq wk) = Some ws" and ok: "waiters_ok s Q c (CondWaitq wk)"
  shows "\<exists>s' Q'. monitor_op th mtx cv blocked body (notify_one th wk) s q = Some (Returns x, s', q') \<and> queues s' Q' \<and>
     Q' (CondWaitq wk) = Some (tl ws) \<and> unowned s' mtx \<and> current_task s' = current_task s \<and>
     sems s' = sems s \<and> frame s s'"
proof -
  let ?s1 = "entered c mtx s"
  have r: "queues s Q" "current_task s th = Some c" "quiet s" using e by (auto simp: enterable_def running_def)
  obtain Q' where "calm (notify_one th wk) q' mtx Q ?s1 Q'" "Q' (CondWaitq wk) = Some (tl ws)"
    using calm_signal[of ?s1 th c Q wk ws q' mtx] r w ok by auto
  from monitor_completes[where blocked = blocked and body = body and q = q, OF e nb b this(1)] this(2) show ?thesis by blast
qed

lemma monitor_broadcasts:
  assumes e: "enterable s Q th d m us c mtx" and nb: "\<not> blocked q" and b: "body q = Some (x, q')"
    and w: "Q (CondWaitq wk) = Some ws" and ok: "waiters_ok s Q c (CondWaitq wk)" and lc: "Q (LocalChain th) = Some []"
  shows "\<exists>s' Q'. monitor_op th mtx cv blocked body (notify_all th wk P) s q = Some (Returns x, s', q') \<and> queues s' Q' \<and>
     Q' (CondWaitq wk) = Some (if P q' then [] else ws) \<and> unowned s' mtx \<and>
     current_task s' = current_task s \<and> sems s' = sems s \<and> frame s s'"
proof -
  let ?s1 = "entered c mtx s"
  have r: "queues s Q" "current_task s th = Some c" "quiet s" "running s Q th d m us c"
    using e by (auto simp: enterable_def running_def)
  have cw: "c \<notin> set ws" using running_not_waiting[OF r(4), of "CondWaitq wk" ws] w by simp
  have "\<exists>Q'. calm (notify_all th wk P) q' mtx Q ?s1 Q' \<and> Q' (CondWaitq wk) = Some (if P q' then [] else ws)"
  proof (cases "P q'")
    case True
    then show ?thesis using calm_broadcast[of ?s1 th c Q wk ws P q' mtx] r w ok lc cw by auto
  next
    case False
    then show ?thesis using r w by (intro exI[of _ Q]) (simp add: calm_def notify_all_def)
  qed
  then obtain Q' where "calm (notify_all th wk P) q' mtx Q ?s1 Q'" "Q' (CondWaitq wk) = Some (if P q' then [] else ws)" by blast
  from monitor_completes[where blocked = blocked and body = body and q = q, OF e nb b this(1)] this(2) show ?thesis by blast
qed

section \<open>What any run of an operation does to the object\<close>

text \<open>
  Whatever the state of the system: an operation that returns found the object ready and changed it
  by its body, once; one that switches away has not touched it.
\<close>

fun object_change :: "('q \<Rightarrow> bool) \<Rightarrow> ('q \<Rightarrow> ('r \<times> 'q) option) \<Rightarrow> 'q \<Rightarrow> 'r outcome \<times> sys \<times> 'q \<Rightarrow> bool" where
  "object_change blocked body q (Switched, s', q') = (q' = q)"
| "object_change blocked body q (Returns x, s', q') = (\<not> blocked q \<and> body q = Some (x, q'))"

lemma monitor_loop_object:
  assumes "monitor_loop th mtx cv blocked body notify s q = Some y"
  shows "object_change blocked body q y"
proof (rule monitor_loop.raw_induct[where P = "\<lambda>th mtx cv blocked body notify s q y. object_change blocked body q y", OF _ assms],
    goal_cases)
  case (1 loop th mtx cv blocked body notify s q y)
  show ?case
  proof (cases "blocked q")
    case True
    with 1(2) obtain r s1 where w: "fiber_cond_wait th cv mtx s = Some (r, s1)"
      by (cases "fiber_cond_wait th cv mtx s") auto
    show ?thesis using True 1 w by (cases r) auto
  next
    case False
    with 1(2) show ?thesis by (auto simp: bind_eq_Some_conv split: prod.splits)
  qed
qed

lemma monitor_op_object:
  assumes "monitor_op th mtx cv blocked body notify s q = Some y"
  shows "object_change blocked body q y"
proof -
  from assms obtain r s1 where "fiber_mutex_lock th mtx s = Some (r, s1)"
    by (cases "fiber_mutex_lock th mtx s") (auto simp: monitor_op_def)
  with assms show ?thesis by (cases r) (auto simp: monitor_op_def intro: monitor_loop_object)
qed

end
