(* ===== verification/Rwlock.thy ===== *)
theory Rwlock
  imports Monitor
begin

text \<open>
  The readers-writer lock of \<^verbatim>\<open>rwlock.c\<close>: a flag and a counter guarded by a fiber mutex, and
  one condition variable on which both kinds of client wait.
\<close>

section \<open>The operations\<close>

record rwlock =
  rw_mutex :: nat
  rw_unlocked :: nat
  writer :: bool
  readers :: int

definition rwlock_init :: "nat \<Rightarrow> nat \<Rightarrow> sys \<Rightarrow> int \<times> sys \<times> rwlock" where
  "rwlock_init mtx cv s =
     (let (_, s) = (if one_n_model s then (0, s) else mutex_init mtx s);
          (_, s) = fiber_cond_init cv s
      in (0, s, \<lparr>rw_mutex = mtx, rw_unlocked = cv, writer = False, readers = 0\<rparr>))"

text \<open>The counter is an \<open>int\<close>: going past its bounds is a fault.\<close>

definition reader_in :: "rwlock \<Rightarrow> (int \<times> rwlock) option" where
  "reader_in l = (if readers l + 1 \<ge> 2 ^ 31 then None else Some (0, l\<lparr>readers := readers l + 1\<rparr>))"

definition reader_out :: "rwlock \<Rightarrow> (int \<times> rwlock) option" where
  "reader_out l = (if readers l - 1 < - (2 ^ 31) then None else Some (0, l\<lparr>readers := readers l - 1\<rparr>))"

definition writer_in :: "rwlock \<Rightarrow> (int \<times> rwlock) option" where
  "writer_in l = Some (0, l\<lparr>writer := True\<rparr>)"

definition writer_out :: "rwlock \<Rightarrow> (int \<times> rwlock) option" where
  "writer_out l = Some (0, l\<lparr>writer := False\<rparr>)"

definition occupied :: "rwlock \<Rightarrow> bool" where
  "occupied l = (writer l \<or> readers l \<noteq> 0)"

definition rwlock_rdlock :: "nat \<Rightarrow> sys \<Rightarrow> rwlock \<Rightarrow> (int outcome \<times> sys \<times> rwlock) option" where
  "rwlock_rdlock th s l = monitor_op th (rw_mutex l) (rw_unlocked l) writer reader_in notify_none s l"

definition rwlock_rdunlock :: "nat \<Rightarrow> sys \<Rightarrow> rwlock \<Rightarrow> (int outcome \<times> sys \<times> rwlock) option" where
  "rwlock_rdunlock th s l = monitor_op th (rw_mutex l) (rw_unlocked l) (\<lambda>_. False) reader_out
     (notify_all th (rw_unlocked l) (\<lambda>l. readers l = 0)) s l"

definition rwlock_wrlock :: "nat \<Rightarrow> sys \<Rightarrow> rwlock \<Rightarrow> (int outcome \<times> sys \<times> rwlock) option" where
  "rwlock_wrlock th s l = monitor_op th (rw_mutex l) (rw_unlocked l) occupied writer_in notify_none s l"

definition rwlock_wrunlock :: "nat \<Rightarrow> sys \<Rightarrow> rwlock \<Rightarrow> (int outcome \<times> sys \<times> rwlock) option" where
  "rwlock_wrunlock th s l = monitor_op th (rw_mutex l) (rw_unlocked l) (\<lambda>_. False) writer_out
     (notify_all th (rw_unlocked l) (\<lambda>_. True)) s l"

definition rwlock_destroy :: "rwlock \<Rightarrow> sys \<Rightarrow> int \<times> sys" where
  "rwlock_destroy l s =
     (let (_, s) = (if one_n_model s then (True, s) else mutex_destroy (rw_mutex l) s);
          (_, s) = fiber_cond_destroy (rw_unlocked l) s
      in (0, s))"

text \<open>
  The two calls that may wait, from the point where the wait has returned with the mutex held: the
  test of the loop and what follows it.
\<close>

definition rwlock_rdlock_again :: "nat \<Rightarrow> sys \<Rightarrow> rwlock \<Rightarrow> (int outcome \<times> sys \<times> rwlock) option" where
  "rwlock_rdlock_again th s l = monitor_loop th (rw_mutex l) (rw_unlocked l) writer reader_in notify_none s l"

definition rwlock_wrlock_again :: "nat \<Rightarrow> sys \<Rightarrow> rwlock \<Rightarrow> (int outcome \<times> sys \<times> rwlock) option" where
  "rwlock_wrlock_again th s l = monitor_loop th (rw_mutex l) (rw_unlocked l) occupied writer_in notify_none s l"

text \<open>The unlocking calls after a wait for the mutex.\<close>

definition rwlock_rdunlock_again :: "nat \<Rightarrow> sys \<Rightarrow> rwlock \<Rightarrow> (int outcome \<times> sys \<times> rwlock) option" where
  "rwlock_rdunlock_again th s l = monitor_loop th (rw_mutex l) (rw_unlocked l) (\<lambda>_. False) reader_out
     (notify_all th (rw_unlocked l) (\<lambda>l. readers l = 0)) s l"

definition rwlock_wrunlock_again :: "nat \<Rightarrow> sys \<Rightarrow> rwlock \<Rightarrow> (int outcome \<times> sys \<times> rwlock) option" where
  "rwlock_wrunlock_again th s l = monitor_loop th (rw_mutex l) (rw_unlocked l) (\<lambda>_. False) writer_out
     (notify_all th (rw_unlocked l) (\<lambda>_. True)) s l"

section \<open>Exclusion\<close>

text \<open>
  A run of a program that uses the lock: the state of the system, the lock, and who is inside
  (readers and writers, a client once for every time it has entered).  A client is inside from the moment its lock call
  returns to its unlock call, and only clients that are inside call unlock.  Between two operations
  on the lock the system changes in any way.
\<close>

type_synonym rw_state = "sys \<times> rwlock \<times> nat list \<times> nat list"

inductive rw_step :: "rw_state \<Rightarrow> rw_state \<Rightarrow> bool" where
  other: "rw_step (s, l, R, W) (s', l, R, W)"
| rd_wait: "rwlock_rdlock th s l = Some (Switched, s', l') \<Longrightarrow> rw_step (s, l, R, W) (s', l', R, W)"
| rd_in: "rwlock_rdlock th s l = Some (Returns v, s', l') \<Longrightarrow> rw_step (s, l, R, W) (s', l', t # R, W)"
| rd_wait_again: "rwlock_rdlock_again th s l = Some (Switched, s', l') \<Longrightarrow> rw_step (s, l, R, W) (s', l', R, W)"
| rd_in_again: "rwlock_rdlock_again th s l = Some (Returns v, s', l') \<Longrightarrow> rw_step (s, l, R, W) (s', l', t # R, W)"
| rd_out: "rwlock_rdunlock th s l = Some (Returns v, s', l') \<or> rwlock_rdunlock_again th s l = Some (Returns v, s', l') \<Longrightarrow> t \<in> set R \<Longrightarrow> rw_step (s, l, R, W) (s', l', remove1 t R, W)"
| wr_wait: "rwlock_wrlock th s l = Some (Switched, s', l') \<Longrightarrow> rw_step (s, l, R, W) (s', l', R, W)"
| wr_in: "rwlock_wrlock th s l = Some (Returns v, s', l') \<Longrightarrow> rw_step (s, l, R, W) (s', l', R, t # W)"
| wr_wait_again: "rwlock_wrlock_again th s l = Some (Switched, s', l') \<Longrightarrow> rw_step (s, l, R, W) (s', l', R, W)"
| wr_in_again: "rwlock_wrlock_again th s l = Some (Returns v, s', l') \<Longrightarrow> rw_step (s, l, R, W) (s', l', R, t # W)"
| wr_out: "rwlock_wrunlock th s l = Some (Returns v, s', l') \<or> rwlock_wrunlock_again th s l = Some (Returns v, s', l') \<Longrightarrow> t \<in> set W \<Longrightarrow> rw_step (s, l, R, W) (s', l', R, remove1 t W)"

inductive rw_reachable :: "rw_state \<Rightarrow> bool" where
  start: "rwlock_init mtx cv s = (v, s', l) \<Longrightarrow> rw_reachable (s', l, [], [])"
| step: "rw_reachable x \<Longrightarrow> rw_step x y \<Longrightarrow> rw_reachable y"

definition rw_inv :: "rwlock \<Rightarrow> nat list \<Rightarrow> nat list \<Rightarrow> bool" where
  "rw_inv l R W = (readers l = int (length R) \<and> length W = (if writer l then 1 else 0) \<and> (W \<noteq> [] \<longrightarrow> R = []))"

lemma reader_in_inv: "rw_inv l R W \<Longrightarrow> \<not> writer l \<Longrightarrow> reader_in l = Some (v, l') \<Longrightarrow> rw_inv l' (t # R) W"
  by (auto simp: rw_inv_def reader_in_def split: if_splits)

lemma writer_in_inv: "rw_inv l R W \<Longrightarrow> \<not> occupied l \<Longrightarrow> writer_in l = Some (v, l') \<Longrightarrow> rw_inv l' R (t # W)"
  by (auto simp: rw_inv_def writer_in_def occupied_def)

lemma reader_out_inv:
  assumes "rw_inv l R W" "t \<in> set R" "reader_out l = Some (v, l')"
  shows "rw_inv l' (remove1 t R) W"
proof -
  have "int (length (remove1 t R)) = int (length R) - 1"
    using assms(2) length_pos_if_in_set[OF assms(2)] by (simp add: length_remove1 of_nat_diff Suc_le_eq)
  with assms show ?thesis by (auto simp: rw_inv_def reader_out_def split: if_splits)
qed

lemma writer_out_inv: "rw_inv l R W \<Longrightarrow> t \<in> set W \<Longrightarrow> writer_out l = Some (v, l') \<Longrightarrow> rw_inv l' R (remove1 t W)"
  by (auto simp: rw_inv_def writer_out_def length_remove1 split: if_splits)

lemmas rw_ops = rwlock_rdlock_def rwlock_rdunlock_def rwlock_wrlock_def rwlock_wrunlock_def
  rwlock_rdlock_again_def rwlock_wrlock_again_def rwlock_rdunlock_again_def rwlock_wrunlock_again_def

lemma rw_step_inv:
  assumes "rw_step (s, l, R, W) (s', l', R', W')" "rw_inv l R W"
  shows "rw_inv l' R' W'"
  using assms
  by (induction "(s, l, R, W)" "(s', l', R', W')" rule: rw_step.induct)
    (auto simp: rw_ops dest!: monitor_op_object monitor_loop_object
      intro: reader_in_inv writer_in_inv reader_out_inv writer_out_inv)

lemma rw_reachable_inv:
  assumes "rw_reachable x"
  shows "rw_inv (fst (snd x)) (fst (snd (snd x))) (snd (snd (snd x)))"
  using assms
proof induction
  case (start mtx cv s v s' l)
  then show ?case by (auto simp: rwlock_init_def Let_def rw_inv_def split: prod.splits)
next
  case (step x y)
  then show ?case by (metis prod.collapse rw_step_inv)
qed

section \<open>The operations when nobody is in the monitor\<close>

lemma rdlock_enters:
  assumes e: "enterable s Q th d m us c (rw_mutex l)" and "\<not> writer l" "readers l + 1 < 2 ^ 31"
  shows "\<exists>s'. rwlock_rdlock th s l = Some (Returns 0, s', l\<lparr>readers := readers l + 1\<rparr>) \<and> queues s' Q \<and>
     unowned s' (rw_mutex l)"
  using monitor_silent[where blocked = writer and body = reader_in and q = l, OF e] assms(2,3)
  unfolding rwlock_rdlock_def by (auto simp: reader_in_def)

lemma wrlock_enters:
  assumes e: "enterable s Q th d m us c (rw_mutex l)" and "\<not> occupied l"
  shows "\<exists>s'. rwlock_wrlock th s l = Some (Returns 0, s', l\<lparr>writer := True\<rparr>) \<and> queues s' Q \<and>
     unowned s' (rw_mutex l)"
  using monitor_silent[where blocked = occupied and body = writer_in and q = l, OF e] assms(2)
  unfolding rwlock_wrlock_def by (auto simp: writer_in_def)

lemma lock_waits:
  assumes e: "enterable s Q th d m us c (rw_mutex l)" and w: "Q (CondWaitq (rw_unlocked l)) = Some ws"
  shows "writer l \<Longrightarrow> \<exists>s' Q'. rwlock_rdlock th s l = Some (Switched, s', l) \<and> queues s' Q' \<and>
       Q' (CondWaitq (rw_unlocked l)) = Some (ws @ [c]) \<and> unowned s' (rw_mutex l)"
    and "occupied l \<Longrightarrow> \<exists>s' Q'. rwlock_wrlock th s l = Some (Switched, s', l) \<and> queues s' Q' \<and>
       Q' (CondWaitq (rw_unlocked l)) = Some (ws @ [c]) \<and> unowned s' (rw_mutex l)"
  using monitor_waits[where blocked = writer and body = reader_in and notify = notify_none, OF e _ w]
    monitor_waits[where blocked = occupied and body = writer_in and notify = notify_none, OF e _ w]
  unfolding rw_ops by blast+

lemma rdunlock_wakes:
  assumes e: "enterable s Q th d m us c (rw_mutex l)" and w: "Q (CondWaitq (rw_unlocked l)) = Some ws"
    and ok: "waiters_ok s Q c (CondWaitq (rw_unlocked l))" and lc: "Q (LocalChain th) = Some []"
    and r: "0 < readers l"
  shows "\<exists>s' Q'. rwlock_rdunlock th s l = Some (Returns 0, s', l\<lparr>readers := readers l - 1\<rparr>) \<and> queues s' Q' \<and>
     Q' (CondWaitq (rw_unlocked l)) = Some (if readers l = 1 then [] else ws) \<and> unowned s' (rw_mutex l)"
proof -
  have "reader_out l = Some (0, l\<lparr>readers := readers l - 1\<rparr>)" using r by (simp add: reader_out_def)
  from monitor_broadcasts[where blocked = "\<lambda>_. False" and body = reader_out and q = l and x = 0
      and P = "\<lambda>l. readers l = 0" and cv = "rw_unlocked l", OF e _ this w ok lc]
  show ?thesis unfolding rwlock_rdunlock_def by auto
qed

lemma wrunlock_wakes:
  assumes e: "enterable s Q th d m us c (rw_mutex l)" and w: "Q (CondWaitq (rw_unlocked l)) = Some ws"
    and ok: "waiters_ok s Q c (CondWaitq (rw_unlocked l))" and lc: "Q (LocalChain th) = Some []"
  shows "\<exists>s' Q'. rwlock_wrunlock th s l = Some (Returns 0, s', l\<lparr>writer := False\<rparr>) \<and> queues s' Q' \<and>
     Q' (CondWaitq (rw_unlocked l)) = Some [] \<and> unowned s' (rw_mutex l)"
proof -
  have "writer_out l = Some (0, l\<lparr>writer := False\<rparr>)" by (simp add: writer_out_def)
  from monitor_broadcasts[where blocked = "\<lambda>_. False" and body = writer_out and q = l and x = 0
      and P = "\<lambda>_. True" and cv = "rw_unlocked l", OF e _ this w ok lc]
  show ?thesis unfolding rwlock_wrunlock_def by auto
qed

end
