(* ===== verification/Tcb_Pool.thy ===== *)
theory Tcb_Pool
  imports Sched
begin

text \<open>
  Allocation of task control blocks (\<^verbatim>\<open>src/task.c\<close>, \<open>tcb_alloc\<close> and
  \<open>tcb_free\<close>).  Free blocks are kept in singly linked lists threaded through the first word of
  the block, the same word that is the \<open>next\<close> pointer of the queues: one list per scheduler with
  at most 128 blocks, and a global one.  \<open>malloc\<close> is a parameter: the address it returns for a
  given number of blocks, or none.
\<close>

section \<open>The operations\<close>

definition tcb_free :: "nat \<Rightarrow> nat \<Rightarrow> sys \<Rightarrow> sys option" where
  "tcb_free th tcb s = do {
     the_scheduler \<leftarrow> the_maintask s th;
     d \<leftarrow> scheddata (tcbs s the_scheduler);
     if freedsize (scps s d) < int MAX_LOCAL_FREED_TASKS then do {
       let s = s\<lparr>mem := (mem s)(Next Fld_node tcb := freedlist (scps s d))\<rparr>;
       Some (upd_scp d (\<lambda>x. x\<lparr>freedlist := Tcb tcb, freedsize := freedsize x + 1\<rparr>) s)
     } else do {
       s \<leftarrow> spin_lock2 FreedListLock s;
       let s = s\<lparr>mem := (mem s)(Next Fld_node tcb := global_freedlist s)\<rparr>;
       let s = s\<lparr>global_freedlist := Tcb tcb\<rparr>;
       Some (spin_unlock2 FreedListLock s)
     }
   }"

fun tcb_free_block :: "nat \<Rightarrow> nat list \<Rightarrow> sys \<Rightarrow> sys option" where
  "tcb_free_block th [] s = Some s"
| "tcb_free_block th (x # xs) s = do { s \<leftarrow> tcb_free th x s; tcb_free_block th xs s }"

definition tcb_alloc :: "(nat \<Rightarrow> nat option) \<Rightarrow> nat \<Rightarrow> sys \<Rightarrow> (nat option \<times> sys) option" where
  "tcb_alloc malloc th s =
     (case the_maintask s th of
        None \<Rightarrow> Some (malloc 1, s)
      | Some the_scheduler \<Rightarrow> do {
          d \<leftarrow> scheddata (tcbs s the_scheduler);
          case as_task (freedlist (scps s d)) of
            Some tcb \<Rightarrow>
              Some (Some tcb, upd_scp d (\<lambda>x. x\<lparr>freedlist := mem s (Next Fld_node tcb),
                                               freedsize := freedsize x - 1\<rparr>) s)
          | None \<Rightarrow> do {
              s \<leftarrow> spin_lock2 FreedListLock s;
              case as_task (global_freedlist s) of
                Some tcb \<Rightarrow>
                  Some (Some tcb, spin_unlock2 FreedListLock
                    (s\<lparr>global_freedlist := mem s (Next Fld_node tcb)\<rparr>))
              | None \<Rightarrow> do {
                  let s = spin_unlock2 FreedListLock s;
                  case malloc TCB_INCREASE_SIZE_AT_EMPTY of
                    None \<Rightarrow> Some (None, s)
                  | Some base \<Rightarrow> do {
                      s \<leftarrow> tcb_free_block th (map (\<lambda>i. base + i) [1 ..< TCB_INCREASE_SIZE_AT_EMPTY]) s;
                      Some (Some base, s)
                    }
                }
            }
        })"

section \<open>The free lists\<close>

fun free_list :: "chain_id mem \<Rightarrow> chain_id ref \<Rightarrow> nat list \<Rightarrow> bool" where
  "free_list m r [] = (r = NULL)"
| "free_list m r (x # xs) = (r = Tcb x \<and> free_list m (m (Next Fld_node x)) xs)"

lemma free_list_frame:
  "free_list m r xs \<Longrightarrow> (\<And>x. x \<in> set xs \<Longrightarrow> m' (Next Fld_node x) = m (Next Fld_node x)) \<Longrightarrow> free_list m' r xs"
  by (induction xs arbitrary: r) auto

lemma free_list_upd: "free_list m r xs \<Longrightarrow> x \<notin> set xs \<Longrightarrow> free_list (m(Next Fld_node x := v)) r xs"
  by (rule free_list_frame) auto

lemma free_list_push:
  "free_list m r xs \<Longrightarrow> x \<notin> set xs \<Longrightarrow> free_list (m(Next Fld_node x := r)) (Tcb x) (x # xs)"
  by (simp add: free_list_upd)

text \<open>
  \<open>pools s Q F gs\<close>: scheduler \<open>d\<close> has the free blocks \<open>F d\<close>, the global list is \<open>gs\<close>; no
  block is on two lists, and none of them is on a task queue.
\<close>

definition free_blocks :: "(nat \<rightharpoonup> nat list) \<Rightarrow> nat list \<Rightarrow> nat set" where
  "free_blocks F gs = set gs \<union> {x. \<exists>d ls. F d = Some ls \<and> x \<in> set ls}"

definition pools :: "sys \<Rightarrow> (chain_id \<rightharpoonup> nat list) \<Rightarrow> (nat \<rightharpoonup> nat list) \<Rightarrow> nat list \<Rightarrow> bool" where
  "pools s Q F gs =
     (free_list (mem s) (global_freedlist s) gs \<and> distinct gs \<and>
      (\<forall>d ls. F d = Some ls \<longrightarrow> free_list (mem s) (freedlist (scps s d)) ls \<and> distinct ls \<and>
         freedsize (scps s d) = int (length ls) \<and> length ls \<le> MAX_LOCAL_FREED_TASKS \<and> set ls \<inter> set gs = {}) \<and>
      (\<forall>d e ls ks. d \<noteq> e \<longrightarrow> F d = Some ls \<longrightarrow> F e = Some ks \<longrightarrow> set ls \<inter> set ks = {}) \<and>
      (\<forall>x \<in> free_blocks F gs. node_free Q x))"

text \<open>What allocation leaves alone.\<close>

definition pool_frame :: "sys \<Rightarrow> sys \<Rightarrow> bool" where
  "pool_frame s s' =
     (tcbs s' = tcbs s \<and> the_maintask s' = the_maintask s \<and> current_task s' = current_task s \<and>
      mutexes s' = mutexes s \<and> sems s' = sems s \<and> one_n_model s' = one_n_model s \<and>
      nGlobalFibTasks s' = nGlobalFibTasks s \<and> mServiceThreads s' = mServiceThreads s \<and>
      global_cached_stack s' = global_cached_stack s \<and> global_cached_stack_mask s' = global_cached_stack_mask s \<and>
      (\<forall>e. nLocalFibTasks (scps s' e) = nLocalFibTasks (scps s e) \<and> cached_stack (scps s' e) = cached_stack (scps s e) \<and>
           cached_stack_mask (scps s' e) = cached_stack_mask (scps s e) \<and> scp_group (scps s' e) = scp_group (scps s e)))"

lemma pool_frame_refl [simp]: "pool_frame s s"
  by (simp add: pool_frame_def)

lemma pool_frame_trans: "pool_frame s s' \<Longrightarrow> pool_frame s' s'' \<Longrightarrow> pool_frame s s''"
  by (simp add: pool_frame_def)

lemma free_blocks_local: "F d = Some ls \<Longrightarrow> set ls \<subseteq> free_blocks F gs"
  by (auto simp: free_blocks_def)

lemma free_blocks_push: "F d = Some ls \<Longrightarrow> free_blocks (F(d \<mapsto> x # ls)) gs = insert x (free_blocks F gs)"
  by (auto simp: free_blocks_def split: if_splits) (metis option.inject)

lemma free_blocks_global: "free_blocks F (x # gs) = insert x (free_blocks F gs)"
  by (auto simp: free_blocks_def)

lemma chains_off_cell:
  assumes "chains link_field m Q" "node_free Q x"
  shows "chains link_field (m(Next Fld_node x := v)) Q"
proof -
  have "is_chain (link_field c) (m(Next Fld_node x := v)) c xs" if "Q c = Some xs" for c xs
    by (rule is_chain_frame[OF chains_is_chain[OF assms(1) that]])
      (use off_chainsD[OF assms(2) that] in \<open>auto simp: cells_def\<close>)
  then show ?thesis using assms(1) unfolding chains_def by blast
qed

lemma tcb_free_spec:
  assumes p: "pools s Q F gs" and q: "queues s Q" "quiet s"
    and m: "the_maintask s th = Some m" "scheddata (tcbs s m) = Some d" "F d = Some ls"
    and x: "x \<notin> free_blocks F gs" "node_free Q x"
  shows "\<exists>s'. tcb_free th x s = Some s' \<and> queues s' Q \<and> quiet s' \<and>
     pools s' Q (if length ls < MAX_LOCAL_FREED_TASKS then F(d \<mapsto> x # ls) else F)
       (if length ls < MAX_LOCAL_FREED_TASKS then gs else x # gs) \<and>
     pool_frame s s'"
proof -
  have sz: "freedsize (scps s d) = int (length ls)" using p m(3) by (simp add: pools_def)
  have xs: "x \<notin> set gs" "\<And>e ks. F e = Some ks \<Longrightarrow> x \<notin> set ks"
    using x(1) by (auto simp: free_blocks_def)
  note pd = p[unfolded pools_def]
  show ?thesis
  proof (cases "length ls < MAX_LOCAL_FREED_TASKS")
    case True
    let ?s = "s\<lparr>mem := (mem s)(Next Fld_node x := freedlist (scps s d)),
       scps := (scps s)(d := (scps s d)\<lparr>freedlist := Tcb x, freedsize := freedsize (scps s d) + 1\<rparr>)\<rparr>"
    have "tcb_free th x s = Some ?s" using m True sz by (simp add: tcb_free_def sys_defs)
    moreover have "queues ?s Q" using chains_off_cell[OF _ x(2)] q(1) by (simp add: queues_def)
    moreover have "pools ?s Q (F(d \<mapsto> x # ls)) gs"
    proof -
      have "free_list (mem ?s) (global_freedlist ?s) gs"
        using pd xs(1) by (auto intro: free_list_upd)
      moreover have "free_list (mem ?s) (freedlist (scps ?s e)) ks" if "(F(d \<mapsto> x # ls)) e = Some ks" for e ks
      proof (cases "e = d")
        case True
        then show ?thesis using that pd m(3) xs(2) free_list_push[of "mem s" "freedlist (scps s d)" ls x] by auto
      next
        case False
        then show ?thesis using that pd xs(2)[of e ks] by (auto intro: free_list_upd)
      qed
      moreover have "length (x # ls) \<le> MAX_LOCAL_FREED_TASKS" using True by simp
      ultimately show ?thesis
        using pd xs x(2) m(3) sz unfolding pools_def free_blocks_push[where F = F and d = d, OF m(3)] by auto
    qed
    ultimately show ?thesis using True q(2) by (intro exI[of _ ?s]) (simp add: quiet_def pool_frame_def)
  next
    case False
    let ?s = "s\<lparr>mem := (mem s)(Next Fld_node x := global_freedlist s), global_freedlist := Tcb x\<rparr>"
    have "tcb_free th x s = Some ?s" using m False sz q(2)
      by (simp add: tcb_free_def sys_defs spin_lock2_def spin_unlock2_def fun_upd_idem)
    moreover have "queues ?s Q" using chains_off_cell[OF _ x(2)] q(1) by (simp add: queues_def)
    moreover have "pools ?s Q F (x # gs)"
    proof -
      have "free_list (mem ?s) (global_freedlist ?s) (x # gs)"
        using pd xs(1) free_list_push[of "mem s" "global_freedlist s" gs x] by simp
      moreover have "free_list (mem ?s) (freedlist (scps ?s e)) ks" if "F e = Some ks" for e ks
        using that pd xs(2)[of e ks] by (auto intro: free_list_upd)
      ultimately show ?thesis
        using pd xs x(2) unfolding pools_def free_blocks_global by auto
    qed
    ultimately show ?thesis using False q(2) by (intro exI[of _ ?s]) (simp add: quiet_def pool_frame_def)
  qed
qed

lemma tcb_free_block_spec:
  assumes "pools s Q F gs" "queues s Q" "quiet s"
    and "the_maintask s th = Some m" "scheddata (tcbs s m) = Some d" "F d = Some ls"
    and "distinct xs" "set xs \<inter> free_blocks F gs = {}" "\<forall>x \<in> set xs. node_free Q x"
    and "length ls + length xs \<le> MAX_LOCAL_FREED_TASKS"
  shows "\<exists>s'. tcb_free_block th xs s = Some s' \<and> queues s' Q \<and> quiet s' \<and>
     pools s' Q (F(d \<mapsto> rev xs @ ls)) gs \<and>
     pool_frame s s'"
  using assms
proof (induction xs arbitrary: s F ls)
  case Nil
  then show ?case by (auto simp: map_upd_triv)
next
  case (Cons x xs)
  have lt: "length ls < MAX_LOCAL_FREED_TASKS" using Cons.prems(10) by simp
  have xf: "x \<notin> free_blocks F gs" "node_free Q x" using Cons.prems(8,9) by auto
  obtain s1 where s1: "tcb_free th x s = Some s1" "queues s1 Q" "quiet s1" "pools s1 Q (F(d \<mapsto> x # ls)) gs"
    "pool_frame s s1"
    using tcb_free_spec[OF Cons.prems(1-6) xf] lt by auto
  have fb: "free_blocks (F(d \<mapsto> x # ls)) gs = insert x (free_blocks F gs)"
    using free_blocks_push[where F = F and d = d] Cons.prems(6) by blast
  have "the_maintask s1 th = Some m" "scheddata (tcbs s1 m) = Some d" "(F(d \<mapsto> x # ls)) d = Some (x # ls)"
    "distinct xs" "set xs \<inter> free_blocks (F(d \<mapsto> x # ls)) gs = {}" "\<forall>x \<in> set xs. node_free Q x"
    "length (x # ls) + length xs \<le> MAX_LOCAL_FREED_TASKS"
    using Cons.prems s1(5) fb by (auto simp: pool_frame_def)
  from Cons.IH[OF s1(4,2,3) this] obtain s' where "tcb_free_block th xs s1 = Some s'" "queues s' Q" "quiet s'"
    "pools s' Q (F(d \<mapsto> rev (x # xs) @ ls)) gs" "pool_frame s1 s'" by (auto simp del: fun_upd_apply)
  with s1 pool_frame_trans[OF s1(5)] show ?case by (simp del: fun_upd_apply rev.simps)
qed

text \<open>Taking the head of a free list.\<close>

lemma pools_pop_local:
  assumes p: "pools s Q F gs" and m: "F d = Some (x # ls)"
  shows "pools (s\<lparr>scps := (scps s)(d := (scps s d)\<lparr>freedlist := mem s (Next Fld_node x),
           freedsize := freedsize (scps s d) - 1\<rparr>)\<rparr>) Q (F(d \<mapsto> ls)) gs"
    and "x \<notin> free_blocks (F(d \<mapsto> ls)) gs"
proof -
  note pd = p[unfolded pools_def]
  have head: "free_list (mem s) (freedlist (scps s d)) (x # ls)" "distinct (x # ls)"
    "freedsize (scps s d) = int (length (x # ls))" "length (x # ls) \<le> MAX_LOCAL_FREED_TASKS" "set (x # ls) \<inter> set gs = {}"
    using pd m by blast+
  have "free_blocks (F(d \<mapsto> ls)) gs \<subseteq> free_blocks F gs"
    using m by (fastforce simp: free_blocks_def split: if_splits)
  moreover have "set ls \<inter> set ks = {}" if "F e = Some ks" "e \<noteq> d" for e ks
    using pd m that by (metis Int_Un_eq(1) Un_empty insert_disjoint(1) list.simps(15))
  ultimately show "pools (s\<lparr>scps := (scps s)(d := (scps s d)\<lparr>freedlist := mem s (Next Fld_node x),
           freedsize := freedsize (scps s d) - 1\<rparr>)\<rparr>) Q (F(d \<mapsto> ls)) gs"
    using pd head unfolding pools_def by (auto simp: Int_commute)
  show "x \<notin> free_blocks (F(d \<mapsto> ls)) gs"
    using pd m by (fastforce simp: free_blocks_def split: if_splits)
qed

lemma pools_pop_global:
  assumes p: "pools s Q F (x # gs)"
  shows "pools (s\<lparr>global_freedlist := mem s (Next Fld_node x)\<rparr>) Q F gs" and "x \<notin> free_blocks F gs"
proof -
  note pd = p[unfolded pools_def]
  show "pools (s\<lparr>global_freedlist := mem s (Next Fld_node x)\<rparr>) Q F gs"
    using pd unfolding pools_def free_blocks_global by auto
  show "x \<notin> free_blocks F gs" using pd by (fastforce simp: free_blocks_def)
qed

text \<open>
  Allocation never hands out a block that is still on a free list or on a task queue, keeps the
  lists well formed, and fails only when \<open>malloc\<close> does.  \<open>fresh\<close> is what is asked of
  \<open>malloc\<close>: memory nobody uses yet.
\<close>

definition fresh :: "(nat \<Rightarrow> nat option) \<Rightarrow> (chain_id \<rightharpoonup> nat list) \<Rightarrow> (nat \<rightharpoonup> nat list) \<Rightarrow> nat list \<Rightarrow> bool" where
  "fresh malloc Q F gs = (\<forall>n base i. malloc n = Some base \<longrightarrow> i < n \<longrightarrow>
     base + i \<notin> free_blocks F gs \<and> node_free Q (base + i))"

text \<open>The blocks that a call of \<open>malloc\<close> may return.\<close>

definition arena :: "(nat \<Rightarrow> nat option) \<Rightarrow> nat set" where
  "arena malloc = {x. \<exists>n base i. malloc n = Some base \<and> i < n \<and> x = base + i}"

lemma fresh_arena: "fresh malloc Q F gs = (\<forall>x \<in> arena malloc. x \<notin> free_blocks F gs \<and> node_free Q x)"
  by (auto simp: fresh_def arena_def)

lemma tcb_alloc_grows:
  assumes p: "pools s Q F []" and q: "queues s Q" "quiet s" and fr: "fresh malloc Q F []"
    and m: "the_maintask s th = Some m" "scheddata (tcbs s m) = Some d" "F d = Some []"
    and base: "malloc TCB_INCREASE_SIZE_AT_EMPTY = Some base"
  shows "\<exists>s' F'. tcb_alloc malloc th s = Some (Some base, s') \<and> queues s' Q \<and> quiet s' \<and> pools s' Q F' [] \<and>
     base \<notin> free_blocks F' [] \<and> node_free Q base \<and> F' d \<noteq> None \<and> pool_frame s s' \<and>
     insert base (free_blocks F' []) \<subseteq> free_blocks F [] \<union> arena malloc"
proof -
  let ?n = TCB_INCREASE_SIZE_AT_EMPTY and ?xs = "map (\<lambda>i. base + i) [1 ..< TCB_INCREASE_SIZE_AT_EMPTY]"
  have ok: "base + i \<notin> free_blocks F [] \<and> node_free Q (base + i)" if "i < ?n" for i
    using fr base that by (auto simp: fresh_def)
  have ok': "x \<notin> free_blocks F [] \<and> node_free Q x" if "x \<in> set ?xs" for x
  proof -
    from that obtain i where "x = base + i" "i < ?n" unfolding set_map by (auto simp del: image_add_atLeastLessThan)
    then show ?thesis using ok by simp
  qed
  have n: "0 < ?n" "length ([] :: nat list) + length ?xs \<le> MAX_LOCAL_FREED_TASKS"
    by (simp_all add: TCB_INCREASE_SIZE_AT_EMPTY_def MAX_LOCAL_FREED_TASKS_def)
  have "distinct ?xs" "set ?xs \<inter> free_blocks F [] = {}" "\<forall>x \<in> set ?xs. node_free Q x"
    using ok' by (auto simp: distinct_map inj_on_def simp del: set_map)
  from tcb_free_block_spec[OF p q m this n(2)]
  obtain s' where s': "tcb_free_block th ?xs s = Some s'" "queues s' Q" "quiet s'"
    "pools s' Q (F(d \<mapsto> rev ?xs @ [])) []" "pool_frame s s'"
    by blast
  have "free_list (mem s) (freedlist (scps s d)) []" "free_list (mem s) (global_freedlist s) []"
    using p m(3) unfolding pools_def by blast+
  then have "tcb_alloc malloc th s = Some (Some base, s')" using m q(2) base s'(1)
    by (simp add: tcb_alloc_def spin_lock2_def spin_unlock2_def fun_upd_idem)
  moreover have "base \<notin> free_blocks (F(d \<mapsto> rev ?xs @ [])) []"
    using ok[OF n(1)] by (auto simp: free_blocks_def split: if_splits)
  moreover have "base + i \<in> arena malloc" if "i < ?n" for i using base that by (auto simp: arena_def)
  then have "insert base (set ?xs) \<subseteq> arena malloc" using n(1) by (force simp del: image_add_atLeastLessThan)
  then have "insert base (free_blocks (F(d \<mapsto> rev ?xs @ [])) []) \<subseteq> free_blocks F [] \<union> arena malloc"
    by (auto simp: free_blocks_def simp del: set_map split: if_splits)
  ultimately show ?thesis using s' ok[OF n(1)]
    by (intro exI[of _ s'] exI[of _ "F(d \<mapsto> rev ?xs @ [])"]) simp
qed

lemma tcb_alloc_spec:
  assumes p: "pools s Q F gs" and q: "queues s Q" "quiet s" and fr: "fresh malloc Q F gs"
    and m: "the_maintask s th = Some m" "scheddata (tcbs s m) = Some d" "F d = Some ls"
  shows "\<exists>r s' F' gs'. tcb_alloc malloc th s = Some (r, s') \<and> queues s' Q \<and> quiet s' \<and> pools s' Q F' gs' \<and>
     (r = None \<longleftrightarrow> ls = [] \<and> gs = [] \<and> malloc TCB_INCREASE_SIZE_AT_EMPTY = None) \<and>
     (\<forall>x. r = Some x \<longrightarrow> x \<notin> free_blocks F' gs' \<and> node_free Q x) \<and>
     F' d \<noteq> None \<and>
     pool_frame s s' \<and> set_option r \<union> free_blocks F' gs' \<subseteq> free_blocks F gs \<union> arena malloc"
proof -
  note pd = p[unfolded pools_def]
  have ql: "free_list (mem s) (freedlist (scps s d)) ls" using pd m(3) by simp
  consider x xs where "ls = x # xs" | x xs where "ls = []" "gs = x # xs"
    | "ls = []" "gs = []" "malloc TCB_INCREASE_SIZE_AT_EMPTY = None"
    | base where "ls = []" "gs = []" "malloc TCB_INCREASE_SIZE_AT_EMPTY = Some base"
    by (cases ls; cases gs; cases "malloc TCB_INCREASE_SIZE_AT_EMPTY") auto
  then show ?thesis
  proof cases
    case 1
    let ?s = "s\<lparr>scps := (scps s)(d := (scps s d)\<lparr>freedlist := mem s (Next Fld_node x),
           freedsize := freedsize (scps s d) - 1\<rparr>)\<rparr>"
    have Fd: "F d = Some (x # xs)" using m(3) 1 by simp
    have "tcb_alloc malloc th s = Some (Some x, ?s)" using m ql 1 by (simp add: tcb_alloc_def sys_defs)
    moreover have "node_free Q x" using pd free_blocks_local[where F = F and d = d, OF Fd, of gs] by auto
    moreover have "insert x (free_blocks (F(d \<mapsto> xs)) gs) \<subseteq> free_blocks F gs"
      using Fd by (fastforce simp: free_blocks_def split: if_splits)
    ultimately show ?thesis using pools_pop_local[OF p, of d x xs] Fd q 1
      by (intro exI[of _ "Some x"] exI[of _ ?s] exI[of _ "F(d \<mapsto> xs)"] exI[of _ gs]) (simp add: queues_def quiet_def pool_frame_def, blast)
  next
    case 2
    let ?s = "s\<lparr>global_freedlist := mem s (Next Fld_node x)\<rparr>"
    have p2: "pools s Q F (x # xs)" using p 2 by simp
    have "tcb_alloc malloc th s = Some (Some x, ?s)" using m ql 2 pd q(2)
      by (simp add: tcb_alloc_def spin_lock2_def spin_unlock2_def fun_upd_idem)
    moreover have "node_free Q x" using pd 2 by (auto simp: free_blocks_def)
    ultimately show ?thesis using pools_pop_global[OF p2] q 2 m(3)
      by (intro exI[of _ "Some x"] exI[of _ ?s] exI[of _ F] exI[of _ xs]) (simp add: queues_def quiet_def pool_frame_def free_blocks_global, blast)
  next
    case 3
    then have "tcb_alloc malloc th s = Some (None, s)" using m ql pd q(2)
      by (simp add: tcb_alloc_def spin_lock2_def spin_unlock2_def fun_upd_idem)
    then show ?thesis using p q 3 m(3)
      by (intro exI[of _ None] exI[of _ s] exI[of _ F] exI[of _ gs]) simp
  next
    case 4
    with tcb_alloc_grows[OF _ q _ m(1,2), of F malloc base] p fr m(3)
    obtain s' F' where "tcb_alloc malloc th s = Some (Some base, s')" "queues s' Q" "quiet s'" "pools s' Q F' []"
      "base \<notin> free_blocks F' []" "node_free Q base" "F' d \<noteq> None" "pool_frame s s'"
      "insert base (free_blocks F' []) \<subseteq> free_blocks F [] \<union> arena malloc" by blast
    with 4 show ?thesis by (intro exI[of _ "Some base"] exI[of _ s'] exI[of _ F'] exI[of _ "[]"]) simp
  qed
qed

section \<open>Queue operations leave the free lists alone\<close>

text \<open>The first words of blocks that are on no queue, apart from block \<open>t\<close>, are the same.\<close>

definition off_same :: "(chain_id \<rightharpoonup> nat list) \<Rightarrow> nat \<Rightarrow> chain_id mem \<Rightarrow> chain_id mem \<Rightarrow> bool" where
  "off_same Q t m m' = (\<forall>x. node_free Q x \<longrightarrow> x \<noteq> t \<longrightarrow> m' (Next Fld_node x) = m (Next Fld_node x))"

lemma insert_before_off:
  assumes "queues s Q" "link_field c = Fld_node" "Q c = Some (xs @ b # ys)"
    and "node_insert_before (Tcb b) (Tcb t) (mem s) = Some mm"
  shows "off_same Q t (mem s) mm"
proof -
  have ch: "is_chain Fld_node (mem s) c (xs @ b # ys)" using chains_is_chain assms by (metis queues_def)
  have mm: "mm = splice Fld_node (left_of c xs) (Tcb t) (right_of c (b # ys)) (mem s)"
    using insert_before_eq[OF ch, of t] assms(4) by (simp add: node_insert_before_def)
  show ?thesis unfolding off_same_def mm
  proof (intro allI impI)
    fix x assume "node_free Q x" "x \<noteq> t"
    then have "Next Fld_node x \<notin> cells Fld_node c (xs @ t # b # ys)"
      using off_chainsD[of link_field Fld_node Q x c] assms(2,3) by (auto simp: cells_def)
    then show "splice Fld_node (left_of c xs) (Tcb t) (right_of c (b # ys)) (mem s) (Next Fld_node x) = mem s (Next Fld_node x)"
      by (rule splice_outside)
  qed
qed

lemma append_off:
  assumes "queues s Q" "link_field c = Fld_node" "Q c = Some xs" "node_free Q t"
    and "node_append c (Tcb t) (mem s) = Some mm"
  shows "off_same Q t (mem s) mm"
proof -
  have ch: "is_chain Fld_node (mem s) c xs" using chains_is_chain assms by (metis queues_def)
  have tx: "t \<notin> set xs" using off_chainsD[OF assms(4,3,2)] .
  have mm: "mm = splice Fld_node (left_of c xs) (Tcb t) (right_of c []) (mem s)"
    using append_eq[OF ch tx] assms(5) by (simp add: node_append_def)
  show ?thesis unfolding off_same_def mm
  proof (intro allI impI)
    fix x assume "node_free Q x" "x \<noteq> t"
    then have "Next Fld_node x \<notin> cells Fld_node c (xs @ t # [])"
      using off_chainsD[of link_field Fld_node Q x c] assms(2,3) by (auto simp: cells_def)
    then show "splice Fld_node (left_of c xs) (Tcb t) (right_of c []) (mem s) (Next Fld_node x) = mem s (Next Fld_node x)"
      by (rule splice_outside)
  qed
qed

lemma remove_off:
  assumes "queues s Q" "link_field c = Fld_node" "Q c = Some (xs @ n # ys)"
    and "node_remove (Tcb n) (mem s) = Some mm"
  shows "off_same Q n (mem s) mm"
proof -
  have ch: "is_chain Fld_node (mem s) c (xs @ n # ys)" using chains_is_chain assms by (metis queues_def)
  have mm: "mm = unsplice Fld_node (left_of c xs) (right_of c ys) (mem s)"
    using remove_eq[OF ch] assms(4) by (simp add: node_remove_def)
  show ?thesis unfolding off_same_def mm
  proof (intro allI impI)
    fix x assume "node_free Q x" "x \<noteq> n"
    then have "Next Fld_node x \<notin> cells Fld_node c (xs @ n # ys)"
      using off_chainsD[of link_field Fld_node Q x c] assms(2,3) by (auto simp: cells_def)
    then show "unsplice Fld_node (left_of c xs) (right_of c ys) (mem s) (Next Fld_node x) = mem s (Next Fld_node x)"
      by (rule unsplice_outside)
  qed
qed

lemma pools_queue_op:
  assumes p: "pools s Q F gs" and t: "t \<notin> free_blocks F gs" and off: "off_same Q t (mem s) (mem s')"
    and same: "global_freedlist s' = global_freedlist s"
      "\<And>e. freedlist (scps s' e) = freedlist (scps s e)" "\<And>e. freedsize (scps s' e) = freedsize (scps s e)"
    and Q': "\<And>x. node_free Q x \<Longrightarrow> x \<noteq> t \<Longrightarrow> node_free Q' x"
  shows "pools s' Q' F gs"
proof -
  note pd = p[unfolded pools_def]
  have cell: "mem s' (Next Fld_node x) = mem s (Next Fld_node x)" if "x \<in> free_blocks F gs" for x
  proof -
    have "node_free Q x" using pd that by blast
    moreover have "x \<noteq> t" using t that by auto
    ultimately show ?thesis using off by (simp add: off_same_def)
  qed
  have fr: "free_list (mem s') r xs" if "free_list (mem s) r xs" "set xs \<subseteq> free_blocks F gs" for r xs
    using that(1) by (rule free_list_frame) (use cell that(2) in auto)
  have "free_list (mem s') (global_freedlist s') gs" using fr pd same by (simp add: free_blocks_def)
  moreover have "free_list (mem s') (freedlist (scps s' e)) ls" if "F e = Some ls" for e ls
    using fr[of "freedlist (scps s e)" ls] pd that same free_blocks_local[where F = F and d = e, OF that] by auto
  moreover have "node_free Q' x" if "x \<in> free_blocks F gs" for x
  proof (rule Q')
    show "node_free Q x" using pd that by blast
    show "x \<noteq> t" using t that by auto
  qed
  ultimately show ?thesis using pd same(3) unfolding pools_def by auto
qed

text \<open>A block that is freed is the next one to be allocated.\<close>

lemma tcb_free_alloc_roundtrip:
  assumes "the_maintask s th = Some m" "scheddata (tcbs s m) = Some d" "freedsize (scps s d) < int MAX_LOCAL_FREED_TASKS"
  shows "\<exists>s' s''. tcb_free th x s = Some s' \<and> tcb_alloc malloc th s' = Some (Some x, s'') \<and> scps s'' = scps s \<and>
     global_freedlist s'' = global_freedlist s"
  using assms by (auto simp: tcb_free_def tcb_alloc_def sys_defs Let_def fun_eq_iff)

end
