(* ===== verification/Stack_Cache.thy ===== *)
theory Stack_Cache
  imports Task_State
begin

text \<open>
  The cache of task stacks (\<^verbatim>\<open>src/task.c\<close>, STACK CACHE): eight slots per scheduler and 64
  global ones, a set bit of a mask marking a free slot.  \<open>mmap\<close> and \<open>mprotect\<close> are
  parameters; address 0 is the null pointer.
\<close>

section \<open>Bit scanning\<close>

text \<open>\<^verbatim>\<open>__builtin_ffs\<close>: one plus the index of the lowest set bit, 0 for a zero word.\<close>

definition ffs :: "'a::len word \<Rightarrow> nat" where
  "ffs w = (case find (\<lambda>i. bit w i) [0 ..< LENGTH('a)] of None \<Rightarrow> 0 | Some i \<Rightarrow> Suc i)"

lemma find_upt_Some: "find P [0 ..< n] = Some i \<Longrightarrow> i < n \<and> P i \<and> (\<forall>j < i. \<not> P j)"
  by (auto simp: find_Some_iff)

lemma ffs_zero: "ffs w = 0 \<longleftrightarrow> w = 0" for w :: "'a::len word"
proof
  assume "ffs w = 0"
  then have "find (\<lambda>i. bit w i) [0 ..< LENGTH('a)] = None" by (simp add: ffs_def split: option.splits)
  then show "w = 0" by (intro bit_word_eqI) (auto simp: find_None_iff)
qed (simp add: ffs_def find_None_iff split: option.split)

lemma ffs_Suc: "ffs w = Suc i \<Longrightarrow> bit w i \<and> i < LENGTH('a) \<and> (\<forall>j < i. \<not> bit w j)" for w :: "'a::len word"
  by (auto simp: ffs_def split: option.splits dest!: find_upt_Some)

text \<open>
  \<open>callback_on_setbit\<close> walks a word in steps of four bits and calls back for every set bit of
  the nibble, in ascending order.  The callbacks of the stack cache store the slot and clear the
  word, which ends the walk after the nibble.
\<close>

definition setbits :: "'a::len word \<Rightarrow> nat list" where
  "setbits w = filter (\<lambda>i. bit w i) [0, 1, 2, 3]"

lemma set_setbits: "i \<in> set (setbits w) \<longleftrightarrow> i < 4 \<and> bit w i"
proof -
  have "i < 4 \<longleftrightarrow> i \<in> {0, 1, 2, 3}" by auto
  then show ?thesis by (auto simp: setbits_def)
qed

definition probe :: "(nat \<times> 32 word) list \<Rightarrow> 32 word \<Rightarrow> nat \<Rightarrow> 'a::len word \<times> nat option \<Rightarrow> 'a word \<times> nat option" where
  "probe vec want p st = (if snd (vec ! p) \<ge> want then (0, Some p) else st)"

lemma fold_probe:
  "fold (\<lambda>i. probe vec want (p + i)) is st =
     (case find (\<lambda>i. snd (vec ! (p + i)) \<ge> want) (rev is) of None \<Rightarrow> st | Some i \<Rightarrow> (0, Some (p + i)))"
  by (induction "is" rule: rev_induct) (auto simp: probe_def)

function stack_search :: "(nat \<times> 32 word) list \<Rightarrow> 32 word \<Rightarrow> 'a::len word \<Rightarrow> nat \<Rightarrow> nat option \<Rightarrow> nat option" where
  "stack_search vec want bits p index =
     (if bits = 0 then index
      else let st = fold (\<lambda>i. probe vec want (p + i)) (setbits bits) (bits, index) in
           stack_search vec want (drop_bit 4 (fst st)) (p + 4) (snd st))"
  by pat_completeness auto
termination
proof (relation "measure (\<lambda>(vec, want, bits, p, index). unat bits)", simp)
  fix vec :: "(nat \<times> 32 word) list" and want :: "32 word" and bits :: "'a word" and p :: nat and index x
  assume "bits \<noteq> 0" and x: "x = fold (\<lambda>i. probe vec want (p + i)) (setbits bits) (bits, index)"
  then have pos: "0 < unat bits" by (simp add: unat_gt_0)
  have "fst x = bits \<or> fst x = 0" unfolding x fold_probe by (auto split: option.splits)
  then have "unat (drop_bit 4 (fst x)) < unat bits"
    using pos unfolding unat_drop_bit_eq by (auto simp: drop_bit_eq_div)
  then show "((vec, want, drop_bit 4 (fst x), p + 4, snd x), (vec, want, bits, p, index))
      \<in> measure (\<lambda>(vec, want, bits, p, index). unat bits)" by simp
qed

declare stack_search.simps [simp del]

text \<open>The search finds a slot exactly when there is one that is in use and large enough.\<close>

lemma bit_drop4: "bit (drop_bit 4 w) i = bit w (i + 4)" for w :: "'a::len word"
  by (simp add: bit_drop_bit_eq add.commute)

lemma search_done: "stack_search vec want 0 p index = index"
  by (simp add: stack_search.simps)

lemma stack_search_spec:
  "case stack_search vec want bits p index of
     None \<Rightarrow> index = None \<and> (\<forall>i. bit bits i \<longrightarrow> snd (vec ! (p + i)) < want)
   | Some k \<Rightarrow> (index = Some k \<and> (\<forall>i. bit bits i \<longrightarrow> snd (vec ! (p + i)) < want)) \<or>
       (\<exists>i. k = p + i \<and> bit bits i \<and> want \<le> snd (vec ! k))"
proof (induction vec want bits p index rule: stack_search.induct)
  case (1 vec want bits p index)
  let ?hit = "\<lambda>i. want \<le> snd (vec ! (p + i))"
  show ?case
  proof (cases "bits = 0")
    case True
    then show ?thesis by (subst stack_search.simps) (simp split: option.splits)
  next
    case False
    show ?thesis
    proof (cases "find ?hit (rev (setbits bits))")
      case None
      then have low: "bit bits i \<Longrightarrow> i < 4 \<Longrightarrow> \<not> ?hit i" for i
        by (simp add: find_None_iff set_setbits)
      have step: "stack_search vec want bits p index = stack_search vec want (drop_bit 4 bits) (p + 4) index"
        using False None by (subst stack_search.simps) (simp add: fold_probe)
      have shift: "(\<forall>i. bit (drop_bit 4 bits) i \<longrightarrow> snd (vec ! (p + 4 + i)) < want) \<Longrightarrow>
          bit bits i \<Longrightarrow> snd (vec ! (p + i)) < want" for i
        using low[of i] by (cases "i < 4") (auto simp: bit_drop4 not_le dest!: spec[of _ "i - 4"])
      have up: "bit (drop_bit 4 bits) i \<Longrightarrow> \<exists>j. p + 4 + i = p + j \<and> bit bits j" for i
        by (rule exI[of _ "i + 4"]) (simp add: bit_drop4)
      have F: "fold (\<lambda>i. probe vec want (p + i)) (setbits bits) (bits, index) = (bits, index)"
        using None by (simp add: fold_probe)
      have IH: "case stack_search vec want (drop_bit 4 bits) (p + 4) index of
          None \<Rightarrow> index = None \<and> (\<forall>i. bit (drop_bit 4 bits) i \<longrightarrow> snd (vec ! (p + 4 + i)) < want)
        | Some k \<Rightarrow> (index = Some k \<and> (\<forall>i. bit (drop_bit 4 bits) i \<longrightarrow> snd (vec ! (p + 4 + i)) < want)) \<or>
            (\<exists>i. k = p + 4 + i \<and> bit (drop_bit 4 bits) i \<and> want \<le> snd (vec ! k))"
        using 1[OF False refl] unfolding F fst_conv snd_conv .
      show ?thesis using IH shift up unfolding step by (cases "stack_search vec want (drop_bit 4 bits) (p + 4) index") fastforce+
    next
      case (Some i)
      then have "i \<in> set (setbits bits)" "?hit i" by (auto simp: find_Some_iff) (metis nth_mem set_rev length_rev)
      moreover have "stack_search vec want bits p index = Some (p + i)"
        using False Some by (subst stack_search.simps) (simp add: fold_probe search_done)
      ultimately show ?thesis by (auto simp: set_setbits)
    qed
  qed
qed

section \<open>The operations\<close>

text \<open>The slot overwritten when no slot is free, from the address of the stack.\<close>

definition victim_slot :: "nat \<Rightarrow> nat" where
  "victim_slot stackbase =
     (let u = of_nat stackbase :: 64 word;
          u = drop_bit 8 u XOR drop_bit 16 u XOR drop_bit 24 u XOR drop_bit 32 u;
          u = drop_bit 4 u + drop_bit 0 u
      in unat (u AND 7))"

text \<open>The first component of the result is the stack handed to \<open>munmap\<close>, if any.\<close>

definition fiber_stackcache_put :: "nat \<Rightarrow> nat \<Rightarrow> 32 word \<Rightarrow> sys \<Rightarrow> ((nat \<times> 32 word) option \<times> sys) option" where
  "fiber_stackcache_put th stackbase ssize s = do {
     the_scheduler \<leftarrow> the_maintask s th;
     d \<leftarrow> scheddata (tcbs s the_scheduler);
     let i = ffs (cached_stack_mask (scps s d));
     if i = 0 then do {
       s \<leftarrow> spin_lock2 StackCacheLock s;
       let g = ffs (global_cached_stack_mask s);
       let (index, s) = (if g \<noteq> 0
         then (g - 1, s\<lparr>global_cached_stack_mask := global_cached_stack_mask s AND NOT (push_bit (g - 1) 1),
                        global_cached_stack := (global_cached_stack s)[g - 1 := (stackbase, ssize)]\<rparr>)
         else (g, s));
       let s = spin_unlock2 StackCacheLock s;
       if index = 0 then do {
         let j = victim_slot stackbase;
         let old = cached_stack (scps s d) ! j;
         let s = upd_scp d (\<lambda>x. x\<lparr>cached_stack := (cached_stack x)[j := (stackbase, ssize)]\<rparr>) s;
         Some (if fst old \<noteq> 0 then Some old else None, s)
       }
       else Some (None, s)
     }
     else Some (None, upd_scp d (\<lambda>x. x\<lparr>cached_stack_mask := cached_stack_mask x AND NOT (push_bit (i - 1) 1),
                                       cached_stack := (cached_stack x)[i - 1 := (stackbase, ssize)]\<rparr>) s)
   }"

definition stack_from_system :: "(32 word \<Rightarrow> nat) \<Rightarrow> (nat \<Rightarrow> 32 word \<Rightarrow> bool) \<Rightarrow> 32 word \<Rightarrow> nat" where
  "stack_from_system mmap mprotect ssize =
     (let stackbase = mmap ssize in
      if stackbase \<noteq> 0 \<and> \<not> mprotect (stackbase + 4096) (4096 * (ssize div 4096 - 1)) then 0 else stackbase)"

text \<open>The result is the stack, 0 for none, and its size.\<close>

definition fiber_stackcache_get ::
  "(32 word \<Rightarrow> nat) \<Rightarrow> (nat \<Rightarrow> 32 word \<Rightarrow> bool) \<Rightarrow> nat \<Rightarrow> 32 word \<Rightarrow> sys \<Rightarrow> ((nat \<times> 32 word) \<times> sys) option" where
  "fiber_stackcache_get mmap mprotect th ssize s = do {
     hit \<leftarrow> (case the_maintask s th of
       None \<Rightarrow> Some None
     | Some the_scheduler \<Rightarrow> do {
         d \<leftarrow> scheddata (tcbs s the_scheduler);
         let bits = (NOT (cached_stack_mask (scps s d))) AND 0xFF;
         case stack_search (cached_stack (scps s d)) ssize bits 0 None of
           None \<Rightarrow> Some None
         | Some p \<Rightarrow> Some (Some (cached_stack (scps s d) ! p,
             upd_scp d (\<lambda>x. x\<lparr>cached_stack_mask := cached_stack_mask x OR push_bit p 1\<rparr>) s))
       });
     case hit of
       Some r \<Rightarrow> Some r
     | None \<Rightarrow> do {
         s \<leftarrow> spin_lock2 StackCacheLock s;
         let bits = NOT (global_cached_stack_mask s);
         case stack_search (global_cached_stack s) ssize bits 0 None of
           Some p \<Rightarrow> Some (global_cached_stack s ! p, spin_unlock2 StackCacheLock
             (s\<lparr>global_cached_stack_mask := global_cached_stack_mask s OR push_bit p 1\<rparr>))
         | None \<Rightarrow> do {
             let s = spin_unlock2 StackCacheLock s;
             Some ((stack_from_system mmap mprotect ssize, ssize), s)
           }
       }
   }"

section \<open>What the cache does\<close>

text \<open>
  \<open>slots_used x\<close>: the stacks in the local slots that are in use.  \<open>local_cache\<close> is the shape of a
  scheduler's cache: eight slots, only the low eight bits of the mask set.
\<close>

definition local_cache :: "FibSCP \<Rightarrow> bool" where
  "local_cache x = (length (cached_stack x) = 8 \<and> (\<forall>i. bit (cached_stack_mask x) i \<longrightarrow> i < 8))"

definition slot_used :: "FibSCP \<Rightarrow> nat \<Rightarrow> bool" where
  "slot_used x i = (i < 8 \<and> \<not> bit (cached_stack_mask x) i)"

lemma low8: "bit (0xFF :: 32 word) i \<longleftrightarrow> i < 8"
proof -
  have e: "(0xFF :: 32 word) = Bit_Operations.mask 8" by (simp add: mask_eq_exp_minus_1)
  show ?thesis unfolding e bit_mask_iff by auto
qed

lemma stackcache_put_local:
  assumes "the_maintask s th = Some m" "scheddata (tcbs s m) = Some d" "local_cache (scps s d)"
    and "cached_stack_mask (scps s d) \<noteq> 0"
  shows "\<exists>i x. fiber_stackcache_put th base sz s = Some (None, s\<lparr>scps := (scps s)(d := x)\<rparr>) \<and>
     \<not> slot_used (scps s d) i \<and> i < 8 \<and> local_cache x \<and> cached_stack x ! i = (base, sz) \<and>
     (\<forall>j. slot_used x j = (slot_used (scps s d) j \<or> j = i)) \<and>
     (\<forall>j. j \<noteq> i \<longrightarrow> cached_stack x ! j = cached_stack (scps s d) ! j)"
proof -
  obtain i where i: "ffs (cached_stack_mask (scps s d)) = Suc i"
    using assms(4) by (cases "ffs (cached_stack_mask (scps s d))") (auto simp: ffs_zero)
  note b = ffs_Suc[OF i]
  have i8: "i < 8" using b assms(3) by (auto simp: local_cache_def)
  let ?x = "(scps s d)\<lparr>cached_stack_mask := cached_stack_mask (scps s d) AND NOT (push_bit i 1),
     cached_stack := (cached_stack (scps s d))[i := (base, sz)]\<rparr>"
  have mb: "bit (cached_stack_mask ?x) j \<longleftrightarrow> bit (cached_stack_mask (scps s d)) j \<and> j \<noteq> i" for j
    using i8 by (auto simp: bit_simps dest: bit_imp_le_length)
  show ?thesis
    using assms i i8 b mb
    by (intro exI[of _ i] exI[of _ ?x])
      (auto simp: fiber_stackcache_put_def sys_defs local_cache_def slot_used_def)
qed

lemma stackcache_get_local:
  assumes "the_maintask s th = Some m" "scheddata (tcbs s m) = Some d" "local_cache (scps s d)"
    and "slot_used (scps s d) i" "want \<le> snd (cached_stack (scps s d) ! i)"
  shows "\<exists>k x. fiber_stackcache_get mmap mprotect th want s =
       Some (cached_stack (scps s d) ! k, s\<lparr>scps := (scps s)(d := x)\<rparr>) \<and>
     slot_used (scps s d) k \<and> want \<le> snd (cached_stack (scps s d) ! k) \<and> local_cache x \<and>
     cached_stack x = cached_stack (scps s d) \<and> (\<forall>j. slot_used x j = (slot_used (scps s d) j \<and> j \<noteq> k))"
proof -
  let ?v = "cached_stack (scps s d)" and ?b = "(NOT (cached_stack_mask (scps s d))) AND 0xFF"
  have used: "bit ?b j \<longleftrightarrow> slot_used (scps s d) j" for j
    unfolding bit_and_iff bit_not_iff low8 slot_used_def by auto
  note sp = stack_search_spec[where vec = ?v and want = want and bits = ?b and p = 0 and index = None]
  obtain k where k: "stack_search ?v want ?b 0 None = Some k"
    using sp assms(4,5) used[of i] by (cases "stack_search ?v want ?b 0 None") auto
  then have k2: "slot_used (scps s d) k" "want \<le> snd (?v ! k)" using sp used by auto
  let ?x = "(scps s d)\<lparr>cached_stack_mask := cached_stack_mask (scps s d) OR push_bit k 1\<rparr>"
  have mb: "bit (cached_stack_mask ?x) j \<longleftrightarrow> bit (cached_stack_mask (scps s d)) j \<or> j = k" for j
    using k2(1) by (auto simp: bit_simps slot_used_def)
  show ?thesis
    using assms(1-3) k k2 mb
    by (intro exI[of _ k] exI[of _ ?x])
      (auto simp: fiber_stackcache_get_def sys_defs local_cache_def slot_used_def)
qed

lemma victim_slot_bound: "victim_slot base < 8"
proof -
  have "u AND 7 = take_bit 3 u" for u :: "64 word" by (simp add: take_bit_eq_mask mask_numeral)
  moreover have "unat (take_bit 3 u) < 2 ^ 3" for u :: "64 word"
    by (simp only: unsigned_take_bit_eq take_bit_nat_less_exp)
  ultimately show ?thesis unfolding victim_slot_def Let_def by simp
qed

text \<open>A stack that is stored is there to be taken.\<close>

lemma stack_cache_roundtrip:
  assumes "the_maintask s th = Some m" "scheddata (tcbs s m) = Some d" "local_cache (scps s d)"
    and "cached_stack_mask (scps s d) \<noteq> 0" "want \<le> sz"
  shows "\<exists>s' s'' r k. fiber_stackcache_put th base sz s = Some (None, s') \<and>
     fiber_stackcache_get mm mp th want s' = Some (r, s'') \<and> want \<le> snd r \<and>
     r = cached_stack (scps s' d) ! k \<and> slot_used (scps s' d) k \<and> \<not> slot_used (scps s'' d) k \<and>
     (r = (base, sz) \<or> slot_used (scps s d) k \<and> r = cached_stack (scps s d) ! k) \<and> local_cache (scps s'' d)"
proof -
  obtain i x where x: "fiber_stackcache_put th base sz s = Some (None, s\<lparr>scps := (scps s)(d := x)\<rparr>)" "i < 8" "local_cache x"
    "cached_stack x ! i = (base, sz)" "\<And>j. slot_used x j = (slot_used (scps s d) j \<or> j = i)"
    "\<And>j. j \<noteq> i \<Longrightarrow> cached_stack x ! j = cached_stack (scps s d) ! j"
    using stackcache_put_local[OF assms(1-4)] by metis
  let ?s = "s\<lparr>scps := (scps s)(d := x)\<rparr>"
  have h: "the_maintask ?s th = Some m" "scheddata (tcbs ?s m) = Some d" "local_cache (scps ?s d)"
    "slot_used (scps ?s d) i" "want \<le> snd (cached_stack (scps ?s d) ! i)"
    using assms x by simp_all
  obtain k y where y: "fiber_stackcache_get mm mp th want ?s = Some (cached_stack (scps ?s d) ! k, ?s\<lparr>scps := (scps ?s)(d := y)\<rparr>)"
    "slot_used (scps ?s d) k" "want \<le> snd (cached_stack (scps ?s d) ! k)" "local_cache y" "\<And>j. slot_used y j = (slot_used (scps ?s d) j \<and> j \<noteq> k)"
    using stackcache_get_local[OF h] by metis
  have "cached_stack x ! k = (base, sz) \<or> slot_used (scps s d) k \<and> cached_stack x ! k = cached_stack (scps s d) ! k"
    using x(4,5,6) y(2) by (cases "k = i") auto
  then show ?thesis using x(1) y
    by (intro exI[of _ ?s] exI[of _ "?s\<lparr>scps := (scps ?s)(d := y)\<rparr>"] exI[of _ "cached_stack x ! k"] exI[of _ k]) simp
qed

text \<open>
  When the cache of the thread is full and slot 0 of the global cache is the free one, a stack is stored in both: the
  index 0 is taken for \<open>no slot found\<close>.
\<close>

lemma stack_stored_twice:
  assumes "quiet s" "the_maintask s th = Some m" "scheddata (tcbs s m) = Some d" "cached_stack_mask (scps s d) = 0"
    and "length (cached_stack (scps s d)) = 8" "bit (global_cached_stack_mask s) 0" "global_cached_stack s \<noteq> []"
  shows "\<exists>r s' j. fiber_stackcache_put th base sz s = Some (r, s') \<and>
     \<not> bit (global_cached_stack_mask s') 0 \<and> global_cached_stack s' ! 0 = (base, sz) \<and>
     slot_used (scps s' d) j \<and> cached_stack (scps s' d) ! j = (base, sz)"
proof -
  have g: "ffs (global_cached_stack_mask s) = Suc 0"
  proof (cases "ffs (global_cached_stack_mask s)")
    case 0
    then show ?thesis using assms(6) ffs_zero[of "global_cached_stack_mask s"] by auto
  next
    case (Suc i)
    then show ?thesis using assms(6) ffs_Suc[of "global_cached_stack_mask s" i] by (cases i) auto
  qed
  have l: "ffs (cached_stack_mask (scps s d)) = 0" using assms(4) ffs_zero by blast
  show ?thesis using assms g l victim_slot_bound[of base]
    by (auto simp: fiber_stackcache_put_def sys_defs spin_lock2_def spin_unlock2_def spin_lock_def spin_unlock_def Let_def
        slot_used_def bit_simps intro!: exI[of _ "victim_slot base"])
qed

end
