(* ===== verification/Lifecycle.thy ===== *)
theory Lifecycle
  imports Tcb_Pool Stack_Cache Wakeup "HOL-Library.Signed_Division"
begin

text \<open>
  Birth and death of tasks and threads (\<^verbatim>\<open>src/task.c\<close>): start-up of the library,
  \<open>fiber_create\<close>, the end of a task in \<open>cpp_taskmain\<close>, and the scheduler task that every
  service thread runs.  The allocators of the system, the addresses of the assembly entry points
  and the user's callbacks are parameters.
\<close>

section \<open>Start-up\<close>

definition FiberGlobalStartup :: "sys \<Rightarrow> bool \<times> sys" where
  "FiberGlobalStartup s =
     (True, s\<lparr>mem := fold (\<lambda>i. chain_init_empty (GlobalReady i)) [0 ..< MAX_GLOBAL_GROUPS] (mem s)\<rparr>)"

text \<open>\<open>malloc_scp\<close> is the address of a new scheduler block, or none.\<close>

definition fibscp_alloc :: "nat option \<Rightarrow> sys \<Rightarrow> nat option \<times> sys" where
  "fibscp_alloc malloc_scp s =
     (case malloc_scp of
        None \<Rightarrow> (None, s)
      | Some d \<Rightarrow>
         (let s = upd_scp d (\<lambda>_. \<lparr>freedlist = NULL, freedsize = 0, scp_group = 0,
                    cached_stack = replicate 8 (0, 0), cached_stack_mask = 0, nLocalFibTasks = 0\<rparr>) s;
              s = s\<lparr>locks := (locks s)(WadogLock d := False)\<rparr>;
              s = s\<lparr>mem := chain_init_empty (ReadyList d) (mem s)\<rparr>;
              s = s\<lparr>mem := chain_init_empty (WadogList d) (mem s)\<rparr>;
              s = upd_scp d (\<lambda>x. x\<lparr>cached_stack_mask := 0xFF\<rparr>) s
          in (Some d, s)))"

definition hash6432shift :: "64 word \<Rightarrow> 32 word" where
  "hash6432shift key =
     (let key = NOT key + push_bit 18 key;
          key = key XOR drop_bit 31 key;
          key = key * 21;
          key = key XOR drop_bit 11 key;
          key = key + push_bit 6 key;
          key = key XOR drop_bit 22 key
      in ucast key)"

section \<open>Creating a task\<close>

text \<open>Division of C: by zero it faults, otherwise it rounds towards zero.\<close>

definition cdiv :: "int \<Rightarrow> int \<Rightarrow> int option" where
  "cdiv a b = (if b = 0 then None else Some (a sdiv b))"

definition local_tasks :: "nat \<Rightarrow> sys \<Rightarrow> int" where
  "local_tasks d s = sint (nLocalFibTasks (scps s d))"

definition crowded :: "nat \<Rightarrow> sys \<Rightarrow> bool option" where
  "crowded d s = do {
     n \<leftarrow> cdiv (nGlobalFibTasks s * 7) 6;
     q \<leftarrow> cdiv (n + mServiceThreads s - 1) (mServiceThreads s);
     Some (local_tasks d s > q)
   }"

record platform =
  malloc_tcb :: "nat \<Rightarrow> nat option"
  malloc_scp :: "nat option"
  mmap :: "32 word \<Rightarrow> nat"
  mprotect :: "nat \<Rightarrow> 32 word \<Rightarrow> bool"
  cpp_taskmain_addr :: "64 word"
  asm_taskmain_addr :: "64 word"

text \<open>The control block that \<open>fiber_create\<close> fills in; the other fields keep what the block held.\<close>

definition init_tcb :: "platform \<Rightarrow> nat \<Rightarrow> nat \<Rightarrow> nat \<Rightarrow> nat \<Rightarrow> 32 word \<Rightarrow> FibTCB \<Rightarrow> FibTCB" where
  "init_tcb P t func arg stackbase ssize b =
     (let sp = of_nat stackbase + ucast (ssize AND NOT 15) :: 64 word;
          sp = (if ssize AND MASK_SYSTEM_STACK \<noteq> 0 then sp - 8 else sp)
      in b\<lparr>stackaddr := stackbase, stacksize := ssize, entry := func, args := arg,
           group := unat (hash6432shift (of_nat t XOR of_nat stackbase) AND (of_nat MAX_GLOBAL_GROUPS - 1)),
           onTaskStartup := None, onTaskCleanup := None,
           regs := (regs b)\<lparr>reg_r12 := of_nat t, reg_r15 := cpp_taskmain_addr P,
                             reg_rip := asm_taskmain_addr P, reg_rsp := sp\<rparr>,
           resume_at := K_entry\<rparr>)"

definition enter_ready :: "nat \<Rightarrow> nat \<Rightarrow> sys \<Rightarrow> sys option" where
  "enter_ready the_scheduler t s = do {
     let s = upd_tcb t (\<lambda>b. b\<lparr>scheduler := Some the_scheduler, scheddata := scheddata (tcbs s the_scheduler)\<rparr>) s;
     s \<leftarrow> inc_local_tasks t s;
     d \<leftarrow> scheddata (tcbs s the_scheduler);
     if t \<noteq> the_scheduler then on_mem (node_insert_before (Tcb the_scheduler) (Tcb t)) s
     else on_mem (node_append (ReadyList d) (Tcb t)) s
   }"

definition fiber_create ::
  "platform \<Rightarrow> nat \<Rightarrow> nat \<Rightarrow> nat \<Rightarrow> nat \<Rightarrow> 32 word \<Rightarrow> sys \<Rightarrow> (nat option \<times> sys) option" where
  "fiber_create P th func arg stack ssize s = do {
     (r, s) \<leftarrow> tcb_alloc (malloc_tcb P) th s;
     case r of
       None \<Rightarrow> Some (None, s)
     | Some t \<Rightarrow> do {
         let s = upd_tcb t (\<lambda>b. b\<lparr>state := STATES_READY\<rparr>) s;
         ((stackbase, got), s) \<leftarrow> (if stack = 0
           then fiber_stackcache_get (mmap P) (mprotect P) th (((ssize + 4095) div 4096) * 4096) s
           else Some ((stack, ssize), s));
         if stackbase = 0 then do {
           s \<leftarrow> tcb_free th t s;
           Some (None, s)
         } else do {
           let ssize = (if stack = 0 then got OR MASK_SYSTEM_STACK else got);
           let s = upd_tcb t (init_tcb P t func arg stackbase ssize) s;
           let s = (if one_n_model s then s else s\<lparr>locks := (locks s)(EventLock t := False)\<rparr>);
           let s = (if the_maintask s th = None then
                      let s = s\<lparr>the_maintask := (the_maintask s)(th := Some t),
                                current_task := (current_task s)(th := Some t)\<rparr>;
                          (d, s) = fibscp_alloc (malloc_scp P) s
                      in upd_tcb t (\<lambda>b. b\<lparr>scheddata := d\<rparr>) s
                    else s);
           the_scheduler \<leftarrow> the_maintask s th;
           d \<leftarrow> scheddata (tcbs s the_scheduler);
           let s = s\<lparr>nGlobalFibTasks := nGlobalFibTasks s + 1\<rparr>;
           away \<leftarrow> (if one_n_model s \<or> t = the_scheduler then Some False else crowded d s);
           s \<leftarrow> (if away then pushIntoGlobalReadyList t s else enter_ready the_scheduler t s);
           Some (Some t, s)
         }
       }
   }"

section \<open>The end of a task\<close>

text \<open>
  \<open>cpp_taskmain\<close> up to and behind the call of the task's entry function.  \<open>callback f t\<close> is the
  effect of the user's callback \<open>f\<close> on task \<open>t\<close>.
\<close>

definition task_start :: "(nat \<Rightarrow> nat \<Rightarrow> sys \<Rightarrow> sys option) \<Rightarrow> nat \<Rightarrow> sys \<Rightarrow> sys option" where
  "task_start callback the_task s =
     (case onTaskStartup (tcbs s the_task) of None \<Rightarrow> Some s | Some f \<Rightarrow> callback f the_task s)"

definition task_exit ::
  "(nat \<Rightarrow> nat \<Rightarrow> sys \<Rightarrow> sys option) \<Rightarrow> nat \<Rightarrow> nat \<Rightarrow> sys \<Rightarrow> (unit outcome \<times> sys) option" where
  "task_exit callback th the_task s = do {
     let s = s\<lparr>nGlobalFibTasks := nGlobalFibTasks s - 1\<rparr>;
     s \<leftarrow> dec_local_tasks the_task s;
     let the_scheduler = scheduler (tcbs s the_task);
     let is_maintask = (Some the_task = the_scheduler);
     s \<leftarrow> (case onTaskCleanup (tcbs s the_task) of None \<Rightarrow> Some s | Some f \<Rightarrow> callback f the_task s);
     s \<leftarrow> localReadyQProtectedExtract the_task s;
     let ssize = stacksize (tcbs s the_task);
     s \<leftarrow> (if ssize AND MASK_SYSTEM_STACK \<noteq> 0
           then map_option snd (fiber_stackcache_put th (stackaddr (tcbs s the_task)) (ssize AND NOT 15) s)
           else Some s);
     s \<leftarrow> tcb_free th the_task s;
     if is_maintask then Some (Returns (), s)
     else do {
       m \<leftarrow> the_scheduler;
       Some (Switched, s\<lparr>current_task := (current_task s)(th := Some m)\<rparr>)
     }
   }"

section \<open>The scheduler task\<close>

text \<open>
  One turn of the loop of \<open>fiber_scheduler\<close> up to its inner loop: timeouts, then load balancing.
  \<open>gap\<close> is the time since the last turn; it is passed on as a C \<open>int\<close>.
\<close>

definition uncrowded :: "nat \<Rightarrow> sys \<Rightarrow> bool option" where
  "uncrowded d s = do {
     n \<leftarrow> cdiv (nGlobalFibTasks s * 16) 15;
     q \<leftarrow> cdiv (n + mServiceThreads s - 1) (mServiceThreads s);
     Some (local_tasks d s < q)
   }"

definition scheduler_balance :: "nat \<Rightarrow> sys \<Rightarrow> sys option" where
  "scheduler_balance the_scheduler s = do {
     d \<leftarrow> scheddata (tcbs s the_scheduler);
     few \<leftarrow> (if one_n_model s then Some False else uncrowded d s);
     if few then do {
       let localgroup = scp_group (scps s d);
       (next_task, s) \<leftarrow> popFromGlobalReadyList the_scheduler localgroup s;
       let s = upd_scp d (\<lambda>x. x\<lparr>scp_group := (localgroup + 1) mod MAX_GLOBAL_GROUPS\<rparr>) s;
       case next_task of
         None \<Rightarrow> Some s
       | Some t \<Rightarrow> do {
           s \<leftarrow> localReadyQProtectedInsertBefore (Some the_scheduler) t s;
           inc_local_tasks t s
         }
     } else Some s
   }"

definition scheduler_poll :: "nat \<Rightarrow> 64 word \<Rightarrow> sys \<Rightarrow> sys option" where
  "scheduler_poll th gap s = do {
     the_scheduler \<leftarrow> the_maintask s th;
     s \<leftarrow> (if gap \<noteq> 0
           then map_option snd (fiber_watchdog_tickle the_scheduler (sint (ucast gap :: 32 word)) s)
           else Some s);
     scheduler_balance the_scheduler s
   }"

text \<open>
  The inner loop: as long as another task is ready, give it the processor.  Otherwise the user's
  message loop runs and the thread ends when no task is left but the scheduler (the result).
\<close>

definition scheduler_drain :: "(nat \<Rightarrow> sys \<Rightarrow> sys option) \<Rightarrow> nat \<Rightarrow> sys \<Rightarrow> (bool outcome \<times> sys) option" where
  "scheduler_drain msgloop th s = do {
     the_scheduler \<leftarrow> the_maintask s th;
     d \<leftarrow> scheddata (tcbs s the_scheduler);
     if chain_first (ReadyList d) (mem s) \<noteq> chain_last (ReadyList d) (mem s) then do {
       (_, s) \<leftarrow> fiber_sched_yield th s;
       Some (Switched, s)
     } else do {
       s \<leftarrow> msgloop th s;
       Some (Returns (local_tasks d s = 1), s)
     }
   }"

text \<open>\<open>pthread_scheduler\<close> up to the switch to the new scheduler task, and behind it.\<close>

definition pthread_scheduler_enter :: "platform \<Rightarrow> nat \<Rightarrow> nat \<Rightarrow> nat \<Rightarrow> nat \<Rightarrow> sys \<Rightarrow> (nat option \<times> sys) option" where
  "pthread_scheduler_enter P th fiber_scheduler arg C s =
     fiber_create P th fiber_scheduler arg C 0 (s\<lparr>mServiceThreads := mServiceThreads s + 1\<rparr>)"

definition pthread_scheduler_leave :: "sys \<Rightarrow> sys" where
  "pthread_scheduler_leave s = s\<lparr>mServiceThreads := mServiceThreads s - 1\<rparr>"

section \<open>Start-up establishes the queues\<close>

lemma init_chains:
  assumes "chains link_field m Q"
  shows "chains link_field (fold (\<lambda>i. chain_init_empty (GlobalReady i)) is m)
           (\<lambda>c. if c \<in> GlobalReady ` set is then Some [] else Q c)"
  using assms
proof (induction "is" arbitrary: m Q)
  case (Cons i "is")
  have "(\<lambda>c. if c \<in> GlobalReady ` set is then Some [] else (Q(GlobalReady i \<mapsto> [])) c) =
      (\<lambda>c. if c \<in> GlobalReady ` set (i # is) then Some [] else Q c)" by auto
  with Cons.IH[OF init_empty_chain[OF Cons.prems, of "GlobalReady i"]] show ?case by simp
qed simp

lemma startup_spec:
  assumes "queues s Q"
  shows "queues (snd (FiberGlobalStartup s))
     (\<lambda>c. if c \<in> GlobalReady ` {0 ..< MAX_GLOBAL_GROUPS} then Some [] else Q c)"
  using init_chains[of "mem s" Q "[0 ..< MAX_GLOBAL_GROUPS]"] assms
  by (simp add: FiberGlobalStartup_def queues_def)

text \<open>No queue exists in a memory of zeroes, so every program starts from here.\<close>

lemma queues_initially: "queues s (\<lambda>_. None)"
  by (simp add: queues_def chains_def)

lemma group_bound: "group (init_tcb P t func arg b z x) < MAX_GLOBAL_GROUPS"
proof -
  have "unat (w AND 3) < 4" for w :: "32 word"
    using word_and_le1[of w 3] by (simp add: word_le_nat_alt)
  then show ?thesis by (simp add: init_tcb_def MAX_GLOBAL_GROUPS_def Let_def)
qed

section \<open>Creating the first task of a thread\<close>

text \<open>
  The first task becomes the scheduler task of the thread: it is the running task and alone on the
  ready list of a new scheduler block.
\<close>

lemma fiber_create_first:
  assumes q: "queues s Q" and m: "the_maintask s th = None" "malloc_tcb P 1 = Some t" "malloc_scp P = Some d"
    and st: "stack \<noteq> 0" and free: "node_free Q t" "Q (ReadyList d) = None" "Q (WadogList d) = None"
  shows "\<exists>s'. fiber_create P th func arg stack z s = Some (Some t, s') \<and>
     running s' (Q(ReadyList d \<mapsto> [t], WadogList d \<mapsto> [])) th d t [] t \<and>
     scheduler (tcbs s' t) = Some t \<and> scheddata (tcbs s' t) = Some d \<and> state (tcbs s' t) = STATES_READY \<and>
     nGlobalFibTasks s' = nGlobalFibTasks s + 1 \<and> local_tasks d s' = 1 \<and>
     freedlist (scps s' d) = NULL \<and> freedsize (scps s' d) = 0 \<and> local_cache (scps s' d) \<and>
     cached_stack_mask (scps s' d) = 0xFF \<and> (\<forall>u. u \<noteq> t \<longrightarrow> tcbs s' u = tcbs s u)"
proof -
  let ?m0 = "chain_init_empty (WadogList d) (chain_init_empty (ReadyList d) (mem s))"
  let ?Q0 = "Q(ReadyList d \<mapsto> [], WadogList d \<mapsto> [])"
  have ch: "chains link_field ?m0 ?Q0"
    using init_empty_chain[OF init_empty_chain, of link_field "mem s" Q "WadogList d" "ReadyList d"] q
    by (simp add: queues_def)
  have "node_free ?Q0 t" using free(1) by (auto simp: off_chains_def)
  then obtain m1 where m1: "node_append (ReadyList d) (Tcb t) ?m0 = Some m1"
    "chains link_field m1 (?Q0(ReadyList d \<mapsto> [t]))"
    using append_spec[of "s\<lparr>mem := ?m0\<rparr>" ?Q0 "ReadyList d" "[]" t] ch by (auto simp: on_mem_def)
  have Q1: "?Q0(ReadyList d \<mapsto> [t]) = Q(ReadyList d \<mapsto> [t], WadogList d \<mapsto> [])" by (simp add: fun_upd_twist)
  have "\<exists>s'. fiber_create P th func arg stack z s = Some (Some t, s') \<and> mem s' = m1 \<and>
     the_maintask s' = (the_maintask s)(th := Some t) \<and> current_task s' = (current_task s)(th := Some t) \<and>
     scheduler (tcbs s' t) = Some t \<and> scheddata (tcbs s' t) = Some d \<and> state (tcbs s' t) = STATES_READY \<and>
     nGlobalFibTasks s' = nGlobalFibTasks s + 1 \<and> nLocalFibTasks (scps s' d) = 1 \<and>
     freedlist (scps s' d) = NULL \<and> freedsize (scps s' d) = 0 \<and> cached_stack (scps s' d) = replicate 8 (0, 0) \<and>
     cached_stack_mask (scps s' d) = 0xFF \<and> (\<forall>u. u \<noteq> t \<longrightarrow> tcbs s' u = tcbs s u)"
    using m st m1(1)
    by (auto simp: fiber_create_def tcb_alloc_def fibscp_alloc_def enter_ready_def inc_local_tasks_def
        sys_defs on_mem_def init_tcb_def Let_def split: if_splits)
  then obtain s' where s': "fiber_create P th func arg stack z s = Some (Some t, s')" "mem s' = m1"
     "the_maintask s' = (the_maintask s)(th := Some t)" "current_task s' = (current_task s)(th := Some t)"
     "scheduler (tcbs s' t) = Some t" "scheddata (tcbs s' t) = Some d" "state (tcbs s' t) = STATES_READY"
     "nGlobalFibTasks s' = nGlobalFibTasks s + 1" "nLocalFibTasks (scps s' d) = 1"
     "freedlist (scps s' d) = NULL" "freedsize (scps s' d) = 0" "cached_stack (scps s' d) = replicate 8 (0, 0)"
     "cached_stack_mask (scps s' d) = 0xFF" "\<forall>u. u \<noteq> t \<longrightarrow> tcbs s' u = tcbs s u" by blast
  moreover have "local_cache (scps s' d)" using s'(12,13) unfolding local_cache_def by (simp only: low8 length_replicate) simp
  ultimately show ?thesis using m1(2) Q1
    by (intro exI[of _ s']) (simp add: running_def on_thread_def queues_def local_tasks_def)
qed

section \<open>Creating further tasks\<close>

text \<open>What the stack cache changes: nothing but its own slots and masks.\<close>

definition cache_frame :: "sys \<Rightarrow> sys \<Rightarrow> bool" where
  "cache_frame s s' =
     (mem s' = mem s \<and> locks s' = locks s \<and> tcbs s' = tcbs s \<and> the_maintask s' = the_maintask s \<and>
      current_task s' = current_task s \<and> mutexes s' = mutexes s \<and> sems s' = sems s \<and> one_n_model s' = one_n_model s \<and>
      nGlobalFibTasks s' = nGlobalFibTasks s \<and> mServiceThreads s' = mServiceThreads s \<and>
      global_freedlist s' = global_freedlist s \<and>
      (\<forall>e. nLocalFibTasks (scps s' e) = nLocalFibTasks (scps s e) \<and> freedlist (scps s' e) = freedlist (scps s e) \<and>
           freedsize (scps s' e) = freedsize (scps s e) \<and> scp_group (scps s' e) = scp_group (scps s e)))"

lemma cache_frame_refl [simp]: "cache_frame s s"
  by (simp add: cache_frame_def)

lemma pools_cache: "pools s Q F gs \<Longrightarrow> cache_frame s s' \<Longrightarrow> pools s' Q F gs"
  unfolding pools_def cache_frame_def by simp

lemma stackcache_get_total:
  assumes "quiet s" "the_maintask s th = Some m" "scheddata (tcbs s m) = Some d"
  shows "\<exists>r s'. fiber_stackcache_get mm mp th z s = Some (r, s') \<and> cache_frame s s'"
proof (cases "stack_search (cached_stack (scps s d)) z ((NOT (cached_stack_mask (scps s d))) AND 0xFF) 0 None")
  case None
  then show ?thesis using assms
    by (cases "stack_search (global_cached_stack s) z (NOT (global_cached_stack_mask s)) 0 None")
      (auto simp: fiber_stackcache_get_def spin_lock2_def spin_unlock2_def cache_frame_def fun_upd_idem Let_def)
next
  case (Some p)
  then show ?thesis using assms by (auto simp: fiber_stackcache_get_def cache_frame_def sys_defs)
qed

lemma stackcache_put_total:
  assumes "quiet s" "the_maintask s th = Some m" "scheddata (tcbs s m) = Some d"
  shows "\<exists>r s'. fiber_stackcache_put th b z s = Some (r, s') \<and> cache_frame s s'"
  using assms
  by (auto simp: fiber_stackcache_put_def spin_lock2_def spin_unlock2_def cache_frame_def fun_upd_idem sys_defs Let_def)

text \<open>A task enters the ready list in front of the scheduler task and counts as local.\<close>

lemma enter_ready_spec:
  assumes q: "queues s Q" and m: "scheddata (tcbs s m) = Some d" "Q (ReadyList d) = Some (us @ [m])"
    and t: "node_free Q t" "t \<noteq> m"
  shows "\<exists>s'. enter_ready m t s = Some s' \<and> queues s' (Q(ReadyList d \<mapsto> us @ [t, m])) \<and>
     tcbs s' = (tcbs s)(t := (tcbs s t)\<lparr>scheduler := Some m, scheddata := Some d\<rparr>) \<and>
     scps s' = (scps s)(d := (scps s d)\<lparr>nLocalFibTasks := nLocalFibTasks (scps s d) + 1\<rparr>) \<and>
     current_task s' = current_task s \<and> mutexes s' = mutexes s \<and> sems s' = sems s \<and> frame s s'"
proof -
  obtain mm where "node_insert_before (Tcb m) (Tcb t) (mem s) = Some mm"
    "chains link_field mm (Q(ReadyList d \<mapsto> us @ [t, m]))"
    using insert_before_spec[OF q, of "ReadyList d" us m "[]" t] m t
    by (auto simp: localReadyQProtectedInsertBefore_def on_mem_def)
  then show ?thesis using m t(2)
    by (auto simp: enter_ready_def inc_local_tasks_def sys_defs on_mem_def queues_def frame_def Let_def)
qed

text \<open>
  Creation on a running thread: the new task is a block that nobody else uses, and it is ready,
  on this thread or, when the thread has more than its share, on the global list of its group.
\<close>

definition placed :: "sys \<Rightarrow> sys \<Rightarrow> (chain_id \<rightharpoonup> nat list) \<Rightarrow> (chain_id \<rightharpoonup> nat list) \<Rightarrow> nat \<Rightarrow> nat \<Rightarrow> nat list \<Rightarrow> nat \<Rightarrow> bool" where
  "placed s s' Q Q' d m us t =
     (node_free Q t \<and> nGlobalFibTasks s' = nGlobalFibTasks s + 1 \<and> state (tcbs s' t) = STATES_READY \<and>
      (\<forall>u. u \<noteq> t \<longrightarrow> tcbs s' u = tcbs s u) \<and>
      (let g = group (tcbs s' t) in
       (Q' = Q(ReadyList d \<mapsto> us @ [t, m]) \<and> scheduler (tcbs s' t) = Some m \<and> scheddata (tcbs s' t) = Some d \<and>
        nLocalFibTasks (scps s' d) = nLocalFibTasks (scps s d) + 1) \<or>
       (\<not> one_n_model s \<and> g < MAX_GLOBAL_GROUPS \<and> Q' = Q(GlobalReady g \<mapsto> the (Q (GlobalReady g)) @ [t]) \<and>
        scheduler (tcbs s' t) = None \<and> nLocalFibTasks (scps s' d) = nLocalFibTasks (scps s d))))"

lemma crowded_total: "mServiceThreads s \<noteq> 0 \<Longrightarrow> \<exists>b. crowded d s = Some b"
  by (simp add: crowded_def cdiv_def)

lemma place_off:
  assumes q: "queues s Q" "quiet s" and m: "scheddata (tcbs s m) = Some d" "Q (ReadyList d) = Some (us @ [m])"
    and t: "node_free Q t" "t \<noteq> m" and g: "Q (GlobalReady (group (tcbs s t))) = Some gq"
    and op: "(if away then pushIntoGlobalReadyList t s else enter_ready m t s) = Some s'"
  shows "off_same Q t (mem s) (mem s')"
proof (cases away)
  case True
  obtain mm where mm: "node_append (GlobalReady (group (tcbs s t))) (Tcb t) (mem s) = Some mm"
    using append_spec[OF q(1) _ g t(1)] by (auto simp: on_mem_def)
  then have "mem s' = mm" using op True q(2)
    by (auto simp: pushIntoGlobalReadyList_def spin_simps sys_defs on_mem_def Let_def)
  then show ?thesis using append_off[OF q(1) _ g t(1) mm] by simp
next
  case False
  obtain mm where mm: "node_insert_before (Tcb m) (Tcb t) (mem s) = Some mm"
    using insert_before_spec[OF q(1), of "ReadyList d" us m "[]" t] m t
    by (auto simp: localReadyQProtectedInsertBefore_def on_mem_def)
  then have "mem s' = mm" using op False m t(2)
    by (auto simp: enter_ready_def inc_local_tasks_def sys_defs on_mem_def Let_def)
  then show ?thesis using insert_before_off[OF q(1) _ m(2) mm] by simp
qed

lemma place_spec:
  assumes q: "queues s Q" "quiet s" and m: "scheddata (tcbs s m) = Some d" "Q (ReadyList d) = Some (us @ [m])"
    and t: "node_free Q t" "t \<noteq> m" and ms: "one_n_model s \<or> mServiceThreads s \<noteq> 0"
    and g: "Q (GlobalReady (group (tcbs s t))) = Some gq"
  shows "\<exists>away s'. (if one_n_model s \<or> t = m then Some False else crowded d s) = Some away \<and>
     (if away then pushIntoGlobalReadyList t s else enter_ready m t s) = Some s' \<and> frame s s' \<and>
     (\<forall>u. u \<noteq> t \<longrightarrow> tcbs s' u = tcbs s u) \<and> state (tcbs s' t) = state (tcbs s t) \<and> group (tcbs s' t) = group (tcbs s t) \<and>
     (if away then \<not> one_n_model s \<and> queues s' (Q(GlobalReady (group (tcbs s t)) \<mapsto> gq @ [t])) \<and>
                   scheduler (tcbs s' t) = None \<and> scps s' = scps s
      else queues s' (Q(ReadyList d \<mapsto> us @ [t, m])) \<and> scheduler (tcbs s' t) = Some m \<and> scheddata (tcbs s' t) = Some d \<and>
           scps s' = (scps s)(d := (scps s d)\<lparr>nLocalFibTasks := nLocalFibTasks (scps s d) + 1\<rparr>)) \<and>
     current_task s' = current_task s \<and> mutexes s' = mutexes s \<and> sems s' = sems s"
proof -
  obtain away where away: "(if one_n_model s \<or> t = m then Some False else crowded d s) = Some away"
    and one: "away \<Longrightarrow> \<not> one_n_model s"
    using crowded_total[of s d] ms t(2) by (cases "one_n_model s") auto
  show ?thesis
  proof (cases away)
    case True
    from push_global_spec[OF q g t(1)] away True one show ?thesis
      by (intro exI[of _ True]) fastforce
  next
    case False
    from enter_ready_spec[OF q(1) m t] away False show ?thesis
      by (intro exI[of _ False]) fastforce
  qed
qed

lemma place_pools:
  assumes p: "pools s Q F gs" "t \<notin> free_blocks F gs" and q: "queues s Q" "quiet s"
    and m: "scheddata (tcbs s m) = Some d" "Q (ReadyList d) = Some (us @ [m])"
    and t: "node_free Q t" "t \<noteq> m" and ms: "one_n_model s \<or> mServiceThreads s \<noteq> 0"
    and g: "group (tcbs s t) < MAX_GLOBAL_GROUPS" "\<forall>g < MAX_GLOBAL_GROUPS. Q (GlobalReady g) \<noteq> None"
    and ready: "state (tcbs s t) = STATES_READY"
  shows "\<exists>away s' Q'. (if one_n_model s \<or> t = m then Some False else crowded d s) = Some away \<and>
     (if away then pushIntoGlobalReadyList t s else enter_ready m t s) = Some s' \<and>
     queues s' Q' \<and> quiet s' \<and> pools s' Q' F gs \<and> frame s s' \<and>
     placed (s\<lparr>nGlobalFibTasks := nGlobalFibTasks s - 1\<rparr>) s' Q Q' d m us t"
proof -
  obtain gq where gq: "Q (GlobalReady (group (tcbs s t))) = Some gq" using g by auto
  obtain away s' where pl: "(if one_n_model s \<or> t = m then Some False else crowded d s) = Some away"
    "(if away then pushIntoGlobalReadyList t s else enter_ready m t s) = Some s'" "frame s s'"
    "\<forall>u. u \<noteq> t \<longrightarrow> tcbs s' u = tcbs s u" "state (tcbs s' t) = state (tcbs s t)" "group (tcbs s' t) = group (tcbs s t)"
    "if away then \<not> one_n_model s \<and> queues s' (Q(GlobalReady (group (tcbs s t)) \<mapsto> gq @ [t])) \<and>
               scheduler (tcbs s' t) = None \<and> scps s' = scps s
     else queues s' (Q(ReadyList d \<mapsto> us @ [t, m])) \<and> scheduler (tcbs s' t) = Some m \<and> scheddata (tcbs s' t) = Some d \<and>
       scps s' = (scps s)(d := (scps s d)\<lparr>nLocalFibTasks := nLocalFibTasks (scps s d) + 1\<rparr>)"
    using place_spec[OF q m t ms gq] by blast
  note off = place_off[OF q m t gq pl(2)]
  let ?Q = "if away then Q(GlobalReady (group (tcbs s t)) \<mapsto> gq @ [t]) else Q(ReadyList d \<mapsto> us @ [t, m])"
  have nf: "node_free ?Q x" if "node_free Q x" "x \<noteq> t" for x
    using that(2) off_chainsD[OF that(1) gq] off_chainsD[OF that(1) m(2)]
    by (auto intro!: node_free_update[OF that(1)])
  have "pools s' ?Q F gs"
    by (rule pools_queue_op[OF p off]) (use pl(3,7) nf in \<open>auto simp: frame_def split: if_splits\<close>)
  moreover have "placed (s\<lparr>nGlobalFibTasks := nGlobalFibTasks s - 1\<rparr>) s' Q ?Q d m us t"
    unfolding placed_def Let_def using t(1) pl(3-7) g(1) gq ready by (auto simp: frame_def split: if_splits)
  ultimately show ?thesis using pl(1-3,7) frame_quiet[OF pl(3) q(2)]
    by (intro exI[of _ away] exI[of _ s'] exI[of _ ?Q]) (simp split: if_splits)
qed

lemma placed_from:
  assumes "placed s1 s' Q Q' d m us t" "nGlobalFibTasks s1 = nGlobalFibTasks s" "one_n_model s1 = one_n_model s"
    and "\<And>u. u \<noteq> t \<Longrightarrow> tcbs s1 u = tcbs s u" "nLocalFibTasks (scps s1 d) = nLocalFibTasks (scps s d)"
  shows "placed s s' Q Q' d m us t"
  using assms by (simp add: placed_def)

text \<open>What a creation leaves alone, and where its block comes from.\<close>

definition create_frame :: "(nat \<Rightarrow> nat option) \<Rightarrow> (nat \<rightharpoonup> nat list) \<Rightarrow> nat list \<Rightarrow> nat option \<Rightarrow> (nat \<rightharpoonup> nat list) \<Rightarrow> nat list \<Rightarrow> sys \<Rightarrow> sys \<Rightarrow> bool" where
  "create_frame malloc F gs r F' gs' s s' =
     (the_maintask s' = the_maintask s \<and> one_n_model s' = one_n_model s \<and> mServiceThreads s' = mServiceThreads s \<and>
      set_option r \<union> free_blocks F' gs' \<subseteq> free_blocks F gs \<union> arena malloc \<and>
      (\<forall>u. u \<notin> free_blocks F gs \<union> arena malloc \<longrightarrow> tcbs s' u = tcbs s u))"

text \<open>The middle of a creation: the stack of the new task, and its first queue.\<close>

lemma create_stack:
  assumes s1: "queues s1 Q" "quiet s1" "pools s1 Q F gs" and m: "the_maintask s1 th = Some m" "scheddata (tcbs s1 m) = Some d" "t \<noteq> m"
  obtains base got s3 where "(if stack = 0 then fiber_stackcache_get (mmap P) (mprotect P) th z' (upd_tcb t (\<lambda>b. b\<lparr>state := STATES_READY\<rparr>) s1)
      else Some ((stack, z), upd_tcb t (\<lambda>b. b\<lparr>state := STATES_READY\<rparr>) s1)) = Some ((base, got), s3)"
    "cache_frame (upd_tcb t (\<lambda>b. b\<lparr>state := STATES_READY\<rparr>) s1) s3"
    "queues s3 Q" "quiet s3" "pools s3 Q F gs" "the_maintask s3 th = Some m" "scheddata (tcbs s3 m) = Some d"
proof -
  let ?s2 = "upd_tcb t (\<lambda>b. b\<lparr>state := STATES_READY\<rparr>) s1"
  have m2: "the_maintask ?s2 th = Some m" "scheddata (tcbs ?s2 m) = Some d" "quiet ?s2"
    using m s1(2) by (auto simp: sys_defs quiet_def)
  obtain base got s3 where get: "(if stack = 0 then fiber_stackcache_get (mmap P) (mprotect P) th z' ?s2
      else Some ((stack, z), ?s2)) = Some ((base, got), s3)" and cf: "cache_frame ?s2 s3"
    using stackcache_get_total[OF m2(3,1,2), of "mmap P" "mprotect P"] by (cases "stack = 0") force+
  have "pools ?s2 Q F gs" using s1(3) by (simp add: pools_def sys_defs)
  from pools_cache[OF this cf] show thesis using get cf s1 m2
    by (intro that[of base got s3]) (auto simp: cache_frame_def queues_def quiet_def sys_defs)
qed

lemma create_place:
  fixes P t func arg base z s3
  defines "s4 \<equiv> s3\<lparr>tcbs := (tcbs s3)(t := init_tcb P t func arg base z (tcbs s3 t)), nGlobalFibTasks := nGlobalFibTasks s3 + 1\<rparr>"
  assumes s3: "queues s3 Q" "quiet s3" "pools s3 Q F gs" "scheddata (tcbs s3 m) = Some d" and t: "t \<notin> free_blocks F gs"
    and rd: "Q (ReadyList d) = Some (us @ [m])" and nf: "node_free Q t" "t \<noteq> m" and ms: "one_n_model s3 \<or> mServiceThreads s3 \<noteq> 0"
    and gl: "\<forall>g < MAX_GLOBAL_GROUPS. Q (GlobalReady g) \<noteq> None" and ready: "state (tcbs s3 t) = STATES_READY"
  obtains away s' Q' where "(if one_n_model s4 \<or> t = m then Some False else crowded d s4) = Some away"
    "(if away then pushIntoGlobalReadyList t s4 else enter_ready m t s4) = Some s'"
    "queues s' Q'" "quiet s'" "pools s' Q' F gs" "frame s4 s'"
    "placed (s4\<lparr>nGlobalFibTasks := nGlobalFibTasks s4 - 1\<rparr>) s' Q Q' d m us t"
proof -
  have s4: "pools s4 Q F gs" "queues s4 Q" "quiet s4" "scheddata (tcbs s4 m) = Some d"
    "one_n_model s4 \<or> mServiceThreads s4 \<noteq> 0" "group (tcbs s4 t) < MAX_GLOBAL_GROUPS" "state (tcbs s4 t) = STATES_READY"
    using s3 nf(2) ms ready group_bound
    by (auto simp: s4_def queues_def quiet_def pools_def init_tcb_def Let_def)
  from place_pools[OF s4(1) t s4(2-4) rd nf s4(5,6) gl s4(7)] show thesis using that by blast
qed

lemma fiber_create_spec:
  assumes p: "pools s Q F gs" and q: "queues s Q" "quiet s" and fr: "fresh (malloc_tcb P) Q F gs"
    and th: "on_thread s Q th d m us" and Fd: "F d = Some ls"
    and ms: "one_n_model s \<or> mServiceThreads s \<noteq> 0" and gl: "\<forall>g < MAX_GLOBAL_GROUPS. Q (GlobalReady g) \<noteq> None"
  shows "\<exists>r s' F' gs' Q'. fiber_create P th func arg stack z s = Some (r, s') \<and>
     queues s' Q' \<and> quiet s' \<and> pools s' Q' F' gs' \<and> F' d \<noteq> None \<and>
     (case r of None \<Rightarrow> Q' = Q \<and> nGlobalFibTasks s' = nGlobalFibTasks s
      | Some t \<Rightarrow> placed s s' Q Q' d m us t \<and> t \<notin> free_blocks F' gs') \<and> create_frame (malloc_tcb P) F gs r F' gs' s s' \<and>
     (r = None \<longrightarrow> stack = 0 \<or> malloc_tcb P TCB_INCREASE_SIZE_AT_EMPTY = None)"
proof -
  note thd = on_threadD[OF th]
  obtain r s1 F1 gs1 where a: "tcb_alloc (malloc_tcb P) th s = Some (r, s1)" "queues s1 Q" "quiet s1" "pools s1 Q F1 gs1"
    "\<forall>x. r = Some x \<longrightarrow> x \<notin> free_blocks F1 gs1 \<and> node_free Q x" "F1 d \<noteq> None" "pool_frame s s1"
    "set_option r \<union> free_blocks F1 gs1 \<subseteq> free_blocks F gs \<union> arena (malloc_tcb P)"
    "r = None \<Longrightarrow> malloc_tcb P TCB_INCREASE_SIZE_AT_EMPTY = None"
    using tcb_alloc_spec[OF p q fr thd(1,2) Fd] by blast
  show ?thesis
  proof (cases r)
    case None
    then show ?thesis using a
      by (intro exI[of _ None] exI[of _ s1] exI[of _ F1] exI[of _ gs1] exI[of _ Q])
        (simp add: fiber_create_def pool_frame_def create_frame_def)
  next
    case (Some t)
    have t: "t \<notin> free_blocks F1 gs1" "node_free Q t" using a(5) Some by auto
    have tm: "t \<noteq> m" using t(2) thd(3) off_chainsD[of link_field Fld_node Q t "ReadyList d"] by auto
    let ?s2 = "upd_tcb t (\<lambda>b. b\<lparr>state := STATES_READY\<rparr>) s1"
    have m1: "the_maintask s1 th = Some m" "scheddata (tcbs s1 m) = Some d" using thd a(7) by (auto simp: pool_frame_def)
    obtain base got s3 where get: "(if stack = 0 then fiber_stackcache_get (mmap P) (mprotect P) th (((z + 4095) div 4096) * 4096) ?s2
           else Some ((stack, z), ?s2)) = Some ((base, got), s3)" and cf: "cache_frame ?s2 s3"
      and s3: "queues s3 Q" "quiet s3" "pools s3 Q F1 gs1" "the_maintask s3 th = Some m" "scheddata (tcbs s3 m) = Some d"
      by (rule create_stack[OF a(2-4) m1 tm])
    show ?thesis
    proof (cases "base = 0")
      case True
      obtain ls1 where l1: "F1 d = Some ls1" using a(6) by auto
      obtain s' F' gs' where s': "tcb_free th t s3 = Some s'" "queues s' Q" "quiet s'" "pools s' Q F' gs'"
        "F' d \<noteq> None" "pool_frame s3 s'" "free_blocks F' gs' = insert t (free_blocks F1 gs1)"
        using tcb_free_spec[OF s3(3,1,2,4,5) l1 t] l1 free_blocks_push[where F = F1 and d = d, OF l1, of t] free_blocks_global[of F1 t gs1]
        by (auto split: if_splits)
      have "stack = 0" using get True by (auto split: if_splits)
      moreover have "fiber_create P th func arg stack z s = Some (None, s')"
        using a(1) Some get True s'(1) by (simp add: fiber_create_def)
      moreover have "nGlobalFibTasks s' = nGlobalFibTasks s"
        using s'(6) cf a(7) by (simp add: pool_frame_def cache_frame_def sys_defs)
      moreover have "create_frame (malloc_tcb P) F gs None F' gs' s s'"
        using s'(6,7) cf a(7,8) Some by (auto simp: create_frame_def pool_frame_def cache_frame_def sys_defs)
      ultimately show ?thesis using s'
        by (intro exI[of _ None] exI[of _ s'] exI[of _ F'] exI[of _ gs'] exI[of _ Q]) simp
    next
      case False
      let ?z = "if stack = 0 then got OR MASK_SYSTEM_STACK else got"
      let ?s4 = "s3\<lparr>tcbs := (tcbs s3)(t := init_tcb P t func arg base ?z (tcbs s3 t)), nGlobalFibTasks := nGlobalFibTasks s3 + 1\<rparr>"
      have pre: "one_n_model s3 \<or> mServiceThreads s3 \<noteq> 0" "state (tcbs s3 t) = STATES_READY"
        using ms cf a(7) by (auto simp: cache_frame_def pool_frame_def sys_defs)
      obtain away s' Q' where pl: "(if one_n_model ?s4 \<or> t = m then Some False else crowded d ?s4) = Some away"
        "(if away then pushIntoGlobalReadyList t ?s4 else enter_ready m t ?s4) = Some s'"
        "queues s' Q'" "quiet s'" "pools s' Q' F1 gs1" "frame ?s4 s'"
        "placed (?s4\<lparr>nGlobalFibTasks := nGlobalFibTasks ?s4 - 1\<rparr>) s' Q Q' d m us t"
        by (rule create_place[OF s3(1-3,5) t(1) thd(3) t(2) tm pre(1) gl pre(2)])
      have lk: "(locks s3)(EventLock t := False) = locks s3" using s3(2) by (simp add: quiet_def fun_eq_iff)
      have "fiber_create P th func arg stack z s = Some (Some t, s')"
        using a(1) Some get False s3(4,5) tm pl(1,2) lk
        by (cases "stack = 0"; cases "one_n_model s3"; cases away) (simp_all add: fiber_create_def Let_def upd_tcb_def)
      moreover have "placed s s' Q Q' d m us t"
        by (rule placed_from[OF pl(7)]) (use cf a(7) in \<open>auto simp: cache_frame_def pool_frame_def sys_defs\<close>)
      moreover from calculation(2) have others: "u \<notin> free_blocks F gs \<union> arena (malloc_tcb P) \<longrightarrow> tcbs s' u = tcbs s u" for u
        using a(8) Some by (cases "u = t") (simp_all add: placed_def)
      moreover have "create_frame (malloc_tcb P) F gs (Some t) F1 gs1 s s'"
        using pl(6) cf a(7,8) Some others by (simp add: create_frame_def pool_frame_def cache_frame_def frame_def sys_defs)
      ultimately show ?thesis using a(6) t(1) pl(3-5)
        by (intro exI[of _ "Some t"] exI[of _ s'] exI[of _ F1] exI[of _ gs1] exI[of _ Q']) simp
    qed
  qed
qed

section \<open>One creation after the other\<close>

text \<open>
  Each call has its own platform, so that \<open>malloc\<close> and \<open>mmap\<close> may answer differently each time.
\<close>

fun create_all :: "nat \<Rightarrow> (platform \<times> nat \<times> nat \<times> nat \<times> 32 word) list \<Rightarrow> sys \<Rightarrow> (nat option list \<times> sys) option" where
  "create_all th [] s = Some ([], s)"
| "create_all th ((P, func, arg, stack, z) # cs) s = do {
     (r, s) \<leftarrow> fiber_create P th func arg stack z s;
     (rs, s) \<leftarrow> create_all th cs s;
     Some (r # rs, s)
   }"

definition created :: "nat option list \<Rightarrow> nat list" where
  "created rs = concat (map (\<lambda>r. case r of None \<Rightarrow> [] | Some t \<Rightarrow> [t]) rs)"

lemma created_simps [simp]: "created [] = []" "created (None # rs) = created rs" "created (Some t # rs) = t # created rs"
  by (simp_all add: created_def)

text \<open>The tasks on queues, and the memory that is in use: these tasks and the free blocks.\<close>

definition on_queues :: "(chain_id \<rightharpoonup> nat list) \<Rightarrow> nat set" where
  "on_queues Q = {x. \<exists>c xs. link_field c = Fld_node \<and> Q c = Some xs \<and> x \<in> set xs}"

definition in_use :: "(chain_id \<rightharpoonup> nat list) \<Rightarrow> (nat \<rightharpoonup> nat list) \<Rightarrow> nat list \<Rightarrow> nat set" where
  "in_use Q F gs = on_queues Q \<union> free_blocks F gs"

definition call_arena :: "platform \<times> nat \<times> nat \<times> nat \<times> 32 word \<Rightarrow> nat set" where
  "call_arena x = arena (malloc_tcb (fst x))"

text \<open>A call that brings its own stack and finds memory for a control block.\<close>

definition supplied :: "platform \<times> nat \<times> nat \<times> nat \<times> 32 word \<Rightarrow> bool" where
  "supplied x = (case x of (P, func, arg, stack, z) \<Rightarrow> stack \<noteq> 0 \<and> malloc_tcb P TCB_INCREASE_SIZE_AT_EMPTY \<noteq> None)"

text \<open>What is asked of \<open>malloc\<close> over all calls: nothing that is in use, and nothing twice.\<close>

definition fresh_calls :: "nat set \<Rightarrow> (platform \<times> nat \<times> nat \<times> nat \<times> 32 word) list \<Rightarrow> bool" where
  "fresh_calls B cs = (sorted_wrt (\<lambda>x y. call_arena x \<inter> call_arena y = {}) cs \<and> (\<forall>x \<in> set cs. call_arena x \<inter> B = {}))"

lemma node_free_queued: "node_free Q x = (x \<notin> on_queues Q)"
  by (auto simp: off_chains_def on_queues_def)

lemma fresh_in_use: "call_arena (P, y) \<inter> in_use Q F gs = {} \<Longrightarrow> fresh (malloc_tcb P) Q F gs"
  by (auto simp: fresh_arena call_arena_def in_use_def node_free_queued)

lemma fresh_calls_tail: "fresh_calls B (x # cs) \<Longrightarrow> B' \<subseteq> B \<union> call_arena x \<Longrightarrow> fresh_calls B' cs"
  by (fastforce simp: fresh_calls_def)

lemma placed_queued:
  assumes p: "placed s s' Q Q' d m us t" and rd: "Q (ReadyList d) = Some (us @ [m])"
    and gl: "\<forall>g < MAX_GLOBAL_GROUPS. Q (GlobalReady g) \<noteq> None"
  shows "on_queues Q' = insert t (on_queues Q)" "t \<notin> on_queues Q" "\<exists>us'. Q' (ReadyList d) = Some (us' @ [m])"
    "\<forall>g < MAX_GLOBAL_GROUPS. Q' (GlobalReady g) \<noteq> None"
proof -
  have up: "on_queues (Q(c \<mapsto> xs)) = insert t (on_queues Q)" if "link_field c = Fld_node" "Q c = Some ys" "set xs = insert t (set ys)" for c xs ys
    using that by (fastforce simp: on_queues_def split: if_splits)
  from p consider "Q' = Q(ReadyList d \<mapsto> us @ [t, m])"
    | g gq where "g < MAX_GLOBAL_GROUPS" "Q (GlobalReady g) = Some gq" "Q' = Q(GlobalReady g \<mapsto> gq @ [t])"
    using gl by (fastforce simp: placed_def Let_def)
  then have "on_queues Q' = insert t (on_queues Q) \<and> (\<exists>us'. Q' (ReadyList d) = Some (us' @ [m])) \<and> (\<forall>g < MAX_GLOBAL_GROUPS. Q' (GlobalReady g) \<noteq> None)"
  proof cases
    case 1
    then show ?thesis using up[of "ReadyList d", OF _ rd] gl by auto
  next
    case 2
    then show ?thesis using up[of "GlobalReady g", OF _ 2(2)] gl rd by auto
  qed
  then show "on_queues Q' = insert t (on_queues Q)" "\<exists>us'. Q' (ReadyList d) = Some (us' @ [m])"
    "\<forall>g < MAX_GLOBAL_GROUPS. Q' (GlobalReady g) \<noteq> None" by auto
  show "t \<notin> on_queues Q" using p node_free_queued by (auto simp: placed_def)
qed

lemma outcome_queued:
  assumes "case r of None \<Rightarrow> Q' = Q \<and> nGlobalFibTasks s' = nGlobalFibTasks s | Some t \<Rightarrow> placed s s' Q Q' d m us t \<and> X t"
    and "Q (ReadyList d) = Some (us @ [m])" "\<forall>g < MAX_GLOBAL_GROUPS. Q (GlobalReady g) \<noteq> None"
  shows "on_queues Q' = set_option r \<union> on_queues Q" "set_option r \<inter> on_queues Q = {}" "\<exists>us'. Q' (ReadyList d) = Some (us' @ [m])"
    "\<forall>g < MAX_GLOBAL_GROUPS. Q' (GlobalReady g) \<noteq> None" "nGlobalFibTasks s' = nGlobalFibTasks s + int (length (created [r]))"
proof -
  have "on_queues Q' = set_option r \<union> on_queues Q \<and> set_option r \<inter> on_queues Q = {} \<and> (\<exists>us'. Q' (ReadyList d) = Some (us' @ [m])) \<and>
      (\<forall>g < MAX_GLOBAL_GROUPS. Q' (GlobalReady g) \<noteq> None) \<and> nGlobalFibTasks s' = nGlobalFibTasks s + int (length (created [r]))"
  proof (cases r)
    case None
    then show ?thesis using assms by simp
  next
    case (Some t)
    then have pl: "placed s s' Q Q' d m us t" using assms(1) by simp
    show ?thesis using placed_queued[OF pl assms(2,3)] pl Some by (simp add: placed_def)
  qed
  then show "on_queues Q' = set_option r \<union> on_queues Q" "set_option r \<inter> on_queues Q = {}" "\<exists>us'. Q' (ReadyList d) = Some (us' @ [m])"
    "\<forall>g < MAX_GLOBAL_GROUPS. Q' (GlobalReady g) \<noteq> None" "nGlobalFibTasks s' = nGlobalFibTasks s + int (length (created [r]))" by auto
qed

text \<open>
  Any number of creations: every task that is returned is a new one, is put on a queue, and is on no free list; the
  tasks of before stay as they were.
\<close>

lemma create_all_spec:
  assumes "pools s Q F gs" "queues s Q" "quiet s" "fresh_calls (in_use Q F gs) cs" "on_thread s Q th d m us" "F d \<noteq> None"
    and "one_n_model s \<or> mServiceThreads s \<noteq> 0" "\<forall>g < MAX_GLOBAL_GROUPS. Q (GlobalReady g) \<noteq> None"
  shows "\<exists>rs s' F' gs' Q'. create_all th cs s = Some (rs, s') \<and> length rs = length cs \<and> pools s' Q' F' gs' \<and> queues s' Q' \<and> quiet s' \<and>
     on_queues Q' = on_queues Q \<union> set (created rs) \<and> set (created rs) \<inter> on_queues Q = {} \<and> distinct (created rs) \<and>
     nGlobalFibTasks s' = nGlobalFibTasks s + int (length (created rs)) \<and>
     set (created rs) \<subseteq> free_blocks F gs \<union> \<Union> (call_arena ` set cs) \<and>
     (\<forall>u. u \<notin> free_blocks F gs \<union> \<Union> (call_arena ` set cs) \<longrightarrow> tcbs s' u = tcbs s u) \<and>
     (list_all supplied cs \<longrightarrow> None \<notin> set rs)"
  using assms
proof (induction cs arbitrary: s Q F gs us)
  case Nil
  then show ?case by auto
next
  case (Cons x cs)
  obtain P func arg stack z where x: "x = (P, func, arg, stack, z)" by (cases x)
  have fr: "fresh (malloc_tcb P) Q F gs" by (rule fresh_in_use) (use Cons.prems(4) x in \<open>auto simp: fresh_calls_def\<close>)
  obtain ls where ls: "F d = Some ls" using Cons.prems(6) by auto
  note thd = on_threadD[OF Cons.prems(5)]
  obtain r s1 F1 gs1 Q1 where a: "fiber_create P th func arg stack z s = Some (r, s1)" "queues s1 Q1" "quiet s1"
    "pools s1 Q1 F1 gs1" "F1 d \<noteq> None"
    "case r of None \<Rightarrow> Q1 = Q \<and> nGlobalFibTasks s1 = nGlobalFibTasks s | Some t \<Rightarrow> placed s s1 Q Q1 d m us t \<and> t \<notin> free_blocks F1 gs1"
    "create_frame (malloc_tcb P) F gs r F1 gs1 s s1" "r = None \<longrightarrow> \<not> supplied x"
    using fiber_create_spec[OF Cons.prems(1-3) fr Cons.prems(5) ls Cons.prems(7,8), of func arg stack z]
    unfolding supplied_def x by auto
  note cf = a(7)[unfolded create_frame_def]
  have ar: "call_arena x = arena (malloc_tcb P)" by (simp add: call_arena_def x)
  note n = outcome_queued[OF a(6) thd(3) Cons.prems(8)]
  have "m \<in> on_queues Q" unfolding on_queues_def mem_Collect_eq
    by (rule exI[of _ "ReadyList d"], rule exI[of _ "us @ [m]"]) (simp add: thd(3))
  moreover have off: "on_queues Q \<inter> (free_blocks F gs \<union> arena (malloc_tcb P)) = {}"
    using Cons.prems(1) fr by (auto simp: pools_def fresh_arena node_free_queued)
  ultimately have "tcbs s1 m = tcbs s m" using cf by blast
  then obtain us' where th1: "on_thread s1 Q1 th d m us'" using n(3) cf thd(1,2) by (auto simp: on_thread_def)
  have "in_use Q1 F1 gs1 \<subseteq> in_use Q F gs \<union> call_arena x" using n(1) cf by (auto simp: in_use_def ar)
  note fc = fresh_calls_tail[OF Cons.prems(4) this]
  have ms: "one_n_model s1 \<or> mServiceThreads s1 \<noteq> 0" using Cons.prems(7) cf by simp
  obtain rs s' F' gs' Q' where b: "create_all th cs s1 = Some (rs, s')" "length rs = length cs" "pools s' Q' F' gs'" "queues s' Q'" "quiet s'"
    "on_queues Q' = on_queues Q1 \<union> set (created rs)" "set (created rs) \<inter> on_queues Q1 = {}" "distinct (created rs)"
    "nGlobalFibTasks s' = nGlobalFibTasks s1 + int (length (created rs))"
    "set (created rs) \<subseteq> free_blocks F1 gs1 \<union> \<Union> (call_arena ` set cs)"
    "\<forall>u. u \<notin> free_blocks F1 gs1 \<union> \<Union> (call_arena ` set cs) \<longrightarrow> tcbs s' u = tcbs s1 u"
    "list_all supplied cs \<longrightarrow> None \<notin> set rs"
    using Cons.IH[OF a(4,2,3) fc th1 a(5) ms n(4)] by blast
  have cr: "created (r # rs) = created [r] @ created rs" "set (created [r]) = set_option r" "distinct (created [r])"
    by (cases r; simp)+
  have sub: "free_blocks F1 gs1 \<subseteq> free_blocks F gs \<union> call_arena x" "set_option r \<subseteq> free_blocks F gs \<union> call_arena x"
    using cf ar by auto
  have "\<forall>u. u \<notin> free_blocks F gs \<union> \<Union> (call_arena ` set (x # cs)) \<longrightarrow> tcbs s' u = tcbs s u"
    using b(11) cf sub(1) ar by auto
  moreover have "set (created (r # rs)) \<subseteq> free_blocks F gs \<union> \<Union> (call_arena ` set (x # cs))"
    unfolding cr(1) set_append cr(2) using b(10) sub by auto
  moreover have "set (created rs) \<inter> (set_option r \<union> on_queues Q) = {}" using b(7) n(1) by simp
  then have "distinct (created (r # rs))" "set (created (r # rs)) \<inter> on_queues Q = {}"
    unfolding cr(1) set_append distinct_append cr(2) using b(8) cr(3) n(2) by auto
  moreover have "on_queues Q' = on_queues Q \<union> set (created (r # rs))"
    unfolding cr(1) set_append cr(2) using b(6) n(1) by auto
  moreover have "nGlobalFibTasks s' = nGlobalFibTasks s + int (length (created (r # rs)))"
    unfolding cr(1) using b(9) n(5) by simp
  moreover have "create_all th (x # cs) s = Some (r # rs, s')" using a(1) b(1) by (simp add: x)
  moreover have "length (r # rs) = length (x # cs)" using b(2) by simp
  moreover have "list_all supplied (x # cs) \<longrightarrow> None \<notin> set (r # rs)" using a(8) b(12) by auto
  ultimately show ?case using b(3-5) by blast
qed

section \<open>The end of a task\<close>

lemma extract_pools:
  assumes p: "pools s Q F gs" and r: "running s Q th d m us c" and ne: "c \<noteq> m"
  obtains m1 where "localReadyQProtectedExtract c s = Some (s\<lparr>mem := m1\<rparr>)"
    "queues (s\<lparr>mem := m1\<rparr>) (Q(ReadyList d \<mapsto> butlast us @ [m]))"
    "pools (s\<lparr>mem := m1\<rparr>) (Q(ReadyList d \<mapsto> butlast us @ [m])) F gs"
    "node_free (Q(ReadyList d \<mapsto> butlast us @ [m])) c" "c \<notin> free_blocks F gs"
proof -
  note rd = runningD[OF r]
  let ?Q = "Q(ReadyList d \<mapsto> butlast us @ [m])"
  obtain m1 where m1: "localReadyQProtectedExtract c s = Some (s\<lparr>mem := m1\<rparr>)" "chains link_field m1 ?Q"
    "node_free ?Q c" "c \<notin> set (butlast us @ [m])" "us = butlast us @ [c]"
    by (rule extract_running[OF r ne])
  have ql: "Q (ReadyList d) = Some (butlast us @ c # [m])"
    using rd(6) m1(5) by (metis append.assoc append_Cons append_Nil)
  have nc: "\<not> node_free Q c" using off_chainsD[of link_field Fld_node Q c "ReadyList d"] ql by auto
  have cf: "c \<notin> free_blocks F gs" using p nc unfolding pools_def by blast
  have off: "off_same Q c (mem s) m1"
    using remove_off[OF rd(1) _ ql, of m1] m1(1) by (auto simp: localReadyQProtectedExtract_def on_mem_def)
  have nf: "node_free ?Q x" if "node_free Q x" for x
    using off_chainsD[OF that ql] by (auto intro!: node_free_update[OF that])
  have "pools (s\<lparr>mem := m1\<rparr>) ?Q F gs"
    by (rule pools_queue_op[OF p cf, of "s\<lparr>mem := m1\<rparr>"]) (use off nf in auto)
  with that m1 cf show ?thesis by simp
qed

text \<open>
  A task that ends leaves the ready list, its block goes to the free lists, and the scheduler task of
  the thread runs next.  No callback is installed here; an installed one runs before.
\<close>

lemma task_exit_spec:
  assumes p: "pools s Q F gs" and r: "running s Q th d m us c" and ne: "c \<noteq> m" and qt: "quiet s"
    and home: "scheduler (tcbs s c) = Some m" "scheddata (tcbs s c) = Some d"
    and cb: "onTaskCleanup (tcbs s c) = None" and Fd: "F d = Some ls"
  shows "\<exists>s' F' gs'. task_exit callback th c s = Some (Switched, s') \<and>
     running s' (Q(ReadyList d \<mapsto> butlast us @ [m])) th d m (butlast us) m \<and> quiet s' \<and>
     pools s' (Q(ReadyList d \<mapsto> butlast us @ [m])) F' gs' \<and> c \<in> free_blocks F' gs' \<and>
     nGlobalFibTasks s' = nGlobalFibTasks s - 1 \<and>
     nLocalFibTasks (scps s' d) = nLocalFibTasks (scps s d) - 1 \<and> tcbs s' = tcbs s"
proof -
  note rd = runningD[OF r]
  let ?Q = "Q(ReadyList d \<mapsto> butlast us @ [m])"
  let ?s1 = "s\<lparr>nGlobalFibTasks := nGlobalFibTasks s - 1,
     scps := (scps s)(d := (scps s d)\<lparr>nLocalFibTasks := nLocalFibTasks (scps s d) - 1\<rparr>)\<rparr>"
  have r1: "running ?s1 Q th d m us c" using r by (simp add: running_def on_thread_def queues_def)
  have p1: "pools ?s1 Q F gs" using p by (simp add: pools_def)
  obtain m1 where m1: "localReadyQProtectedExtract c ?s1 = Some (?s1\<lparr>mem := m1\<rparr>)" "queues (?s1\<lparr>mem := m1\<rparr>) ?Q"
    "pools (?s1\<lparr>mem := m1\<rparr>) ?Q F gs" "node_free ?Q c" "c \<notin> free_blocks F gs"
    by (rule extract_pools[OF p1 r1 ne])
  let ?s2 = "?s1\<lparr>mem := m1\<rparr>"
  have q2: "queues ?s2 ?Q" "quiet ?s2" using m1(2) qt by (auto simp: quiet_def)
  have m2: "the_maintask ?s2 th = Some m" "scheddata (tcbs ?s2 m) = Some d" using rd by simp_all
  obtain s3 where s3: "(if stacksize (tcbs ?s2 c) AND MASK_SYSTEM_STACK \<noteq> 0
      then map_option snd (fiber_stackcache_put th (stackaddr (tcbs ?s2 c)) (stacksize (tcbs ?s2 c) AND NOT 15) ?s2)
      else Some ?s2) = Some s3" and c3: "cache_frame ?s2 s3"
    using stackcache_put_total[OF q2(2) m2] by (cases "stacksize (tcbs ?s2 c) AND MASK_SYSTEM_STACK \<noteq> 0") force+
  have pre: "pools s3 ?Q F gs" "queues s3 ?Q" "quiet s3" "the_maintask s3 th = Some m" "scheddata (tcbs s3 m) = Some d"
    using pools_cache[OF m1(3) c3] c3 q2 m2 by (auto simp: cache_frame_def queues_def quiet_def)
  obtain s4 where s4: "tcb_free th c s3 = Some s4" "queues s4 ?Q" "quiet s4"
    "pools s4 ?Q (if length ls < MAX_LOCAL_FREED_TASKS then F(d \<mapsto> c # ls) else F)
       (if length ls < MAX_LOCAL_FREED_TASKS then gs else c # gs)" "pool_frame s3 s4"
    using tcb_free_spec[OF pre Fd m1(5,4)] by blast
  let ?s' = "s4\<lparr>current_task := (current_task s4)(th := Some m)\<rparr>"
  have "task_exit callback th c s = Some (Switched, ?s')"
    using home ne cb m1(1) s3 s4(1)
    by (cases "stacksize (tcbs s c) AND MASK_SYSTEM_STACK \<noteq> 0")
      (auto simp: task_exit_def dec_local_tasks_def sys_defs Let_def)
  moreover have "running ?s' ?Q th d m (butlast us) m"
    using s4(2,5) pre(4,5) by (auto simp: running_def on_thread_def pool_frame_def queues_def)
  moreover have "c \<in> free_blocks (if length ls < MAX_LOCAL_FREED_TASKS then F(d \<mapsto> c # ls) else F)
       (if length ls < MAX_LOCAL_FREED_TASKS then gs else c # gs)"
    by (auto simp: free_blocks_def)
  moreover have "pools ?s' ?Q (if length ls < MAX_LOCAL_FREED_TASKS then F(d \<mapsto> c # ls) else F)
       (if length ls < MAX_LOCAL_FREED_TASKS then gs else c # gs)"
    using s4(4) by (simp add: pools_def)
  ultimately show ?thesis using s4(3,5) c3
    by (intro exI[of _ ?s'] exI[of _ "if length ls < MAX_LOCAL_FREED_TASKS then F(d \<mapsto> c # ls) else F"]
        exI[of _ "if length ls < MAX_LOCAL_FREED_TASKS then gs else c # gs"])
      (simp add: quiet_def pool_frame_def cache_frame_def)
qed

section \<open>The scheduler task\<close>

text \<open>
  The inner loop of the scheduler: with other tasks ready, the first of them runs next; with none,
  the scheduler polls again, and the thread ends when its task count is down to one.
\<close>

lemma drain_dispatches:
  assumes r: "running s Q th d m us m" and ne: "us \<noteq> []"
  shows "\<exists>s'. scheduler_drain msgloop th s = Some (Switched, s') \<and>
     running s' (Q(ReadyList d \<mapsto> rotate1 us @ [m])) th d m (rotate1 us) (hd us)"
proof -
  note rd = runningD[OF r]
  have ch: "is_chain Fld_node (mem s) (ReadyList d) (us @ [m])"
    using chains_is_chain[of link_field "mem s" Q "ReadyList d"] rd(1,6) by (simp add: queues_def)
  obtain n ns where us: "us = n # ns" using ne by (cases us) auto
  have "n \<noteq> m" using running_distinct[OF r] us by auto
  then have "chain_first (ReadyList d) (mem s) \<noteq> chain_last (ReadyList d) (mem s)"
    using chain_ends[OF ch] us by (simp add: left_of_def chain_first_def chain_last_def)
  then show ?thesis using sched_yield_step[OF r ne] rd by (auto simp: scheduler_drain_def)
qed

lemma drain_idle:
  assumes r: "running s Q th d m [] m"
  shows "scheduler_drain (\<lambda>_. Some) th s = Some (Returns (local_tasks d s = 1), s)"
proof -
  note rd = runningD[OF r]
  have "is_chain Fld_node (mem s) (ReadyList d) [m]"
    using chains_is_chain[of link_field "mem s" Q "ReadyList d"] rd(1,6) by (simp add: queues_def)
  from chain_ends[OF this] rd show ?thesis
    by (simp add: scheduler_drain_def left_of_def chain_first_def chain_last_def)
qed

text \<open>
  Load balancing takes the oldest task of one global group, makes this thread its home and queues it
  in front of the scheduler; the next turn looks at the next group.
\<close>

lemma balance_takes:
  assumes q: "queues s Q" "quiet s" and m: "scheddata (tcbs s m) = Some d" "Q (ReadyList d) = Some (us @ [m])"
    and few: "\<not> one_n_model s" "uncrowded d s = Some True"
    and g: "Q (GlobalReady (scp_group (scps s d))) = Some (t # gs)"
  shows "\<exists>s'. scheduler_balance m s = Some s' \<and>
     queues s' (Q(GlobalReady (scp_group (scps s d)) \<mapsto> gs, ReadyList d \<mapsto> us @ [t, m])) \<and>
     tcbs s' = (tcbs s)(t := (tcbs s t)\<lparr>scheduler := Some m, scheddata := Some d,
        state := state (tcbs s t) AND NOT STATES_BLOCKED\<rparr>) \<and>
     scps s' = (scps s)(d := (scps s d)\<lparr>scp_group := (scp_group (scps s d) + 1) mod MAX_GLOBAL_GROUPS,
        nLocalFibTasks := nLocalFibTasks (scps s d) + 1\<rparr>) \<and>
     current_task s' = current_task s \<and> mutexes s' = mutexes s \<and> sems s' = sems s \<and> frame s s'"
proof -
  let ?g = "scp_group (scps s d)"
  obtain s1 where s1: "popFromGlobalReadyList m ?g s = Some (Some t, s1)" "queues s1 (Q(GlobalReady ?g \<mapsto> gs))"
     "current_task s1 = current_task s"
     "tcbs s1 = (tcbs s)(t := (tcbs s t)\<lparr>scheduler := Some m, scheddata := scheddata (tcbs s m),
        state := state (tcbs s t) AND NOT STATES_BLOCKED\<rparr>)"
     "scps s1 = scps s" "mutexes s1 = mutexes s" "sems s1 = sems s" "frame s s1"
    using pop_global_spec[OF q g] by blast
  let ?Q = "Q(GlobalReady ?g \<mapsto> gs)"
  let ?s2 = "upd_scp d (\<lambda>x. x\<lparr>scp_group := (?g + 1) mod MAX_GLOBAL_GROUPS\<rparr>) s1"
  have free: "node_free ?Q t" using gone_spec[OF q(1), of "GlobalReady ?g" "[]" t gs] g by simp
  have "?Q (ReadyList d) = Some (us @ m # [])" "queues ?s2 ?Q" using m(2) s1(2) by (simp_all add: queues_def sys_defs)
  from insert_before_spec[OF this(2) _ this(1) free] obtain mm where
    mm: "localReadyQProtectedInsertBefore (Some m) t ?s2 = Some (?s2\<lparr>mem := mm\<rparr>)"
    "chains link_field mm (?Q(ReadyList d \<mapsto> us @ [t, m]))" by auto
  show ?thesis using m few s1 mm
    by (auto simp: scheduler_balance_def inc_local_tasks_def queues_def frame_def sys_defs Let_def)
qed

text \<open>The task that a scheduler takes from a global list, and the first task of a thread.\<close>

lemma balance_takes_oldest:
  assumes "queues s Q" "quiet s" "scheddata (tcbs s m) = Some d" "Q (ReadyList d) = Some (us @ [m])"
    and "\<not> one_n_model s" "uncrowded d s = Some True" "Q (GlobalReady (scp_group (scps s d))) = Some (t # gs)"
  shows "\<exists>s'. scheduler_balance m s = Some s' \<and>
     queues s' (Q(GlobalReady (scp_group (scps s d)) \<mapsto> gs, ReadyList d \<mapsto> us @ [t, m])) \<and>
     scheduler (tcbs s' t) = Some m \<and> scheddata (tcbs s' t) = Some d \<and> state (tcbs s' t) AND STATES_BLOCKED = 0 \<and>
     scp_group (scps s' d) = (scp_group (scps s d) + 1) mod MAX_GLOBAL_GROUPS"
proof -
  have "(x AND NOT STATES_BLOCKED) AND STATES_BLOCKED = 0" for x by (rule bit_eqI) (auto simp: bit_simps)
  then show ?thesis using balance_takes[OF assms] by fastforce
qed

lemma first_task_is_scheduler:
  assumes "queues s Q" "the_maintask s th = None" "malloc_tcb P 1 = Some t" "malloc_scp P = Some d" "stack \<noteq> 0"
    and "node_free Q t" "Q (ReadyList d) = None" "Q (WadogList d) = None"
  shows "\<exists>s'. fiber_create P th func arg stack z s = Some (Some t, s') \<and>
     running s' (Q(ReadyList d \<mapsto> [t], WadogList d \<mapsto> [])) th d t [] t \<and> scheduler (tcbs s' t) = Some t \<and>
     state (tcbs s' t) = STATES_READY \<and> local_tasks d s' = 1 \<and> nGlobalFibTasks s' = nGlobalFibTasks s + 1 \<and>
     local_cache (scps s' d) \<and> (\<forall>i. \<not> slot_used (scps s' d) i)"
proof -
  obtain s' where "fiber_create P th func arg stack z s = Some (Some t, s')"
     "running s' (Q(ReadyList d \<mapsto> [t], WadogList d \<mapsto> [])) th d t [] t" "scheduler (tcbs s' t) = Some t"
     "state (tcbs s' t) = STATES_READY" "local_tasks d s' = 1" "nGlobalFibTasks s' = nGlobalFibTasks s + 1"
     "local_cache (scps s' d)" "cached_stack_mask (scps s' d) = 0xFF"
    using fiber_create_first[OF assms] by blast
  then show ?thesis using low8 by (intro exI[of _ s']) (simp add: slot_used_def)
qed

text \<open>The scheduler runs the first ready task whenever there is one.\<close>

lemma scheduler_dispatches:
  assumes "running s Q th d m us m"
  shows "if us \<noteq> [] then \<exists>s'. scheduler_drain msgloop th s = Some (Switched, s') \<and>
       running s' (Q(ReadyList d \<mapsto> rotate1 us @ [m])) th d m (rotate1 us) (hd us)
     else scheduler_drain (\<lambda>_. Some) th s = Some (Returns (local_tasks d s = 1), s)"
  using drain_dispatches[OF assms] drain_idle[of s Q th d m] assms by auto

end
