(* ===== verification/Rwlock_Demo.thy ===== *)
theory Rwlock_Demo
  imports Rwlock Lifecycle
begin

text \<open>
  The program in the second half of \<^verbatim>\<open>rwlock.c\<close>: eight readers and a writer that share a small
  database under a readers-writer lock, on the calls of the library itself.  In every run a reader
  looks at the database only while no writer is in its loop, and never outside of it.
\<close>

section \<open>The program\<close>

datatype rwd_pc =
    Rd_lock | Rd_locking | Rd_read | Rd_unlock | Rd_unlocking | Rd_sleep
  | Wr_lock | Wr_locking | Wr_write nat | Wr_unlock | Wr_unlocking | Wr_sleep
  | Rw_none

record rw_demo =
  rwd_lib :: sys
  rwd_lock :: rwlock
  rwd_base :: "int list"
  rwd_id :: "nat \<Rightarrow> int"
  rwd_at :: "nat \<Rightarrow> rwd_pc"
  rwd_reads :: "(int \<times> int) list"

definition RWD_MAXTHREAD :: nat where
  "RWD_MAXTHREAD = 8"

abbreviation rwd_goto :: "nat \<Rightarrow> rwd_pc \<Rightarrow> rw_demo \<Rightarrow> rw_demo" where
  "rwd_goto t k p \<equiv> p\<lparr>rwd_at := (rwd_at p)(t := k)\<rparr>"

text \<open>The end of a call on the lock: the task goes on, or it goes on with the call when it runs again.\<close>

definition rwd_call :: "nat \<Rightarrow> rwd_pc \<Rightarrow> rwd_pc \<Rightarrow> int outcome \<times> sys \<times> rwlock \<Rightarrow> rw_demo \<Rightarrow> rw_demo" where
  "rwd_call t wait next y p =
     (case y of (r, s, l) \<Rightarrow>
        rwd_goto t (case r of Switched \<Rightarrow> wait | Returns _ \<Rightarrow> next) (p\<lparr>rwd_lib := s, rwd_lock := l\<rparr>))"

text \<open>
  One turn of \<open>reader\<close>; \<open>r\<close> stands for what \<open>rand\<close> delivers. A read outside of the database is a
  fault.
\<close>

definition rwd_reader :: "nat \<Rightarrow> nat \<Rightarrow> int \<Rightarrow> rw_demo \<Rightarrow> rw_demo option" where
  "rwd_reader th t r p =
     (let s = rwd_lib p; l = rwd_lock p; index = rwd_id p t in
      case rwd_at p t of
        Rd_lock \<Rightarrow> do { y \<leftarrow> rwlock_rdlock th s l; Some (rwd_call t Rd_locking Rd_read y p) }
      | Rd_locking \<Rightarrow> do { y \<leftarrow> rwlock_rdlock_again th s l; Some (rwd_call t Rd_locking Rd_read y p) }
      | Rd_read \<Rightarrow>
          if index - 1 < 0 \<or> nat (index - 1) \<ge> length (rwd_base p) then None
          else Some (rwd_goto t Rd_unlock (p\<lparr>rwd_reads := rwd_reads p @ [(index - 1, rwd_base p ! nat (index - 1))]\<rparr>))
      | Rd_unlock \<Rightarrow> do { y \<leftarrow> rwlock_rdunlock th s l; Some (rwd_call t Rd_unlocking Rd_sleep y p) }
      | Rd_unlocking \<Rightarrow> do { y \<leftarrow> rwlock_rdunlock_again th s l; Some (rwd_call t Rd_unlocking Rd_sleep y p) }
      | Rd_sleep \<Rightarrow> do {
          (_, s) \<leftarrow> fiber_usleep th ((r mod (300 * index) + 300) * 1000) s;
          Some (rwd_goto t Rd_lock (p\<lparr>rwd_lib := s\<rparr>))
        }
      | _ \<Rightarrow> None)"

text \<open>One turn of \<open>writer\<close>; the loop writes one element per turn.\<close>

definition rwd_writer :: "nat \<Rightarrow> nat \<Rightarrow> int \<Rightarrow> rw_demo \<Rightarrow> rw_demo option" where
  "rwd_writer th t r p =
     (let s = rwd_lib p; l = rwd_lock p in
      case rwd_at p t of
        Wr_lock \<Rightarrow> do { y \<leftarrow> rwlock_wrlock th s l; Some (rwd_call t Wr_locking (Wr_write 0) y p) }
      | Wr_locking \<Rightarrow> do { y \<leftarrow> rwlock_wrlock_again th s l; Some (rwd_call t Wr_locking (Wr_write 0) y p) }
      | Wr_write i \<Rightarrow>
          if i < RWD_MAXTHREAD then Some (rwd_goto t (Wr_write (i + 1)) (p\<lparr>rwd_base := (rwd_base p)[i := r mod 1000]\<rparr>))
          else Some (rwd_goto t Wr_unlock p)
      | Wr_unlock \<Rightarrow> do { y \<leftarrow> rwlock_wrunlock th s l; Some (rwd_call t Wr_unlocking Wr_sleep y p) }
      | Wr_unlocking \<Rightarrow> do { y \<leftarrow> rwlock_wrunlock_again th s l; Some (rwd_call t Wr_unlocking Wr_sleep y p) }
      | Wr_sleep \<Rightarrow> do {
          (_, s) \<leftarrow> fiber_usleep th ((r mod (300 * 4) + 300) * 1000) s;
          Some (rwd_goto t Wr_lock (p\<lparr>rwd_lib := s\<rparr>))
        }
      | _ \<Rightarrow> None)"

text \<open>
  \<open>main\<close> initialises the lock, and \<open>initializeTasks\<close> creates the readers with their numbers and then
  the writer; a task that could not be created is left out.
\<close>

definition rwd_start :: "sys \<Rightarrow> rwlock \<Rightarrow> rw_demo" where
  "rwd_start s l = \<lparr>rwd_lib = s, rwd_lock = l, rwd_base = replicate RWD_MAXTHREAD 0, rwd_id = (\<lambda>_. 0),
     rwd_at = (\<lambda>_. Rw_none), rwd_reads = []\<rparr>"

fun rwd_create :: "platform \<Rightarrow> nat \<Rightarrow> nat \<Rightarrow> (nat \<Rightarrow> nat) \<Rightarrow> (rwd_pc \<times> nat) list \<Rightarrow> rw_demo \<Rightarrow> rw_demo option" where
  "rwd_create P th code arg [] p = Some p"
| "rwd_create P th code arg ((k, i) # ks) p = do {
     (t, s) \<leftarrow> fiber_create P th code (arg i) 0 8192 (rwd_lib p);
     rwd_create P th code arg ks
       (case t of None \<Rightarrow> p\<lparr>rwd_lib := s\<rparr>
        | Some t \<Rightarrow> rwd_goto t k (p\<lparr>rwd_lib := s, rwd_id := (rwd_id p)(t := int i)\<rparr>))
   }"

definition rwd_initializeTasks :: "platform \<Rightarrow> nat \<Rightarrow> nat \<Rightarrow> nat \<Rightarrow> (nat \<Rightarrow> nat) \<Rightarrow> rw_demo \<Rightarrow> rw_demo option" where
  "rwd_initializeTasks P th reader_code writer_code ids p = do {
     p \<leftarrow> rwd_create P th reader_code ids (map (\<lambda>index. (Rd_lock, index + 1)) [0 ..< RWD_MAXTHREAD]) p;
     rwd_create P th writer_code (\<lambda>_. 0) [(Wr_lock, 0)] p
   }"

inductive rwd_run :: "rw_demo \<Rightarrow> rw_demo \<Rightarrow> bool" for p0 where
  start: "rwd_run p0 p0"
| other: "rwd_run p0 p \<Longrightarrow> rwd_run p0 (p\<lparr>rwd_lib := s\<rparr>)"
| reads: "rwd_run p0 p \<Longrightarrow> current_task (rwd_lib p) th = Some t \<Longrightarrow> rwd_reader th t r p = Some p' \<Longrightarrow> rwd_run p0 p'"
| writes: "rwd_run p0 p \<Longrightarrow> current_task (rwd_lib p) th = Some t \<Longrightarrow> rwd_writer th t r p = Some p' \<Longrightarrow> rwd_run p0 p'"

section \<open>The invariant\<close>

fun rwd_reading :: "rwd_pc \<Rightarrow> bool" where
  "rwd_reading Rd_read = True"
| "rwd_reading Rd_unlock = True"
| "rwd_reading Rd_unlocking = True"
| "rwd_reading _ = False"

fun rwd_writing :: "rwd_pc \<Rightarrow> bool" where
  "rwd_writing (Wr_write i) = True"
| "rwd_writing Wr_unlock = True"
| "rwd_writing Wr_unlocking = True"
| "rwd_writing _ = False"

fun rwd_is_reader :: "rwd_pc \<Rightarrow> bool" where
  "rwd_is_reader Rd_lock = True"
| "rwd_is_reader Rd_locking = True"
| "rwd_is_reader Rd_sleep = True"
| "rwd_is_reader k = rwd_reading k"

lemma one_class: "rwd_reading k \<Longrightarrow> \<not> rwd_writing k"
  by (cases k) simp_all

text \<open>\<open>crew P n pc\<close>: exactly \<open>n\<close> tasks are in a place of class \<open>P\<close>.\<close>

definition crew :: "(rwd_pc \<Rightarrow> bool) \<Rightarrow> nat \<Rightarrow> (nat \<Rightarrow> rwd_pc) \<Rightarrow> bool" where
  "crew P n pc = (finite {t. P (pc t)} \<and> card {t. P (pc t)} = n)"

lemma crew_keep: "crew P n pc \<Longrightarrow> P k = P (pc t) \<Longrightarrow> crew P n (pc(t := k))"
  unfolding crew_def by (simp only: members_keep)

lemma crew_join: "crew P n pc \<Longrightarrow> \<not> P (pc t) \<Longrightarrow> P k \<Longrightarrow> crew P (Suc n) (pc(t := k))"
  using members_gain[of P pc t k] by (simp add: crew_def)

lemma crew_part: "crew P n pc \<Longrightarrow> P (pc t) \<Longrightarrow> \<not> P k \<Longrightarrow> crew P (n - 1) (pc(t := k))"
  using members_lose[of P pc t k] by (simp add: crew_def)

lemma crew_pos: "crew P n pc \<Longrightarrow> P (pc t) \<Longrightarrow> 0 < n"
  by (auto simp: crew_def card_gt_0_iff)

definition lock_part :: "rwlock \<Rightarrow> (nat \<Rightarrow> rwd_pc) \<Rightarrow> bool" where
  "lock_part l pc = (\<exists>n w. crew rwd_reading n pc \<and> crew rwd_writing w pc \<and>
     readers l = int n \<and> w = (if writer l then 1 else 0) \<and> (writer l \<longrightarrow> n = 0))"

definition data_part :: "int list \<Rightarrow> (nat \<Rightarrow> int) \<Rightarrow> (nat \<Rightarrow> rwd_pc) \<Rightarrow> bool" where
  "data_part base ids pc = (length base = RWD_MAXTHREAD \<and>
     (\<forall>t. rwd_is_reader (pc t) \<longrightarrow> 1 \<le> ids t \<and> ids t \<le> int RWD_MAXTHREAD))"

definition rwd_inv :: "rw_demo \<Rightarrow> bool" where
  "rwd_inv p = (lock_part (rwd_lock p) (rwd_at p) \<and> data_part (rwd_base p) (rwd_id p) (rwd_at p))"

lemma lock_keep:
  assumes "lock_part l pc" "rwd_reading k = rwd_reading (pc t)" "rwd_writing k = rwd_writing (pc t)"
  shows "lock_part l (pc(t := k))"
  using assms crew_keep unfolding lock_part_def by blast

lemma data_keep: "data_part base ids pc \<Longrightarrow> rwd_is_reader k = rwd_is_reader (pc t) \<Longrightarrow> data_part base ids (pc(t := k))"
  by (auto simp: data_part_def)

text \<open>The four changes of the lock.\<close>

lemma lock_rd_in:
  assumes "lock_part l pc" "\<not> writer l" "reader_in l = Some (v, l')" "\<not> rwd_reading (pc t)" "\<not> rwd_writing (pc t)"
  shows "lock_part l' (pc(t := Rd_read))"
proof -
  obtain n where n: "crew rwd_reading n pc" "crew rwd_writing 0 pc" "readers l = int n"
    using assms(1,2) by (auto simp: lock_part_def)
  have "crew rwd_reading (Suc n) (pc(t := Rd_read))" "crew rwd_writing 0 (pc(t := Rd_read))"
    by (rule crew_join[OF n(1) assms(4)] crew_keep[OF n(2)]; use assms(5) in simp)+
  with n assms(2,3) show ?thesis
    unfolding lock_part_def by (intro exI[of _ "Suc n"] exI[of _ 0]) (auto simp: reader_in_def split: if_splits)
qed

lemma lock_rd_out:
  assumes "lock_part l pc" "reader_out l = Some (v, l')" "rwd_reading (pc t)"
  shows "lock_part l' (pc(t := Rd_sleep))"
proof -
  obtain n w where n: "crew rwd_reading n pc" "crew rwd_writing w pc" "readers l = int n"
    "w = (if writer l then 1 else 0)" "writer l \<longrightarrow> n = 0"
    using assms(1) by (auto simp: lock_part_def)
  have "crew rwd_reading (n - 1) (pc(t := Rd_sleep))" "crew rwd_writing w (pc(t := Rd_sleep))"
    by (rule crew_part[OF n(1) assms(3)] crew_keep[OF n(2)]; use one_class[OF assms(3)] in simp)+
  with n assms(2) crew_pos[OF n(1) assms(3)] show ?thesis
    unfolding lock_part_def by (intro exI[of _ "n - 1"] exI[of _ w]) (auto simp: reader_out_def split: if_splits)
qed

lemma lock_wr_in:
  assumes "lock_part l pc" "\<not> occupied l" "writer_in l = Some (v, l')" "\<not> rwd_reading (pc t)" "\<not> rwd_writing (pc t)"
  shows "lock_part l' (pc(t := Wr_write 0))"
proof -
  have n: "crew rwd_reading 0 pc" "crew rwd_writing 0 pc" "readers l = 0"
    using assms(1,2) by (auto simp: lock_part_def occupied_def)
  have "crew rwd_writing (Suc 0) (pc(t := Wr_write 0))" "crew rwd_reading 0 (pc(t := Wr_write 0))"
    by (rule crew_join[OF n(2) assms(5)] crew_keep[OF n(1)]; use assms(4) in simp)+
  with n assms(3) show ?thesis
    unfolding lock_part_def by (intro exI[of _ 0] exI[of _ 1]) (auto simp: writer_in_def)
qed

lemma lock_wr_out:
  assumes "lock_part l pc" "writer_out l = Some (v, l')" "rwd_writing (pc t)"
  shows "lock_part l' (pc(t := Wr_sleep))"
proof -
  obtain n w where n: "crew rwd_reading n pc" "crew rwd_writing w pc" "readers l = int n"
    "w = (if writer l then 1 else 0)" "writer l \<longrightarrow> n = 0"
    using assms(1) by (auto simp: lock_part_def)
  have "crew rwd_writing (w - 1) (pc(t := Wr_sleep))" "crew rwd_reading n (pc(t := Wr_sleep))"
    by (rule crew_part[OF n(2) assms(3)] crew_keep[OF n(1)]; use one_class assms(3) in auto)+
  with n assms(2) crew_pos[OF n(2) assms(3)] show ?thesis
    unfolding lock_part_def by (intro exI[of _ n] exI[of _ 0]) (auto simp: writer_out_def split: if_splits)
qed

section \<open>Turns\<close>

lemma enter_to_read:
  assumes "rwd_inv p" "object_change writer reader_in (rwd_lock p) y" "rwd_at p t = Rd_lock \<or> rwd_at p t = Rd_locking"
  shows "rwd_inv (rwd_call t Rd_locking Rd_read y p)"
proof -
  obtain r s l where y: "y = (r, s, l)" by (cases y)
  show ?thesis
  proof (cases r)
    case Switched
    then show ?thesis using assms by (auto simp: y rwd_inv_def rwd_call_def intro!: lock_keep data_keep)
  next
    case (Returns v)
    then show ?thesis using assms by (auto simp: y rwd_inv_def rwd_call_def intro!: lock_rd_in data_keep)
  qed
qed

lemma leave_read:
  assumes "rwd_inv p" "object_change (\<lambda>_. False) reader_out (rwd_lock p) y" "rwd_at p t = Rd_unlock \<or> rwd_at p t = Rd_unlocking"
  shows "rwd_inv (rwd_call t Rd_unlocking Rd_sleep y p)"
proof -
  obtain r s l where y: "y = (r, s, l)" by (cases y)
  show ?thesis
  proof (cases r)
    case Switched
    then show ?thesis using assms by (auto simp: y rwd_inv_def rwd_call_def intro!: lock_keep data_keep)
  next
    case (Returns v)
    then show ?thesis using assms by (auto simp: y rwd_inv_def rwd_call_def intro!: lock_rd_out data_keep)
  qed
qed

lemma enter_to_write:
  assumes "rwd_inv p" "object_change occupied writer_in (rwd_lock p) y" "rwd_at p t = Wr_lock \<or> rwd_at p t = Wr_locking"
  shows "rwd_inv (rwd_call t Wr_locking (Wr_write 0) y p)"
proof -
  obtain r s l where y: "y = (r, s, l)" by (cases y)
  show ?thesis
  proof (cases r)
    case Switched
    then show ?thesis using assms by (auto simp: y rwd_inv_def rwd_call_def intro!: lock_keep data_keep)
  next
    case (Returns v)
    then show ?thesis using assms by (auto simp: y rwd_inv_def rwd_call_def intro!: lock_wr_in data_keep)
  qed
qed

lemma leave_write:
  assumes "rwd_inv p" "object_change (\<lambda>_. False) writer_out (rwd_lock p) y" "rwd_at p t = Wr_unlock \<or> rwd_at p t = Wr_unlocking"
  shows "rwd_inv (rwd_call t Wr_unlocking Wr_sleep y p)"
proof -
  obtain r s l where y: "y = (r, s, l)" by (cases y)
  show ?thesis
  proof (cases r)
    case Switched
    then show ?thesis using assms by (auto simp: y rwd_inv_def rwd_call_def intro!: lock_keep data_keep)
  next
    case (Returns v)
    then show ?thesis using assms by (auto simp: y rwd_inv_def rwd_call_def intro!: lock_wr_out data_keep)
  qed
qed

lemma reader_turn_inv:
  assumes "rwd_inv p" "rwd_reader th t r p = Some p'"
  shows "rwd_inv p'"
proof (cases "rwd_at p t")
  case Rd_lock
  then show ?thesis using assms
    by (auto simp: rwd_reader_def Let_def bind_eq_Some_conv rwlock_rdlock_def dest!: monitor_op_object intro!: enter_to_read)
next
  case Rd_locking
  then show ?thesis using assms
    by (auto simp: rwd_reader_def Let_def bind_eq_Some_conv rwlock_rdlock_again_def dest!: monitor_loop_object intro!: enter_to_read)
next
  case Rd_unlock
  then show ?thesis using assms
    by (auto simp: rwd_reader_def Let_def bind_eq_Some_conv rwlock_rdunlock_def dest!: monitor_op_object intro!: leave_read)
next
  case Rd_unlocking
  then show ?thesis using assms
    by (auto simp: rwd_reader_def Let_def bind_eq_Some_conv rwlock_rdunlock_again_def dest!: monitor_loop_object intro!: leave_read)
qed (use assms in \<open>auto simp: rwd_reader_def Let_def bind_eq_Some_conv rwd_inv_def split: if_splits intro!: lock_keep data_keep\<close>)

lemma data_write: "data_part base ids pc \<Longrightarrow> data_part (base[i := v]) ids pc"
  by (simp add: data_part_def)

lemma writer_turn_inv:
  assumes "rwd_inv p" "rwd_writer th t r p = Some p'"
  shows "rwd_inv p'"
proof (cases "rwd_at p t")
  case Wr_lock
  then show ?thesis using assms
    by (auto simp: rwd_writer_def Let_def bind_eq_Some_conv rwlock_wrlock_def dest!: monitor_op_object intro!: enter_to_write)
next
  case Wr_locking
  then show ?thesis using assms
    by (auto simp: rwd_writer_def Let_def bind_eq_Some_conv rwlock_wrlock_again_def dest!: monitor_loop_object intro!: enter_to_write)
next
  case Wr_unlock
  then show ?thesis using assms
    by (auto simp: rwd_writer_def Let_def bind_eq_Some_conv rwlock_wrunlock_def dest!: monitor_op_object intro!: leave_write)
next
  case Wr_unlocking
  then show ?thesis using assms
    by (auto simp: rwd_writer_def Let_def bind_eq_Some_conv rwlock_wrunlock_again_def dest!: monitor_loop_object intro!: leave_write)
qed (use assms in \<open>auto simp: rwd_writer_def Let_def bind_eq_Some_conv rwd_inv_def split: if_splits
      intro!: lock_keep data_keep data_write\<close>)

lemma rwd_run_inv:
  assumes "rwd_run p0 p" "rwd_inv p0"
  shows "rwd_inv p"
  using assms
proof induction
  case (reads p th t r p')
  then show ?case using reader_turn_inv by blast
next
  case (writes p th t r p')
  then show ?case using writer_turn_inv by blast
qed (simp_all add: rwd_inv_def)

section \<open>From the start\<close>

lemma create_inv:
  assumes "rwd_create P th code arg ks p = Some p'" "rwd_inv p"
    and "\<forall>(k, i) \<in> set ks. (k = Rd_lock \<and> 1 \<le> i \<and> i \<le> RWD_MAXTHREAD) \<or> k = Wr_lock"
    and "\<And>u. \<not> rwd_reading (rwd_at p u) \<and> \<not> rwd_writing (rwd_at p u)"
  shows "rwd_inv p' \<and> (\<forall>u. \<not> rwd_reading (rwd_at p' u) \<and> \<not> rwd_writing (rwd_at p' u))"
  using assms
proof (induction ks arbitrary: p)
  case (Cons k ks)
  obtain k1 i where k: "k = (k1, i)" by (cases k)
  obtain t s where c: "rwd_create P th code arg ks (case t of None \<Rightarrow> p\<lparr>rwd_lib := s\<rparr>
        | Some t \<Rightarrow> rwd_goto t k1 (p\<lparr>rwd_lib := s, rwd_id := (rwd_id p)(t := int i)\<rparr>)) = Some p'"
    using Cons.prems(1) by (auto simp: k bind_eq_Some_conv)
  show ?case
  proof (rule Cons.IH[OF c])
    have "lock_part (rwd_lock p) ((rwd_at p)(u := k1))" "data_part (rwd_base p) ((rwd_id p)(u := int i)) ((rwd_at p)(u := k1))" for u
      using Cons.prems(2-4) k by (auto simp: rwd_inv_def data_part_def intro!: lock_keep)
    then show "rwd_inv (case t of None \<Rightarrow> p\<lparr>rwd_lib := s\<rparr>
        | Some t \<Rightarrow> rwd_goto t k1 (p\<lparr>rwd_lib := s, rwd_id := (rwd_id p)(t := int i)\<rparr>))"
      using Cons.prems(2) by (cases t) (auto simp: rwd_inv_def)
  qed (use Cons.prems(3,4) k in \<open>auto split: option.splits\<close>)
qed simp

lemma rwd_start_inv:
  assumes "rwlock_init mtx cv s0 = (v, s1, l)" "rwd_initializeTasks P th rc wc ids (rwd_start s1 l) = Some p0"
  shows "rwd_inv p0"
proof -
  have "readers l = 0" "\<not> writer l" using assms(1) by (auto simp: rwlock_init_def Let_def split: prod.splits)
  then have i: "rwd_inv (rwd_start s1 l)"
    by (auto simp: rwd_inv_def rwd_start_def lock_part_def data_part_def crew_def)
  have n: "\<not> rwd_reading (rwd_at (rwd_start s1 l) u) \<and> \<not> rwd_writing (rwd_at (rwd_start s1 l) u)" for u
    by (simp add: rwd_start_def)
  obtain p1 where "rwd_create P th rc ids (map (\<lambda>index. (Rd_lock, index + 1)) [0 ..< RWD_MAXTHREAD]) (rwd_start s1 l) = Some p1"
    "rwd_create P th wc (\<lambda>_. 0) [(Wr_lock, 0)] p1 = Some p0"
    using assms(2) unfolding rwd_initializeTasks_def bind_eq_Some_conv by blast
  with create_inv[OF this(1) i _ n] create_inv[OF this(2)] show ?thesis by fastforce
qed

text \<open>
  A reader that is about to read is alone with other readers, its index is within the database, and
  its turn succeeds; there is never more than one writer in its loop.
\<close>

lemma rwd_exclusion:
  assumes "rwlock_init mtx cv s0 = (v, s1, l)" "rwd_initializeTasks P th rc wc ids (rwd_start s1 l) = Some p0" "rwd_run p0 p"
  shows "rwd_reading (rwd_at p t) \<Longrightarrow> \<not> rwd_writing (rwd_at p u)"
    and "rwd_writing (rwd_at p t) \<Longrightarrow> rwd_writing (rwd_at p u) \<Longrightarrow> t = u"
    and "rwd_at p t = Rd_read \<Longrightarrow> \<exists>p'. rwd_reader th' t r p = Some p' \<and> rwd_base p' = rwd_base p"
proof -
  have i: "rwd_inv p" by (rule rwd_run_inv[OF assms(3) rwd_start_inv[OF assms(1,2)]])
  obtain n w where c: "crew rwd_reading n (rwd_at p)" "crew rwd_writing w (rwd_at p)"
    "w = (if writer (rwd_lock p) then 1 else 0)" "writer (rwd_lock p) \<longrightarrow> n = 0"
    using i by (auto simp: rwd_inv_def lock_part_def)
  show "rwd_reading (rwd_at p t) \<Longrightarrow> \<not> rwd_writing (rwd_at p u)"
    using crew_pos[OF c(1), of t] crew_pos[OF c(2), of u] c(3,4) by (auto split: if_splits)
  show "t = u" if "rwd_writing (rwd_at p t)" "rwd_writing (rwd_at p u)"
  proof (rule ccontr)
    assume "t \<noteq> u"
    then have "card {t, u} \<le> w" using c(2) that unfolding crew_def by (metis (no_types, lifting) card_mono empty_subsetI insert_subset mem_Collect_eq)
    with \<open>t \<noteq> u\<close> c(3) show False by (simp split: if_splits)
  qed
  show "rwd_at p t = Rd_read \<Longrightarrow> \<exists>p'. rwd_reader th' t r p = Some p' \<and> rwd_base p' = rwd_base p"
    using i by (auto simp: rwd_reader_def rwd_inv_def data_part_def Let_def dest!: spec[of _ t])
qed

end
