(* ===== verification/Fifo.thy ===== *)
theory Fifo
  imports Main
begin

text \<open>
  The contract of a bounded first-in first-out buffer.  The ring of \<^verbatim>\<open>include/fiberq.h\<close> and the
  linked queue of \<^verbatim>\<open>blockq.c\<close> are instances.  What a user of such a buffer can rely on over any
  sequence of insertions and removals is proved once, here.
\<close>

datatype 'a qop = Put 'a | Get

fun run_ops :: "('a \<Rightarrow> 'q \<Rightarrow> 'q option) \<Rightarrow> ('q \<Rightarrow> ('a \<times> 'q) option) \<Rightarrow> 'a qop list \<Rightarrow> 'q \<Rightarrow> ('a list \<times> 'q) option" where
  "run_ops put get [] q = Some ([], q)"
| "run_ops put get (Put x # ops) q =
     (case put x q of None \<Rightarrow> None | Some q' \<Rightarrow> run_ops put get ops q')"
| "run_ops put get (Get # ops) q =
     (case get q of None \<Rightarrow> None
      | Some (x, q') \<Rightarrow> (case run_ops put get ops q' of None \<Rightarrow> None | Some (ys, q'') \<Rightarrow> Some (x # ys, q'')))"

fun inputs :: "'a qop list \<Rightarrow> 'a list" where
  "inputs [] = []"
| "inputs (Put x # ops) = x # inputs ops"
| "inputs (Get # ops) = inputs ops"

text \<open>Operations that never overflow or underflow a buffer of capacity \<open>cap\<close> holding \<open>n\<close> elements.\<close>

fun fits :: "nat \<Rightarrow> nat \<Rightarrow> 'a qop list \<Rightarrow> bool" where
  "fits cap n [] = True"
| "fits cap n (Put x # ops) = (n < cap \<and> fits cap (Suc n) ops)"
| "fits cap n (Get # ops) = (0 < n \<and> fits cap (n - 1) ops)"

locale bounded_fifo =
  fixes inv :: "'q \<Rightarrow> bool"
    and contents :: "'q \<Rightarrow> 'a list"
    and room :: "'q \<Rightarrow> nat"
    and put :: "'a \<Rightarrow> 'q \<Rightarrow> 'q option"
    and get :: "'q \<Rightarrow> ('a \<times> 'q) option"
  assumes put_law: "inv q \<Longrightarrow> length (contents q) < room q \<Longrightarrow>
        \<exists>q'. put x q = Some q' \<and> inv q' \<and> contents q' = contents q @ [x] \<and> room q' = room q"
    and get_law: "inv q \<Longrightarrow> contents q = x # xs \<Longrightarrow>
        \<exists>q'. get q = Some (x, q') \<and> inv q' \<and> contents q' = xs \<and> room q' = room q"
begin

text \<open>
  Whatever is put in comes out in the same order, nothing is lost or duplicated, and the
  operations always succeed as long as they fit.
\<close>

lemma fifo_run:
  assumes "inv q" "fits (room q) (length (contents q)) ops"
  shows "\<exists>ys q'. run_ops put get ops q = Some (ys, q') \<and> inv q' \<and> room q' = room q \<and>
     contents q @ inputs ops = ys @ contents q'"
  using assms
proof (induction ops arbitrary: q)
  case Nil
  then show ?case by simp
next
  case (Cons op ops)
  show ?case
  proof (cases op)
    case (Put x)
    then obtain q1 where q1: "put x q = Some q1" "inv q1" "contents q1 = contents q @ [x]" "room q1 = room q"
      using put_law[OF Cons.prems(1), of x] Cons.prems(2) by auto
    from Cons.IH[OF q1(2)] Cons.prems(2) Put q1 show ?thesis by fastforce
  next
    case Get
    then obtain x xs where c: "contents q = x # xs" using Cons.prems(2) by (cases "contents q") auto
    obtain q1 where q1: "get q = Some (x, q1)" "inv q1" "contents q1 = xs" "room q1 = room q"
      using get_law[OF Cons.prems(1) c] by blast
    from Cons.IH[OF q1(2)] Cons.prems(2) Get q1 c show ?thesis by fastforce
  qed
qed

lemma fifo_outputs_in_order:
  assumes "inv q" "contents q = []" "fits (room q) 0 ops"
  shows "\<exists>ys q'. run_ops put get ops q = Some (ys, q') \<and> inputs ops = ys @ contents q'"
  using fifo_run[of q ops] assms by auto

end

end
