(* ===== verification/Channel.thy ===== *)
theory Channel
  imports Fifo Monitor
begin

text \<open>
  Queues shared by producers and consumers.  A run interleaves calls of push and pop, finished or
  suspended in the middle, with anything else the system does; what has been sent and received is
  recorded.  The contract of the two calls is a locale, and that every run delivers in order, without
  loss and within the bound, is proved once from it.  \<open>monitored_fifo\<close> gives the contract for a
  bounded buffer behind a monitor.
\<close>

section \<open>Runs\<close>

text \<open>
  \<open>push\<close> and \<open>pop\<close> are the calls from their beginning, \<open>push_again\<close> and \<open>pop_again\<close> from the point
  where a wait has returned.
\<close>

type_synonym ('q, 'a) chan_state = "sys \<times> 'q \<times> 'a list \<times> 'a list"

inductive chan_step ::
  "(nat \<Rightarrow> 'a \<Rightarrow> sys \<Rightarrow> 'q \<Rightarrow> ('u outcome \<times> sys \<times> 'q) option) \<Rightarrow> (nat \<Rightarrow> 'a \<Rightarrow> sys \<Rightarrow> 'q \<Rightarrow> ('u outcome \<times> sys \<times> 'q) option) \<Rightarrow>
   (nat \<Rightarrow> sys \<Rightarrow> 'q \<Rightarrow> ('a outcome \<times> sys \<times> 'q) option) \<Rightarrow> (nat \<Rightarrow> sys \<Rightarrow> 'q \<Rightarrow> ('a outcome \<times> sys \<times> 'q) option) \<Rightarrow>
   ('q, 'a) chan_state \<Rightarrow> ('q, 'a) chan_state \<Rightarrow> bool"
  for push push_again pop pop_again where
  other: "chan_step push push_again pop pop_again (s, q, sent, rcvd) (s', q, sent, rcvd)"
| push_wait: "push th x s q = Some (Switched, s', q') \<or> push_again th x s q = Some (Switched, s', q') \<Longrightarrow>
     chan_step push push_again pop pop_again (s, q, sent, rcvd) (s', q', sent, rcvd)"
| push_done: "push th x s q = Some (Returns v, s', q') \<or> push_again th x s q = Some (Returns v, s', q') \<Longrightarrow>
     chan_step push push_again pop pop_again (s, q, sent, rcvd) (s', q', sent @ [x], rcvd)"
| pop_wait: "pop th s q = Some (Switched, s', q') \<or> pop_again th s q = Some (Switched, s', q') \<Longrightarrow>
     chan_step push push_again pop pop_again (s, q, sent, rcvd) (s', q', sent, rcvd)"
| pop_done: "pop th s q = Some (Returns x, s', q') \<or> pop_again th s q = Some (Returns x, s', q') \<Longrightarrow>
     chan_step push push_again pop pop_again (s, q, sent, rcvd) (s', q', sent, rcvd @ [x])"

inductive chan_reachable ::
  "(nat \<Rightarrow> 'a \<Rightarrow> sys \<Rightarrow> 'q \<Rightarrow> ('u outcome \<times> sys \<times> 'q) option) \<Rightarrow> (nat \<Rightarrow> 'a \<Rightarrow> sys \<Rightarrow> 'q \<Rightarrow> ('u outcome \<times> sys \<times> 'q) option) \<Rightarrow>
   (nat \<Rightarrow> sys \<Rightarrow> 'q \<Rightarrow> ('a outcome \<times> sys \<times> 'q) option) \<Rightarrow> (nat \<Rightarrow> sys \<Rightarrow> 'q \<Rightarrow> ('a outcome \<times> sys \<times> 'q) option) \<Rightarrow>
   'q \<Rightarrow> ('q, 'a) chan_state \<Rightarrow> bool"
  for push push_again pop pop_again q0 where
  start: "chan_reachable push push_again pop pop_again q0 (s, q0, [], [])"
| step: "chan_reachable push push_again pop pop_again q0 a \<Longrightarrow> chan_step push push_again pop pop_again a b \<Longrightarrow>
     chan_reachable push push_again pop pop_again q0 b"

section \<open>The contract of the calls\<close>

fun appends :: "('q \<Rightarrow> bool) \<Rightarrow> ('q \<Rightarrow> 'a list) \<Rightarrow> ('q \<Rightarrow> nat) \<Rightarrow> 'a \<Rightarrow> 'q \<Rightarrow> 'u outcome \<times> sys \<times> 'q \<Rightarrow> bool" where
  "appends ok contents room x q (Switched, s', q') = (q' = q)"
| "appends ok contents room x q (Returns v, s', q') =
     (ok q' \<and> contents q' = contents q @ [x] \<and> length (contents q) < room q \<and> room q' = room q)"

fun removes :: "('q \<Rightarrow> bool) \<Rightarrow> ('q \<Rightarrow> 'a list) \<Rightarrow> ('q \<Rightarrow> nat) \<Rightarrow> 'q \<Rightarrow> 'a outcome \<times> sys \<times> 'q \<Rightarrow> bool" where
  "removes ok contents room q (Switched, s', q') = (q' = q)"
| "removes ok contents room q (Returns x, s', q') = (ok q' \<and> contents q = x # contents q' \<and> room q' = room q)"

locale channel =
  fixes inv :: "'q \<Rightarrow> bool"
    and contents :: "'q \<Rightarrow> 'a list"
    and room :: "'q \<Rightarrow> nat"
    and push :: "nat \<Rightarrow> 'a \<Rightarrow> sys \<Rightarrow> 'q \<Rightarrow> ('u outcome \<times> sys \<times> 'q) option"
    and push_again :: "nat \<Rightarrow> 'a \<Rightarrow> sys \<Rightarrow> 'q \<Rightarrow> ('u outcome \<times> sys \<times> 'q) option"
    and pop :: "nat \<Rightarrow> sys \<Rightarrow> 'q \<Rightarrow> ('a outcome \<times> sys \<times> 'q) option"
    and pop_again :: "nat \<Rightarrow> sys \<Rightarrow> 'q \<Rightarrow> ('a outcome \<times> sys \<times> 'q) option"
  assumes push_law: "inv q \<Longrightarrow> push th x s q = Some y \<Longrightarrow> appends inv contents room x q y"
    and push_again_law: "inv q \<Longrightarrow> push_again th x s q = Some y \<Longrightarrow> appends inv contents room x q y"
    and pop_law: "inv q \<Longrightarrow> pop th s q = Some z \<Longrightarrow> removes inv contents room q z"
    and pop_again_law: "inv q \<Longrightarrow> pop_again th s q = Some z \<Longrightarrow> removes inv contents room q z"
begin

text \<open>What has been sent is what has been received followed by what is in the queue.\<close>

definition in_order :: "'q \<Rightarrow> 'q \<Rightarrow> 'a list \<Rightarrow> 'a list \<Rightarrow> bool" where
  "in_order q0 q sent rcvd \<longleftrightarrow>
     inv q \<and> sent = rcvd @ contents q \<and> room q = room q0 \<and> length (contents q) \<le> room q0"

lemma step_in_order:
  assumes "chan_step push push_again pop pop_again (s, q, sent, rcvd) (s', q', sent', rcvd')" "in_order q0 q sent rcvd"
  shows "in_order q0 q' sent' rcvd'"
proof -
  from assms(2) have i: "inv q" by (simp add: in_order_def)
  note laws = push_law[OF i] push_again_law[OF i] pop_law[OF i] pop_again_law[OF i]
  from assms show ?thesis by cases (auto simp: in_order_def dest!: laws)
qed

lemma run_in_order:
  assumes "chan_reachable push push_again pop pop_again q0 a" "inv q0" "contents q0 = []"
  shows "in_order q0 (fst (snd a)) (fst (snd (snd a))) (snd (snd (snd a)))"
  using assms(1)
proof induction
  case (start s)
  then show ?case using assms(2,3) by (simp add: in_order_def)
next
  case (step a b)
  then show ?case by (metis prod.collapse step_in_order)
qed

lemma run_delivers:
  assumes "chan_reachable push push_again pop pop_again q0 (s, q, sent, rcvd)" "inv q0" "contents q0 = []"
  shows "inv q \<and> sent = rcvd @ contents q \<and> length (contents q) \<le> room q0"
  using run_in_order[OF assms] by (simp add: in_order_def)

end

section \<open>A bounded buffer behind a monitor\<close>

locale monitored_fifo = bounded_fifo inv contents room put get
  for inv :: "'q \<Rightarrow> bool" and contents :: "'q \<Rightarrow> 'a list" and room :: "'q \<Rightarrow> nat"
    and put :: "'a \<Rightarrow> 'q \<Rightarrow> 'q option" and get :: "'q \<Rightarrow> ('a \<times> 'q) option" +
  fixes full :: "'q \<Rightarrow> bool"
    and empt :: "'q \<Rightarrow> bool"
  assumes full_law: "inv q \<Longrightarrow> full q \<longleftrightarrow> room q \<le> length (contents q)"
    and empt_law: "inv q \<Longrightarrow> empt q \<longleftrightarrow> contents q = []"
begin

lemma put_appends:
  assumes "inv q" "object_change full (\<lambda>q. map_option (Pair v) (put x q)) q y"
  shows "appends inv contents room x q y"
proof (cases "(full, \<lambda>q. map_option (Pair v) (put x q), q, y)" rule: object_change.cases)
  case (1 blocked body q1 s' q')
  with assms(2) show ?thesis by auto
next
  case (2 blocked body q1 w s' q')
  with assms have "length (contents q) < room q" "put x q = Some q'" using full_law by (auto simp: not_le)
  with put_law[OF assms(1), of x] 2 show ?thesis by auto
qed

lemma get_removes:
  assumes "inv q" "object_change empt get q y"
  shows "removes inv contents room q y"
proof (cases "(empt, get, q, y)" rule: object_change.cases)
  case (1 blocked body q1 s' q')
  with assms(2) show ?thesis by auto
next
  case (2 blocked body q1 w s' q')
  with assms have g: "contents q \<noteq> []" "get q = Some (w, q')" using empt_law by auto
  then obtain x xs where "contents q = x # xs" by (cases "contents q") auto
  with get_law[OF assms(1) this] 2 g(2) show ?thesis by auto
qed

end

end
