(* ===== verification/Fiberq.thy ===== *)
theory Fiberq
  imports Channel
begin

text \<open>
  The bounded message queue of \<^verbatim>\<open>include/fiberq.h\<close>: a ring of \<open>size\<close> elements guarded by a
  fiber mutex and two condition variables (\<open>full\<close> for producers, \<open>empt\<close> for consumers).
  \<open>rbq_put\<close> and \<open>rbq_get\<close> are the parts of push and pop that run with the mutex held.
\<close>

section \<open>The operations\<close>

record 'a fiberq =
  rbq_head :: int
  rbq_tail :: int
  rbq_ndat :: nat
  rbq_size :: nat
  rbq_lock :: nat
  rbq_empt :: nat
  rbq_full :: nat
  rbq_data :: "'a list"

text \<open>
  \<open>head\<close> and \<open>tail\<close> are \<open>int32_t\<close>: what is assigned to them is cut to 32 bits,
  and adding 1 to the largest of them is a fault.

  \<open>FIBERQ_INIT\<close>: \<open>allocated\<close> is whether \<open>_aligned_malloc\<close> returned memory.  The \<open>memset\<close>
  stands before the test of the pointer, so a failed allocation faults.
\<close>

definition fiberq_init ::
  "'a \<Rightarrow> bool \<Rightarrow> nat \<Rightarrow> nat \<Rightarrow> nat \<Rightarrow> nat \<Rightarrow> sys \<Rightarrow> (bool \<times> sys \<times> 'a fiberq) option" where
  "fiberq_init zero allocated qsize lock empt full s = do {
     let (_, s) = fiber_cond_init full s;
     let (_, s) = fiber_cond_init empt s;
     let (_, s) = (if one_n_model s then (0, s) else mutex_init lock s);
     if \<not> allocated \<and> qsize \<noteq> 0 then None
     else Some (allocated, s, \<lparr>rbq_head = 0, rbq_tail = 0, rbq_ndat = 0, rbq_size = qsize,
            rbq_lock = lock, rbq_empt = empt, rbq_full = full, rbq_data = replicate qsize zero\<rparr>)
   }"

text \<open>\<open>FIBERQ_INIT_STATIC\<close>: the array is part of the structure.\<close>

definition fiberq_init_static ::
  "'a \<Rightarrow> nat \<Rightarrow> nat \<Rightarrow> nat \<Rightarrow> nat \<Rightarrow> sys \<Rightarrow> bool \<times> sys \<times> 'a fiberq" where
  "fiberq_init_static zero SIZE lock empt full s =
     (let (_, s) = fiber_cond_init full s;
          (_, s) = fiber_cond_init empt s;
          (_, s) = (if one_n_model s then (0, s) else mutex_init lock s)
      in (True, s, \<lparr>rbq_head = 0, rbq_tail = 0, rbq_ndat = 0, rbq_size = SIZE,
            rbq_lock = lock, rbq_empt = empt, rbq_full = full, rbq_data = replicate SIZE zero\<rparr>))"

text \<open>\<open>FIBERQ_FREE\<close>: the elements are gone, the synchronisation objects are destroyed.\<close>

definition fiberq_free :: "'a fiberq \<Rightarrow> sys \<Rightarrow> sys \<times> 'a fiberq" where
  "fiberq_free q s =
     (let q = q\<lparr>rbq_data := []\<rparr>;
          (_, s) = fiber_cond_destroy (rbq_full q) s;
          (_, s) = fiber_cond_destroy (rbq_empt q) s;
          (_, s) = (if one_n_model s then (True, s) else mutex_destroy (rbq_lock q) s)
      in (s, q))"

definition rbq_count :: "'a fiberq \<Rightarrow> nat" where
  "rbq_count q = rbq_ndat q"

definition rbq_is_full :: "'a fiberq \<Rightarrow> bool" where
  "rbq_is_full q = (rbq_ndat q \<ge> rbq_size q)"

definition rbq_is_empty :: "'a fiberq \<Rightarrow> bool" where
  "rbq_is_empty q = (rbq_ndat q \<le> 0)"

definition rbq_put :: "'a \<Rightarrow> 'a fiberq \<Rightarrow> 'a fiberq option" where
  "rbq_put x q =
     (if rbq_head q < 0 \<or> nat (rbq_head q) \<ge> length (rbq_data q) \<or> rbq_head q + 1 \<ge> 2 ^ 31 then None
      else Some (q\<lparr>rbq_data := (rbq_data q)[nat (rbq_head q) := x],
                   rbq_head := int32_of ((nat (rbq_head q) + 1) mod rbq_size q),
                   rbq_ndat := rbq_ndat q + 1\<rparr>))"

definition rbq_get :: "'a fiberq \<Rightarrow> ('a \<times> 'a fiberq) option" where
  "rbq_get q =
     (if rbq_tail q < 0 \<or> nat (rbq_tail q) \<ge> length (rbq_data q) \<or> rbq_tail q + 1 \<ge> 2 ^ 31 then None
      else Some (rbq_data q ! nat (rbq_tail q),
                 q\<lparr>rbq_tail := int32_of ((nat (rbq_tail q) + 1) mod rbq_size q),
                   rbq_ndat := rbq_ndat q - 1\<rparr>))"

definition fiberq_push :: "nat \<Rightarrow> 'a \<Rightarrow> sys \<Rightarrow> 'a fiberq \<Rightarrow> (bool outcome \<times> sys \<times> 'a fiberq) option" where
  "fiberq_push th x s q =
     monitor_op th (rbq_lock q) (rbq_full q) rbq_is_full
       (\<lambda>q. map_option (\<lambda>q. (True, q)) (rbq_put x q)) (notify_one th (rbq_empt q)) s q"

definition fiberq_pop :: "nat \<Rightarrow> sys \<Rightarrow> 'a fiberq \<Rightarrow> ('a outcome \<times> sys \<times> 'a fiberq) option" where
  "fiberq_pop th s q =
     monitor_op th (rbq_lock q) (rbq_empt q) rbq_is_empty rbq_get (notify_one th (rbq_full q)) s q"

text \<open>The two calls from the point where a wait has returned with the mutex held.\<close>

definition fiberq_push_again :: "nat \<Rightarrow> 'a \<Rightarrow> sys \<Rightarrow> 'a fiberq \<Rightarrow> (bool outcome \<times> sys \<times> 'a fiberq) option" where
  "fiberq_push_again th x s q =
     monitor_loop th (rbq_lock q) (rbq_full q) rbq_is_full
       (\<lambda>q. map_option (\<lambda>q. (True, q)) (rbq_put x q)) (notify_one th (rbq_empt q)) s q"

definition fiberq_pop_again :: "nat \<Rightarrow> sys \<Rightarrow> 'a fiberq \<Rightarrow> ('a outcome \<times> sys \<times> 'a fiberq) option" where
  "fiberq_pop_again th s q =
     monitor_loop th (rbq_lock q) (rbq_empt q) rbq_is_empty rbq_get (notify_one th (rbq_full q)) s q"

section \<open>The ring is a bounded FIFO\<close>

definition rbq_inv :: "'a fiberq \<Rightarrow> bool" where
  "rbq_inv q = (0 < rbq_size q \<and> rbq_size q < 2 ^ 31 \<and> length (rbq_data q) = rbq_size q \<and>
     rbq_ndat q \<le> rbq_size q \<and> 0 \<le> rbq_tail q \<and> rbq_tail q < int (rbq_size q) \<and>
     rbq_head q = int ((nat (rbq_tail q) + rbq_ndat q) mod rbq_size q))"

definition rbq_contents :: "'a fiberq \<Rightarrow> 'a list" where
  "rbq_contents q = map (\<lambda>i. rbq_data q ! ((nat (rbq_tail q) + i) mod rbq_size q)) [0 ..< rbq_ndat q]"

lemma contents_length [simp]: "length (rbq_contents q) = rbq_ndat q"
  by (simp add: rbq_contents_def)

lemma rbq_put_law:
  assumes inv: "rbq_inv q" and lt: "rbq_ndat q < rbq_size q"
  shows "\<exists>q'. rbq_put x q = Some q' \<and> rbq_inv q' \<and> rbq_contents q' = rbq_contents q @ [x] \<and>
     rbq_size q' = rbq_size q \<and> rbq_lock q' = rbq_lock q"
proof -
  let ?n = "rbq_size q" and ?t = "nat (rbq_tail q)" and ?k = "rbq_ndat q"
  let ?h = "(?t + ?k) mod ?n"
  from inv have n: "0 < ?n" "?n < 2 ^ 31" "length (rbq_data q) = ?n" "?t < ?n" "rbq_head q = int ?h" "0 \<le> rbq_tail q"
    by (auto simp: rbq_inv_def nat_less_iff)
  have h: "?h < ?n" using n(1) by simp
  then have h': "\<not> ?n \<le> ?h" by (simp only: not_le)
  let ?q = "q\<lparr>rbq_data := (rbq_data q)[?h := x], rbq_head := int ((?t + (?k + 1)) mod ?n), rbq_ndat := ?k + 1\<rparr>"
  have e: "(?h + 1) mod ?n = (?t + (?k + 1)) mod ?n" by (simp add: mod_simps)
  have "(?h + 1) mod ?n < 2 ^ 31" using n(1,2) by (meson mod_less_divisor order_less_trans)
  then have "int32_of ((?h + 1) mod ?n) = int ((?t + (?k + 1)) mod ?n)" using int32_small e by metis
  then have put: "rbq_put x q = Some ?q" using n(2,3,5) h h' by (simp only: rbq_put_def nat_int) simp
  have c: "rbq_data ?q ! ((?t + i) mod ?n) = (if i = ?k then x else rbq_data q ! ((?t + i) mod ?n))" if "i \<le> ?k" for i
    using ring_slots_differ[of i ?k ?n ?t] that lt n(3,4) h by auto
  have "rbq_contents ?q = map (\<lambda>i. rbq_data ?q ! ((?t + i) mod ?n)) [0 ..< ?k] @ [rbq_data ?q ! ((?t + ?k) mod ?n)]"
    by (simp add: rbq_contents_def)
  also have "\<dots> = rbq_contents q @ [x]" using c unfolding rbq_contents_def by (intro arg_cong2[of _ _ _ _ append] map_cong) simp_all
  finally show ?thesis using put inv lt by (intro exI[of _ ?q]) (simp add: rbq_inv_def)
qed

lemma rbq_get_law:
  assumes inv: "rbq_inv q" and c: "rbq_contents q = x # xs"
  shows "\<exists>q'. rbq_get q = Some (x, q') \<and> rbq_inv q' \<and> rbq_contents q' = xs \<and>
     rbq_size q' = rbq_size q \<and> rbq_lock q' = rbq_lock q"
proof -
  let ?n = "rbq_size q" and ?t = "nat (rbq_tail q)"
  obtain k where k: "rbq_ndat q = Suc k" using c contents_length[of q] by (cases "rbq_ndat q") auto
  from inv have n: "0 < ?n" "?n < 2 ^ 31" "length (rbq_data q) = ?n" "?t < ?n" "0 \<le> rbq_tail q"
    "rbq_head q = int ((?t + Suc k) mod ?n)" "Suc k \<le> ?n"
    by (auto simp: rbq_inv_def nat_less_iff k)
  let ?q = "q\<lparr>rbq_tail := int ((?t + 1) mod ?n), rbq_ndat := k\<rparr>"
  have "(?t + 1) mod ?n < 2 ^ 31" using n(1,2) by (meson mod_less_divisor order_less_trans)
  then have "int32_of ((?t + 1) mod ?n) = int ((?t + 1) mod ?n)" by (rule int32_small)
  then have get: "rbq_get q = Some (rbq_data q ! ?t, ?q)" using n(2-5) k by (simp only: rbq_get_def) simp
  have "x # xs = rbq_data q ! ?t # map (\<lambda>i. rbq_data q ! ((?t + Suc i) mod ?n)) [0 ..< k]"
    using c k n(4) unfolding rbq_contents_def by (simp add: map_upt_Suc del: upt_Suc)
  moreover have "rbq_contents ?q = map (\<lambda>i. rbq_data q ! ((?t + Suc i) mod ?n)) [0 ..< k]"
    by (simp add: rbq_contents_def mod_simps)
  moreover have "rbq_inv ?q" using n by (simp add: rbq_inv_def mod_simps)
  ultimately show ?thesis using get by (intro exI[of _ ?q]) simp
qed

interpretation rbq: monitored_fifo rbq_inv rbq_contents rbq_size rbq_put rbq_get rbq_is_full rbq_is_empty
proof
  show "\<exists>q'. rbq_put x q = Some q' \<and> rbq_inv q' \<and> rbq_contents q' = rbq_contents q @ [x] \<and> rbq_size q' = rbq_size q"
    if "rbq_inv q" "length (rbq_contents q) < rbq_size q" for q :: "'a fiberq" and x
    using rbq_put_law[of q x] that by auto
  show "\<exists>q'. rbq_get q = Some (x, q') \<and> rbq_inv q' \<and> rbq_contents q' = xs \<and> rbq_size q' = rbq_size q"
    if "rbq_inv q" "rbq_contents q = x # xs" for q :: "'a fiberq" and x xs
    using rbq_get_law[OF that] by auto
  show "rbq_is_full q \<longleftrightarrow> rbq_size q \<le> length (rbq_contents q)" for q :: "'a fiberq" by (simp add: rbq_is_full_def)
  show "rbq_is_empty q \<longleftrightarrow> rbq_contents q = []" for q :: "'a fiberq"
    by (metis contents_length le_zero_eq length_0_conv rbq_is_empty_def)
qed

interpretation rbq_chan: channel rbq_inv rbq_contents rbq_size fiberq_push fiberq_push_again fiberq_pop fiberq_pop_again
  by unfold_locales
    (auto simp: fiberq_push_def fiberq_push_again_def fiberq_pop_def fiberq_pop_again_def
      dest!: monitor_op_object monitor_loop_object intro: rbq.put_appends rbq.get_removes)

section \<open>Push and pop\<close>

lemma fiberq_init_static_spec:
  assumes "0 < n" "n < 2 ^ 31"
  shows "\<exists>s' q. fiberq_init_static z n lock empt full s = (True, s', q) \<and> rbq_inv q \<and> rbq_contents q = [] \<and> rbq_size q = n"
  using assms by (simp add: fiberq_init_static_def fiber_cond_init_def mutex_init_def Let_def rbq_inv_def rbq_contents_def)

lemma fiberq_push_completes:
  assumes e: "enterable s Q th d m us c (rbq_lock q)" and inv: "rbq_inv q" and lt: "rbq_count q < rbq_size q"
    and w: "Q (CondWaitq (rbq_empt q)) = Some ws" and ok: "waiters_ok s Q c (CondWaitq (rbq_empt q))"
  shows "\<exists>s' q' Q'. fiberq_push th x s q = Some (Returns True, s', q') \<and> rbq_inv q' \<and>
     rbq_contents q' = rbq_contents q @ [x] \<and> queues s' Q' \<and> Q' (CondWaitq (rbq_empt q)) = Some (tl ws) \<and>
     unowned s' (rbq_lock q)"
proof -
  obtain q' where q': "rbq_put x q = Some q'" "rbq_inv q'" "rbq_contents q' = rbq_contents q @ [x]"
    using rbq_put_law[OF inv] lt by (auto simp: rbq_count_def)
  have "\<not> rbq_is_full q" "map_option (\<lambda>q. (True, q)) (rbq_put x q) = Some (True, q')"
    using lt q' by (simp_all add: rbq_is_full_def rbq_count_def)
  from monitor_signals[where blocked = rbq_is_full and q = q and body = "\<lambda>q. map_option (\<lambda>q. (True, q)) (rbq_put x q)", OF e this w ok]
  show ?thesis using q'(2,3) unfolding fiberq_push_def by blast
qed

lemma fiberq_pop_completes:
  assumes e: "enterable s Q th d m us c (rbq_lock q)" and inv: "rbq_inv q" and ne: "rbq_contents q = x # xs"
    and w: "Q (CondWaitq (rbq_full q)) = Some ws" and ok: "waiters_ok s Q c (CondWaitq (rbq_full q))"
  shows "\<exists>s' q' Q'. fiberq_pop th s q = Some (Returns x, s', q') \<and> rbq_inv q' \<and>
     rbq_contents q' = xs \<and> queues s' Q' \<and> Q' (CondWaitq (rbq_full q)) = Some (tl ws) \<and>
     unowned s' (rbq_lock q)"
proof -
  obtain q' where q': "rbq_get q = Some (x, q')" "rbq_inv q'" "rbq_contents q' = xs"
    using rbq_get_law[OF inv ne] by auto
  have "\<not> rbq_is_empty q" using ne contents_length[of q] by (simp add: rbq_is_empty_def)
  from monitor_signals[where blocked = rbq_is_empty and q = q and body = rbq_get, OF e this q'(1) w ok]
  show ?thesis using q'(2,3) unfolding fiberq_pop_def by blast
qed

lemma fiberq_push_waits:
  assumes e: "enterable s Q th d m us c (rbq_lock q)" and full: "rbq_count q \<ge> rbq_size q"
    and w: "Q (CondWaitq (rbq_full q)) = Some ws"
  shows "\<exists>s' Q'. fiberq_push th x s q = Some (Switched, s', q) \<and> queues s' Q' \<and>
     Q' (CondWaitq (rbq_full q)) = Some (ws @ [c]) \<and> unowned s' (rbq_lock q)"
proof -
  have "rbq_is_full q" using full by (simp add: rbq_is_full_def rbq_count_def)
  from monitor_waits[where blocked = rbq_is_full, OF e this w]
  show ?thesis unfolding fiberq_push_def by blast
qed

lemma fiberq_pop_waits:
  assumes e: "enterable s Q th d m us c (rbq_lock q)" and empt: "rbq_contents q = []"
    and w: "Q (CondWaitq (rbq_empt q)) = Some ws"
  shows "\<exists>s' Q'. fiberq_pop th s q = Some (Switched, s', q) \<and> queues s' Q' \<and>
     Q' (CondWaitq (rbq_empt q)) = Some (ws @ [c]) \<and> unowned s' (rbq_lock q)"
proof -
  have "rbq_is_empty q" using empt contents_length[of q] by (simp add: rbq_is_empty_def)
  from monitor_waits[where blocked = rbq_is_empty, OF e this w]
  show ?thesis unfolding fiberq_pop_def by blast
qed

lemma fiberq_push_branches:
  assumes "enterable s Q th d m us c (rbq_lock q)" "rbq_inv q"
    and "Q (CondWaitq (rbq_empt q)) = Some es" "waiters_ok s Q c (CondWaitq (rbq_empt q))" "Q (CondWaitq (rbq_full q)) = Some fs"
  shows "\<exists>r s' q' Q'. fiberq_push th x s q = Some (r, s', q') \<and> queues s' Q' \<and> rbq_inv q' \<and>
     unowned s' (rbq_lock q) \<and>
     (if length (rbq_contents q) < rbq_size q
      then r = Returns True \<and> rbq_contents q' = rbq_contents q @ [x] \<and> Q' (CondWaitq (rbq_empt q)) = Some (tl es)
      else r = Switched \<and> q' = q \<and> Q' (CondWaitq (rbq_full q)) = Some (fs @ [c]))"
proof (cases "rbq_count q < rbq_size q")
  case True
  then show ?thesis using fiberq_push_completes[OF assms(1,2) True assms(3,4), of x] by (fastforce simp: rbq_count_def)
next
  case False
  then have "rbq_count q \<ge> rbq_size q" by simp
  from fiberq_push_waits[OF assms(1) this assms(5), of x] False assms(2) show ?thesis by (fastforce simp: rbq_count_def)
qed

lemma fiberq_pop_branches:
  assumes "enterable s Q th d m us c (rbq_lock q)" "rbq_inv q"
    and "Q (CondWaitq (rbq_full q)) = Some fs" "waiters_ok s Q c (CondWaitq (rbq_full q))" "Q (CondWaitq (rbq_empt q)) = Some es"
  shows "\<exists>r s' q' Q'. fiberq_pop th s q = Some (r, s', q') \<and> queues s' Q' \<and> rbq_inv q' \<and>
     unowned s' (rbq_lock q) \<and>
     (case rbq_contents q of
        x # xs \<Rightarrow> r = Returns x \<and> rbq_contents q' = xs \<and> Q' (CondWaitq (rbq_full q)) = Some (tl fs)
      | [] \<Rightarrow> r = Switched \<and> q' = q \<and> Q' (CondWaitq (rbq_empt q)) = Some (es @ [c]))"
proof (cases "rbq_contents q")
  case (Cons x xs)
  then show ?thesis using fiberq_pop_completes[OF assms(1,2) Cons assms(3,4)] by fastforce
next
  case Nil
  then show ?thesis using fiberq_pop_waits[OF assms(1) Nil assms(5)] assms(2) by fastforce
qed

text \<open>From an initialised queue: what is taken out, followed by what is stored, is what was put in.\<close>

lemma fiberq_is_fifo:
  assumes "0 < n" "n < 2 ^ 31" "fits n 0 ops"
  shows "\<exists>s' q ys q'. fiberq_init_static z n lock empt full s = (True, s', q) \<and>
     run_ops rbq_put rbq_get ops q = Some (ys, q') \<and> inputs ops = ys @ rbq_contents q' \<and> rbq_inv q' \<and> rbq_size q' = n"
proof -
  obtain s' q where q: "fiberq_init_static z n lock empt full s = (True, s', q)" "rbq_inv q" "rbq_contents q = []" "rbq_size q = n"
    using fiberq_init_static_spec[OF assms(1,2), of z lock empt full s] by blast
  then show ?thesis using rbq.fifo_run[of q ops] assms(3) by auto
qed

end
