(* ===== verification/Blockq.thy ===== *)
theory Blockq
  imports Channel
begin

text \<open>
  The blocking queue of \<^verbatim>\<open>blockq.c\<close>: a singly qlinked queue of nodes taken from a free list
  that is allocated with the object, guarded by a fiber mutex and two condition variables.  Nodes
  are numbered; a pointer to a node is \<open>Some\<close> of its number, \<open>NULL\<close> is \<open>None\<close>.
\<close>

section \<open>The operations\<close>

record 'a qnode =
  qnext :: "nat option"
  object :: 'a

record 'a blockq =
  nodes :: "nat \<Rightarrow> 'a qnode"
  qhead :: "nat option"
  qtail :: "nat option"
  bq_freelist :: "nat option"
  limit :: int
  bq_count :: int
  bq_lock :: nat
  bq_empt :: nat
  bq_full :: nat

definition queue_init :: "'a blockq \<Rightarrow> 'a blockq" where
  "queue_init q = q\<lparr>qhead := None, qtail := None\<rparr>"

definition queue_is_empty :: "'a blockq \<Rightarrow> bool" where
  "queue_is_empty q = (qhead q = None)"

definition queue_push :: "nat \<Rightarrow> 'a blockq \<Rightarrow> 'a blockq" where
  "queue_push node q =
     (case qtail q of
        Some t \<Rightarrow> q\<lparr>nodes := (nodes q)(t := (nodes q t)\<lparr>qnext := Some node\<rparr>), qtail := Some node\<rparr>
      | None \<Rightarrow> q\<lparr>qhead := Some node, qtail := Some node\<rparr>)"

definition queue_pop :: "'a blockq \<Rightarrow> (nat \<times> 'a blockq) option" where
  "queue_pop q =
     (case qhead q of None \<Rightarrow> None
      | Some oldhead \<Rightarrow>
          (let q = q\<lparr>qhead := qnext (nodes q oldhead)\<rparr>;
               q = (if qhead q = None then q\<lparr>qtail := None\<rparr> else q)
           in Some (oldhead, q)))"

text \<open>The loop of \<open>blockq_new\<close> that pushes the nodes onto the free list.\<close>

fun blockq_nodes :: "nat list \<Rightarrow> 'a blockq \<Rightarrow> 'a blockq" where
  "blockq_nodes [] q = q"
| "blockq_nodes (i # is) q =
     blockq_nodes is (q\<lparr>nodes := (nodes q)(i := (nodes q i)\<lparr>qnext := bq_freelist q\<rparr>), bq_freelist := Some i\<rparr>)"

text \<open>
  \<open>allocated\<close> is whether \<open>malloc\<close> returned memory, \<open>junk\<close> what it holds.  The loop index is an
  \<open>int\<close>: it overflows before the loop ends when there are \<open>2 ^ 31\<close> nodes or more.
\<close>

definition blockq_new ::
  "bool \<Rightarrow> (nat \<Rightarrow> 'a qnode) \<Rightarrow> nat \<Rightarrow> nat \<Rightarrow> nat \<Rightarrow> nat \<Rightarrow> sys \<Rightarrow> ('a blockq option \<times> sys) option" where
  "blockq_new allocated junk lim lock empt full s =
     (if \<not> allocated then Some (None, s)
      else if lim + 8 \<ge> 2 ^ 31 then None
      else
        (let q = \<lparr>nodes = junk, qhead = None, qtail = None, bq_freelist = None, limit = 0, bq_count = 0,
                  bq_lock = lock, bq_empt = empt, bq_full = full\<rparr>;
             q = blockq_nodes [0 ..< lim + 8] q;
             q = queue_init q;
             q = q\<lparr>limit := int32_of lim, bq_count := 0\<rparr>;
             (_, s) = (if one_n_model s then (0, s) else mutex_init lock s);
             (_, s) = fiber_cond_init empt s;
             (_, s) = fiber_cond_init full s
         in Some (Some q, s)))"

definition bq_is_full :: "'a blockq \<Rightarrow> bool" where
  "bq_is_full q = (bq_count q \<ge> limit q)"

definition bq_is_empty :: "'a blockq \<Rightarrow> bool" where
  "bq_is_empty q = (bq_count q = 0)"

text \<open>What push and pop do with the mutex held.\<close>

definition bq_put :: "'a \<Rightarrow> 'a blockq \<Rightarrow> 'a blockq option" where
  "bq_put x q =
     (case bq_freelist q of None \<Rightarrow> None
      | Some node \<Rightarrow>
          (let q = q\<lparr>bq_freelist := qnext (nodes q node)\<rparr>;
               q = q\<lparr>nodes := (nodes q)(node := \<lparr>qnext = None, object = x\<rparr>)\<rparr>;
               q = queue_push node q
           in Some (q\<lparr>bq_count := bq_count q + 1\<rparr>)))"

definition bq_get :: "'a blockq \<Rightarrow> ('a \<times> 'a blockq) option" where
  "bq_get q = do {
     (node, q) \<leftarrow> queue_pop q;
     let x = object (nodes q node);
     let q = q\<lparr>nodes := (nodes q)(node := (nodes q node)\<lparr>qnext := bq_freelist q\<rparr>)\<rparr>;
     let q = q\<lparr>bq_freelist := Some node\<rparr>;
     Some (x, q\<lparr>bq_count := bq_count q - 1\<rparr>)
   }"

definition blockq_push :: "nat \<Rightarrow> 'a \<Rightarrow> sys \<Rightarrow> 'a blockq \<Rightarrow> (unit outcome \<times> sys \<times> 'a blockq) option" where
  "blockq_push th x s q =
     monitor_op th (bq_lock q) (bq_full q) bq_is_full
       (\<lambda>q. map_option (\<lambda>q. ((), q)) (bq_put x q)) (notify_one th (bq_empt q)) s q"

definition blockq_pop :: "nat \<Rightarrow> sys \<Rightarrow> 'a blockq \<Rightarrow> ('a outcome \<times> sys \<times> 'a blockq) option" where
  "blockq_pop th s q =
     monitor_op th (bq_lock q) (bq_empt q) bq_is_empty bq_get (notify_one th (bq_full q)) s q"

text \<open>The two calls from the point where a wait has returned with the mutex held.\<close>

definition blockq_push_again :: "nat \<Rightarrow> 'a \<Rightarrow> sys \<Rightarrow> 'a blockq \<Rightarrow> (unit outcome \<times> sys \<times> 'a blockq) option" where
  "blockq_push_again th x s q =
     monitor_loop th (bq_lock q) (bq_full q) bq_is_full
       (\<lambda>q. map_option (\<lambda>q. ((), q)) (bq_put x q)) (notify_one th (bq_empt q)) s q"

definition blockq_pop_again :: "nat \<Rightarrow> sys \<Rightarrow> 'a blockq \<Rightarrow> ('a outcome \<times> sys \<times> 'a blockq) option" where
  "blockq_pop_again th s q =
     monitor_loop th (bq_lock q) (bq_empt q) bq_is_empty bq_get (notify_one th (bq_full q)) s q"

definition blockq_delete :: "'a blockq \<Rightarrow> sys \<Rightarrow> sys" where
  "blockq_delete q s =
     (let (_, s) = (if one_n_model s then (True, s) else mutex_destroy (bq_lock q) s);
          (_, s) = fiber_cond_destroy (bq_empt q) s;
          (_, s) = fiber_cond_destroy (bq_full q) s
      in s)"

section \<open>Linked nodes\<close>

fun qlinked :: "(nat \<Rightarrow> 'a qnode) \<Rightarrow> nat option \<Rightarrow> nat list \<Rightarrow> bool" where
  "qlinked N p [] = (p = None)"
| "qlinked N p (x # xs) = (p = Some x \<and> qlinked N (qnext (N x)) xs)"

fun walk :: "(nat \<Rightarrow> 'a qnode) \<Rightarrow> nat \<Rightarrow> nat option \<Rightarrow> nat list" where
  "walk N 0 p = []"
| "walk N (Suc n) None = []"
| "walk N (Suc n) (Some x) = x # walk N n (qnext (N x))"

lemma qlinked_walk: "qlinked N p xs \<Longrightarrow> walk N (length xs) p = xs"
  by (induction xs arbitrary: p) auto

lemma qlinked_off [simp]: "x \<notin> set xs \<Longrightarrow> qlinked (N(x := v)) p xs = qlinked N p xs"
  by (induction xs arbitrary: p) auto

lemma qlinked_snoc:
  assumes "qlinked N p xs" "xs \<noteq> []" "distinct xs" "y \<notin> set xs" "qnext (N y) = None"
  shows "qlinked (N(last xs := (N (last xs))\<lparr>qnext := Some y\<rparr>)) p (xs @ [y])"
  using assms
proof (induction xs arbitrary: p)
  case (Cons x xs)
  then show ?case by (cases "xs = []") auto
qed simp

definition bq_inv :: "'a blockq \<Rightarrow> bool" where
  "bq_inv q = (\<exists>xs fs. qlinked (nodes q) (qhead q) xs \<and> qlinked (nodes q) (bq_freelist q) fs \<and>
     distinct (xs @ fs) \<and> qtail q = (if xs = [] then None else Some (last xs)) \<and>
     bq_count q = int (length xs) \<and> 0 \<le> limit q \<and> bq_count q \<le> limit q \<and>
     limit q + 8 \<le> int (length xs + length fs))"

definition bq_contents :: "'a blockq \<Rightarrow> 'a list" where
  "bq_contents q = map (\<lambda>x. object (nodes q x)) (walk (nodes q) (nat (bq_count q)) (qhead q))"

lemma bq_invE:
  assumes "bq_inv q"
  obtains xs fs where "qlinked (nodes q) (qhead q) xs" "qlinked (nodes q) (bq_freelist q) fs"
    "distinct (xs @ fs)" "qtail q = (if xs = [] then None else Some (last xs))"
    "bq_count q = int (length xs)" "0 \<le> limit q" "bq_count q \<le> limit q" "limit q + 8 \<le> int (length xs + length fs)"
    "bq_contents q = map (\<lambda>x. object (nodes q x)) xs"
proof -
  from assms obtain xs fs where i: "qlinked (nodes q) (qhead q) xs" "qlinked (nodes q) (bq_freelist q) fs"
    "distinct (xs @ fs)" "qtail q = (if xs = [] then None else Some (last xs))"
    "bq_count q = int (length xs)" "0 \<le> limit q" "bq_count q \<le> limit q" "limit q + 8 \<le> int (length xs + length fs)"
    unfolding bq_inv_def by blast
  then have "bq_contents q = map (\<lambda>x. object (nodes q x)) xs" using qlinked_walk[OF i(1)] by (simp add: bq_contents_def)
  with i show thesis by (rule that)
qed

lemma bq_put_law:
  assumes inv: "bq_inv q" and lt: "int (length (bq_contents q)) < limit q"
  shows "\<exists>q'. bq_put x q = Some q' \<and> bq_inv q' \<and> bq_contents q' = bq_contents q @ [x] \<and> limit q' = limit q"
proof -
  from inv obtain xs fs where i: "qlinked (nodes q) (qhead q) xs" "qlinked (nodes q) (bq_freelist q) fs"
    "distinct (xs @ fs)" "qtail q = (if xs = [] then None else Some (last xs))"
    "bq_count q = int (length xs)" "0 \<le> limit q" "bq_count q \<le> limit q" "limit q + 8 \<le> int (length xs + length fs)"
    "bq_contents q = map (\<lambda>x. object (nodes q x)) xs" by (rule bq_invE)
  obtain y gs where fs: "fs = y # gs" using i(8) lt i(5,9) by (cases fs) auto
  let ?N = "(nodes q)(y := \<lparr>qnext = None, object = x\<rparr>)"
  let ?q = "(queue_push y (q\<lparr>bq_freelist := qnext (nodes q y), nodes := ?N\<rparr>))\<lparr>bq_count := bq_count q + 1\<rparr>"
  have y: "y \<notin> set xs" "y \<notin> set gs" "set xs \<inter> set gs = {}" using i(3) fs by auto
  have put: "bq_put x q = Some ?q" using i(2) fs by (simp add: bq_put_def queue_push_def split: option.splits)
  have l: "qlinked (nodes ?q) (qhead ?q) (xs @ [y])"
    using qlinked_snoc[of ?N "qhead q" xs y] i(1,3,4) y(1) by (cases "xs = []") (auto simp: queue_push_def)
  have f: "qlinked (nodes ?q) (bq_freelist ?q) gs"
    using i(2,4) fs y by (cases "xs = []") (auto simp: queue_push_def disjoint_iff)
  have o: "map (\<lambda>x. object (nodes ?q x)) (xs @ [y]) = bq_contents q @ [x]"
    using i(4,9) y(1) by (cases "xs = []") (auto simp: queue_push_def)
  have t: "qtail ?q = Some y" "bq_count ?q = int (length (xs @ [y]))" "limit ?q = limit q"
    using i(4,5) by (auto simp: queue_push_def split: option.splits)
  have "bq_inv ?q" unfolding bq_inv_def
    using l f t y i(3,5,6,8,9) fs lt by (intro exI[of _ "xs @ [y]"] exI[of _ gs]) (auto simp del: append_assoc)
  moreover have "bq_contents ?q = bq_contents q @ [x]"
    using qlinked_walk[OF l] o t(2) by (simp only: bq_contents_def nat_int)
  ultimately show ?thesis using put t(3) by blast
qed

lemma bq_get_law:
  assumes inv: "bq_inv q" and c: "bq_contents q = x # cs"
  shows "\<exists>q'. bq_get q = Some (x, q') \<and> bq_inv q' \<and> bq_contents q' = cs \<and> limit q' = limit q"
proof -
  from inv obtain xs fs where i: "qlinked (nodes q) (qhead q) xs" "qlinked (nodes q) (bq_freelist q) fs"
    "distinct (xs @ fs)" "qtail q = (if xs = [] then None else Some (last xs))"
    "bq_count q = int (length xs)" "0 \<le> limit q" "bq_count q \<le> limit q" "limit q + 8 \<le> int (length xs + length fs)"
    "bq_contents q = map (\<lambda>x. object (nodes q x)) xs" by (rule bq_invE)
  obtain y ys where xs: "xs = y # ys" "x = object (nodes q y)" "cs = map (\<lambda>x. object (nodes q x)) ys"
    using c i(9) by (cases xs) auto
  let ?q = "q\<lparr>qhead := qnext (nodes q y), qtail := (if ys = [] then None else qtail q),
     nodes := (nodes q)(y := (nodes q y)\<lparr>qnext := bq_freelist q\<rparr>), bq_freelist := Some y, bq_count := bq_count q - 1\<rparr>"
  have e: "(qnext (nodes q y) = None) = (ys = [])" using i(1) xs by (cases ys) auto
  have get: "bq_get q = Some (x, ?q)"
    using i(1) xs e by (auto simp: bq_get_def queue_pop_def Let_def)
  have l: "qlinked (nodes ?q) (qhead ?q) ys" and f: "qlinked (nodes ?q) (bq_freelist ?q) (y # fs)"
    using i(1,2,3) xs(1) by auto
  have "bq_inv ?q" unfolding bq_inv_def
    using l f i(3-8) xs(1) by (intro exI[of _ ys] exI[of _ "y # fs"]) auto
  moreover have "bq_contents ?q = cs"
    using qlinked_walk[OF l] i(3,5) xs by (auto simp: bq_contents_def)
  ultimately show ?thesis using get by (intro exI[of _ ?q]) simp
qed

lemma bq_contents_count: "bq_inv q \<Longrightarrow> int (length (bq_contents q)) = bq_count q"
  by (elim bq_invE) simp

interpretation bq: monitored_fifo bq_inv bq_contents "\<lambda>q. nat (limit q)" bq_put bq_get bq_is_full bq_is_empty
proof
  show "\<exists>q'. bq_put x q = Some q' \<and> bq_inv q' \<and> bq_contents q' = bq_contents q @ [x] \<and> nat (limit q') = nat (limit q)"
    if "bq_inv q" "length (bq_contents q) < nat (limit q)" for q :: "'a blockq" and x
    using bq_put_law[OF that(1), of x] that(2) by (simp add: zless_nat_eq_int_zless) metis
  show "\<exists>q'. bq_get q = Some (x, q') \<and> bq_inv q' \<and> bq_contents q' = xs \<and> nat (limit q') = nat (limit q)"
    if "bq_inv q" "bq_contents q = x # xs" for q :: "'a blockq" and x xs
    using bq_get_law[OF that] by auto
  show "bq_is_full q \<longleftrightarrow> nat (limit q) \<le> length (bq_contents q)" if "bq_inv q" for q :: "'a blockq"
    using bq_contents_count[OF that] by (simp add: bq_is_full_def nat_le_iff)
  show "bq_is_empty q \<longleftrightarrow> bq_contents q = []" if "bq_inv q" for q :: "'a blockq"
    using bq_contents_count[OF that] by (auto simp: bq_is_empty_def)
qed

interpretation bq_chan: channel bq_inv bq_contents "\<lambda>q. nat (limit q)" blockq_push blockq_push_again blockq_pop blockq_pop_again
  by unfold_locales
    (auto simp: blockq_push_def blockq_push_again_def blockq_pop_def blockq_pop_again_def
      dest!: monitor_op_object monitor_loop_object intro: bq.put_appends bq.get_removes)

section \<open>Creation, push and pop\<close>

lemma blockq_nodes_spec:
  "distinct is \<Longrightarrow> qlinked (nodes q) (bq_freelist q) fs \<Longrightarrow> set is \<inter> set fs = {} \<Longrightarrow>
     \<exists>N. blockq_nodes is q = q\<lparr>nodes := N, bq_freelist := (if is = [] then bq_freelist q else Some (last is))\<rparr> \<and>
       qlinked N (if is = [] then bq_freelist q else Some (last is)) (rev is @ fs)"
proof (induction "is" arbitrary: q fs)
  case Nil
  then show ?case by (intro exI[of _ "nodes q"]) simp
next
  case (Cons i "is")
  let ?q = "q\<lparr>nodes := (nodes q)(i := (nodes q i)\<lparr>qnext := bq_freelist q\<rparr>), bq_freelist := Some i\<rparr>"
  have "qlinked (nodes ?q) (bq_freelist ?q) (i # fs)" using Cons.prems by simp
  from Cons.IH[OF _ this] Cons.prems show ?case by auto
qed

lemma blockq_new_spec:
  assumes "lim + 8 < 2 ^ 31"
  shows "\<exists>s' q. blockq_new True junk lim lock empt full s = Some (Some q, s') \<and> bq_inv q \<and>
     bq_contents q = [] \<and> limit q = int lim \<and> bq_lock q = lock \<and> bq_empt q = empt \<and> bq_full q = full"
proof -
  let ?q = "\<lparr>nodes = junk, qhead = None, qtail = None, bq_freelist = None, limit = 0, bq_count = 0,
     bq_lock = lock, bq_empt = empt, bq_full = full\<rparr>"
  obtain N where N: "blockq_nodes [0 ..< lim + 8] ?q = ?q\<lparr>nodes := N, bq_freelist := Some (last [0 ..< lim + 8])\<rparr>"
    "qlinked N (Some (last [0 ..< lim + 8])) (rev [0 ..< lim + 8])"
    using blockq_nodes_spec[of "[0 ..< lim + 8]" ?q "[]"] by (auto simp del: upt_Suc upt_conv_Cons)
  let ?q' = "?q\<lparr>nodes := N, bq_freelist := Some (last [0 ..< lim + 8]), limit := int lim\<rparr>"
  have l: "int32_of lim = int lim" using assms int32_small by simp
  have "\<exists>s'. blockq_new True junk lim lock empt full s = Some (Some ?q', s')"
    using assms N(1) l by (simp add: blockq_new_def queue_init_def Let_def split_beta del: upt_Suc)
  moreover have "bq_inv ?q'" unfolding bq_inv_def using N(2)
    by (intro exI[of _ "[]"] exI[of _ "rev [0 ..< lim + 8]"]) (simp del: upt_Suc)
  ultimately show ?thesis by (auto simp: bq_contents_def)
qed

lemma blockq_push_completes:
  assumes e: "enterable s Q th d m us c (bq_lock q)" and inv: "bq_inv q" and lt: "bq_count q < limit q"
    and w: "Q (CondWaitq (bq_empt q)) = Some ws" and ok: "waiters_ok s Q c (CondWaitq (bq_empt q))"
  shows "\<exists>s' q' Q'. blockq_push th x s q = Some (Returns (), s', q') \<and> bq_inv q' \<and>
     bq_contents q' = bq_contents q @ [x] \<and> queues s' Q' \<and> Q' (CondWaitq (bq_empt q)) = Some (tl ws) \<and>
     unowned s' (bq_lock q)"
proof -
  obtain q' where q': "bq_put x q = Some q'" "bq_inv q'" "bq_contents q' = bq_contents q @ [x]"
    using bq_put_law[OF inv] lt bq_contents_count[OF inv] by auto
  have "\<not> bq_is_full q" "map_option (\<lambda>q. ((), q)) (bq_put x q) = Some ((), q')"
    using lt q' by (simp_all add: bq_is_full_def)
  from monitor_signals[where blocked = bq_is_full and q = q and body = "\<lambda>q. map_option (\<lambda>q. ((), q)) (bq_put x q)", OF e this w ok]
  show ?thesis using q'(2,3) unfolding blockq_push_def by blast
qed

lemma blockq_pop_completes:
  assumes e: "enterable s Q th d m us c (bq_lock q)" and inv: "bq_inv q" and ne: "bq_contents q = x # xs"
    and w: "Q (CondWaitq (bq_full q)) = Some ws" and ok: "waiters_ok s Q c (CondWaitq (bq_full q))"
  shows "\<exists>s' q' Q'. blockq_pop th s q = Some (Returns x, s', q') \<and> bq_inv q' \<and>
     bq_contents q' = xs \<and> queues s' Q' \<and> Q' (CondWaitq (bq_full q)) = Some (tl ws) \<and>
     unowned s' (bq_lock q)"
proof -
  obtain q' where q': "bq_get q = Some (x, q')" "bq_inv q'" "bq_contents q' = xs"
    using bq_get_law[OF inv ne] by auto
  have "\<not> bq_is_empty q" using ne bq_contents_count[OF inv] by (simp add: bq_is_empty_def)
  from monitor_signals[where blocked = bq_is_empty and q = q and body = bq_get, OF e this q'(1) w ok]
  show ?thesis using q'(2,3) unfolding blockq_pop_def by blast
qed

lemma blockq_push_waits:
  assumes e: "enterable s Q th d m us c (bq_lock q)" and full: "bq_count q \<ge> limit q"
    and w: "Q (CondWaitq (bq_full q)) = Some ws"
  shows "\<exists>s' Q'. blockq_push th x s q = Some (Switched, s', q) \<and> queues s' Q' \<and>
     Q' (CondWaitq (bq_full q)) = Some (ws @ [c]) \<and> unowned s' (bq_lock q)"
proof -
  have "bq_is_full q" using full by (simp add: bq_is_full_def)
  from monitor_waits[where blocked = bq_is_full, OF e this w]
  show ?thesis unfolding blockq_push_def by blast
qed

lemma blockq_pop_waits:
  assumes e: "enterable s Q th d m us c (bq_lock q)" and empt: "bq_count q = 0"
    and w: "Q (CondWaitq (bq_empt q)) = Some ws"
  shows "\<exists>s' Q'. blockq_pop th s q = Some (Switched, s', q) \<and> queues s' Q' \<and>
     Q' (CondWaitq (bq_empt q)) = Some (ws @ [c]) \<and> unowned s' (bq_lock q)"
proof -
  have "bq_is_empty q" using empt by (simp add: bq_is_empty_def)
  from monitor_waits[where blocked = bq_is_empty, OF e this w]
  show ?thesis unfolding blockq_pop_def by blast
qed

text \<open>From a new queue: what is taken out, followed by what is stored, is what was put in.\<close>

lemma blockq_is_fifo:
  assumes "n + 8 < 2 ^ 31" "fits n 0 ops"
  shows "\<exists>s' q ys q'. blockq_new True junk n lock empt full s = Some (Some q, s') \<and>
     run_ops bq_put bq_get ops q = Some (ys, q') \<and> inputs ops = ys @ bq_contents q' \<and> bq_inv q'"
proof -
  obtain s' q where q: "blockq_new True junk n lock empt full s = Some (Some q, s')" "bq_inv q" "bq_contents q = []" "limit q = int n"
    using blockq_new_spec[OF assms(1), of junk lock empt full s] by blast
  then show ?thesis using bq.fifo_run[of q ops] assms(2) by auto
qed

text \<open>In every run on a new queue nothing is lost, duplicated or reordered, and the limit holds.\<close>

lemma blockq_runs_in_order:
  assumes "blockq_new True junk n lock empt full s0 = Some (Some q0, s1)" "n + 8 < 2 ^ 31"
    and "chan_reachable blockq_push blockq_push_again blockq_pop blockq_pop_again q0 (s, q, sent, rcvd)"
  shows "bq_inv q \<and> sent = rcvd @ bq_contents q \<and> length (bq_contents q) \<le> n"
proof -
  from blockq_new_spec[OF assms(2), of junk lock empt full s0] assms(1)
  have "bq_inv q0" "bq_contents q0 = []" "limit q0 = int n" by auto
  with bq_chan.run_delivers[OF assms(3)] show ?thesis by simp
qed

end
