(* ===== verification/Win_Cond.thy ===== *)
theory Win_Cond
  imports Prelude
begin

text \<open>
  The condition variable that \<^verbatim>\<open>pipe.c\<close> builds for Windows before Vista: counters under a
  critical section and a manual-reset event, with a generation number that is to keep later waiters
  from taking the place of earlier ones.  Any number of threads share one condition variable and the mutex
  that goes with it; a step is one section of a call that no other thread can divide, and the threads
  take steps in any order.  Used with broadcasts by the holder of the mutex it wakes exactly the
  threads that wait; with signals, or with notifications by others, it forgets some.
\<close>

section \<open>Events\<close>

text \<open>
  The event object of the platform is a parameter: its creation (manual reset, initial state), \<open>SetEvent\<close>,
  \<open>ResetEvent\<close>, and whether \<open>WaitForSingleObject\<close> returns.  \<open>manual_reset\<close> is what its documentation
  promises of an event that is created with manual reset.
\<close>

record 'e event_api =
  CreateEvent :: "bool \<Rightarrow> bool \<Rightarrow> 'e"
  SetEvent :: "'e \<Rightarrow> 'e"
  ResetEvent :: "'e \<Rightarrow> 'e"
  signalled :: "'e \<Rightarrow> bool"

definition manual_reset :: "'e event_api \<Rightarrow> bool" where
  "manual_reset A = ((\<forall>b. signalled A (CreateEvent A True b) = b) \<and>
     (\<forall>e. signalled A (SetEvent A e) \<and> \<not> signalled A (ResetEvent A e)))"

definition flag_event :: "bool event_api" where
  "flag_event = \<lparr>CreateEvent = (\<lambda>_ b. b), SetEvent = (\<lambda>_. True), ResetEvent = (\<lambda>_. False), signalled = (\<lambda>b. b)\<rparr>"

section \<open>The condition variable\<close>

record 'e win_cond =
  waiters_count :: int
  release_count :: int
  wait_generation_count :: int
  wc_event :: 'e

definition win_cond_init :: "'e event_api \<Rightarrow> 'e win_cond" where
  "win_cond_init A = \<lparr>waiters_count = 0, release_count = 0, wait_generation_count = 0, wc_event = CreateEvent A True False\<rparr>"

text \<open>An \<open>int\<close> that is incremented or decremented; outside of its range the behaviour is undefined.\<close>

definition step_int :: "int \<Rightarrow> int \<Rightarrow> int option" where
  "step_int d x = (if x + d < - (2 ^ 31) \<or> x + d \<ge> 2 ^ 31 then None else Some (x + d))"

definition win_cond_signal :: "'e event_api \<Rightarrow> 'e win_cond \<Rightarrow> 'e win_cond option" where
  "win_cond_signal A c =
     (if waiters_count c > release_count c then do {
        let c = c\<lparr>wc_event := SetEvent A (wc_event c)\<rparr>;
        r \<leftarrow> step_int 1 (release_count c);
        g \<leftarrow> step_int 1 (wait_generation_count c);
        Some (c\<lparr>release_count := r, wait_generation_count := g\<rparr>)
      } else Some c)"

definition win_cond_broadcast :: "'e event_api \<Rightarrow> 'e win_cond \<Rightarrow> 'e win_cond option" where
  "win_cond_broadcast A c =
     (if waiters_count c > 0 then do {
        let c = c\<lparr>wc_event := SetEvent A (wc_event c)\<rparr>;
        let c = c\<lparr>release_count := waiters_count c\<rparr>;
        g \<leftarrow> step_int 1 (wait_generation_count c);
        Some (c\<lparr>wait_generation_count := g\<rparr>)
      } else Some c)"

section \<open>Threads\<close>

text \<open>
  Where a thread is: outside of the calls, or in \<open>cond_wait\<close> before it unlocks the mutex, before
  \<open>WaitForSingleObject\<close> returns, before it looks at the counters, before it locks the mutex again, before it
  takes itself off the counters, and before it resets the event.
\<close>

datatype wc_pc = Elsewhere | Unlocking | Sleeping | Checking | Relocking | Leaving | Resetting

record 'e wc_state =
  wc_cond :: "'e win_cond"
  wc_owner :: "nat option"
  wc_at :: "nat \<Rightarrow> wc_pc"
  my_generation :: "nat \<Rightarrow> int"
  wc_last :: "nat \<Rightarrow> int"

definition wc_start :: "'e event_api \<Rightarrow> 'e wc_state" where
  "wc_start A = \<lparr>wc_cond = win_cond_init A, wc_owner = None, wc_at = (\<lambda>_. Elsewhere),
     my_generation = (\<lambda>_. 0), wc_last = (\<lambda>_. 0)\<rparr>"

abbreviation wc_goto :: "nat \<Rightarrow> wc_pc \<Rightarrow> 'e wc_state \<Rightarrow> 'e wc_state" where
  "wc_goto t k s \<equiv> s\<lparr>wc_at := (wc_at s)(t := k)\<rparr>"

text \<open>The first section of \<open>cond_wait\<close>, up to the end of the critical section.\<close>

definition win_wait_enter :: "nat \<Rightarrow> 'e wc_state \<Rightarrow> 'e wc_state option" where
  "win_wait_enter t s = do {
     let c = wc_cond s;
     w \<leftarrow> step_int 1 (waiters_count c);
     let c = c\<lparr>waiters_count := w\<rparr>;
     Some (wc_goto t Unlocking (s\<lparr>wc_cond := c, my_generation := (my_generation s)(t := wait_generation_count c)\<rparr>))
   }"

text \<open>The rest of \<open>cond_wait\<close>, one section at a time.\<close>

definition win_wait_turn :: "'e event_api \<Rightarrow> nat \<Rightarrow> 'e wc_state \<Rightarrow> 'e wc_state option" where
  "win_wait_turn A t s =
     (let c = wc_cond s in
      case wc_at s t of
        Elsewhere \<Rightarrow> None
      | Unlocking \<Rightarrow> Some (wc_goto t Sleeping (s\<lparr>wc_owner := None\<rparr>))
      | Sleeping \<Rightarrow> if signalled A (wc_event c) then Some (wc_goto t Checking s) else None
      | Checking \<Rightarrow>
          let wait_done = (release_count c > 0 \<and> wait_generation_count c \<noteq> my_generation s t)
          in Some (wc_goto t (if wait_done then Relocking else Sleeping) s)
      | Relocking \<Rightarrow> if wc_owner s = None then Some (wc_goto t Leaving (s\<lparr>wc_owner := Some t\<rparr>)) else None
      | Leaving \<Rightarrow> do {
          w \<leftarrow> step_int (- 1) (waiters_count c);
          r \<leftarrow> step_int (- 1) (release_count c);
          Some (wc_goto t Resetting (s\<lparr>wc_cond := c\<lparr>waiters_count := w, release_count := r\<rparr>, wc_last := (wc_last s)(t := r)\<rparr>))
        }
      | Resetting \<Rightarrow>
          let c = (if wc_last s t = 0 then c\<lparr>wc_event := ResetEvent A (wc_event c)\<rparr> else c)
          in Some (wc_goto t Elsewhere (s\<lparr>wc_cond := c\<rparr>)))"

text \<open>
  What a thread does next: lock or unlock the mutex, call one of the functions, or take its next step in
  \<open>cond_wait\<close>, which is called with the mutex held.  \<open>None\<close> means that it cannot do that now.
\<close>

datatype wc_act = Lock nat | Unlock nat | Wait nat | Turn nat | Signal nat | Broadcast nat

fun wc_next :: "'e event_api \<Rightarrow> wc_act \<Rightarrow> 'e wc_state \<Rightarrow> 'e wc_state option" where
  "wc_next A (Lock t) s = (if wc_at s t = Elsewhere \<and> wc_owner s = None then Some (s\<lparr>wc_owner := Some t\<rparr>) else None)"
| "wc_next A (Unlock t) s = (if wc_at s t = Elsewhere \<and> wc_owner s = Some t then Some (s\<lparr>wc_owner := None\<rparr>) else None)"
| "wc_next A (Wait t) s = (if wc_at s t = Elsewhere \<and> wc_owner s = Some t then win_wait_enter t s else None)"
| "wc_next A (Turn t) s = win_wait_turn A t s"
| "wc_next A (Signal t) s =
     (if wc_at s t = Elsewhere then map_option (\<lambda>c. s\<lparr>wc_cond := c\<rparr>) (win_cond_signal A (wc_cond s)) else None)"
| "wc_next A (Broadcast t) s =
     (if wc_at s t = Elsewhere then map_option (\<lambda>c. s\<lparr>wc_cond := c\<rparr>) (win_cond_broadcast A (wc_cond s)) else None)"

fun wc_run :: "'e event_api \<Rightarrow> wc_act list \<Rightarrow> 'e wc_state \<Rightarrow> 'e wc_state option" where
  "wc_run A [] s = Some s"
| "wc_run A (a # as) s = do { s \<leftarrow> wc_next A a s; wc_run A as s }"

text \<open>The states that are reached by actions that keep to a rule \<open>R\<close>.\<close>

inductive wc_reachable :: "'e event_api \<Rightarrow> (wc_act \<Rightarrow> 'e wc_state \<Rightarrow> bool) \<Rightarrow> 'e wc_state \<Rightarrow> bool" for A R where
  start: "wc_reachable A R (wc_start A)"
| step: "wc_reachable A R s \<Longrightarrow> R a s \<Longrightarrow> wc_next A a s = Some s' \<Longrightarrow> wc_reachable A R s'"

text \<open>A run every action of which keeps to the rule.\<close>

fun wc_rule_run :: "'e event_api \<Rightarrow> (wc_act \<Rightarrow> 'e wc_state \<Rightarrow> bool) \<Rightarrow> wc_act list \<Rightarrow> 'e wc_state \<Rightarrow> bool" where
  "wc_rule_run A R [] s = True"
| "wc_rule_run A R (a # as) s = (R a s \<and> (case wc_next A a s of None \<Rightarrow> False | Some s \<Rightarrow> wc_rule_run A R as s))"

lemma run_reachable:
  "wc_reachable A R s \<Longrightarrow> wc_rule_run A R as s \<Longrightarrow> wc_run A as s = Some s' \<Longrightarrow> wc_reachable A R s'"
  by (induction as arbitrary: s) (auto split: option.splits intro: wc_reachable.step)

definition anyhow :: "wc_act \<Rightarrow> 'e wc_state \<Rightarrow> bool" where
  "anyhow a s = True"

text \<open>Notifications are broadcasts by the holder of the mutex.\<close>

definition broadcasts_inside :: "wc_act \<Rightarrow> 'e wc_state \<Rightarrow> bool" where
  "broadcasts_inside a s = (case a of Signal t \<Rightarrow> False | Broadcast t \<Rightarrow> wc_owner s = Some t | _ \<Rightarrow> True)"

text \<open>Notifications are made by the holder of the mutex.\<close>

definition notifies_inside :: "wc_act \<Rightarrow> 'e wc_state \<Rightarrow> bool" where
  "notifies_inside a s = (case a of Signal t \<Rightarrow> wc_owner s = Some t | Broadcast t \<Rightarrow> wc_owner s = Some t | _ \<Rightarrow> True)"

section \<open>The mutex and the number of waiters\<close>

fun counted_in :: "wc_pc \<Rightarrow> bool" where
  "counted_in Elsewhere = False"
| "counted_in Resetting = False"
| "counted_in _ = True"

fun holds_mutex :: "wc_pc \<Rightarrow> bool" where
  "holds_mutex Unlocking = True"
| "holds_mutex Leaving = True"
| "holds_mutex Resetting = True"
| "holds_mutex _ = False"

fun past_check :: "wc_pc \<Rightarrow> bool" where
  "past_check Relocking = True"
| "past_check Leaving = True"
| "past_check _ = False"

text \<open>
  In every run: the threads that are inside of \<open>cond_wait\<close> are counted, those that hold the mutex there are its
  owner, and one that has passed the check was notified after it came.
\<close>

definition head_count :: "int \<Rightarrow> (nat \<Rightarrow> wc_pc) \<Rightarrow> bool" where
  "head_count w pc = (finite {t. counted_in (pc t)} \<and> w = int (card {t. counted_in (pc t)}))"

definition mutex_held :: "nat option \<Rightarrow> (nat \<Rightarrow> wc_pc) \<Rightarrow> bool" where
  "mutex_held h pc = (\<forall>t. holds_mutex (pc t) \<longrightarrow> h = Some t)"

definition generations :: "int \<Rightarrow> (nat \<Rightarrow> int) \<Rightarrow> (nat \<Rightarrow> wc_pc) \<Rightarrow> bool" where
  "generations g my pc = (\<forall>t. (counted_in (pc t) \<longrightarrow> my t \<le> g) \<and> (past_check (pc t) \<longrightarrow> my t < g))"

definition wc_inv :: "'e wc_state \<Rightarrow> bool" where
  "wc_inv s = (head_count (waiters_count (wc_cond s)) (wc_at s) \<and> mutex_held (wc_owner s) (wc_at s) \<and>
     generations (wait_generation_count (wc_cond s)) (my_generation s) (wc_at s))"

lemma step_int_eq: "step_int d x = Some y \<Longrightarrow> y = x + d"
  by (simp add: step_int_def split: if_splits)

lemma start_inv: "wc_inv (wc_start A)"
  by (simp add: wc_inv_def head_count_def mutex_held_def generations_def wc_start_def win_cond_init_def)

lemma head_keep: "head_count w pc \<Longrightarrow> counted_in k = counted_in (pc t) \<Longrightarrow> head_count w (pc(t := k))"
  unfolding head_count_def by (simp only: members_keep)

lemma head_in: "head_count w pc \<Longrightarrow> \<not> counted_in (pc t) \<Longrightarrow> counted_in k \<Longrightarrow> head_count (w + 1) (pc(t := k))"
  using members_gain[of counted_in pc t k] by (simp add: head_count_def)

lemma head_out: "head_count w pc \<Longrightarrow> counted_in (pc t) \<Longrightarrow> \<not> counted_in k \<Longrightarrow> head_count (w - 1) (pc(t := k))"
  using members_lose[of counted_in pc t k] by (simp add: head_count_def)

lemma held_keep: "mutex_held h pc \<Longrightarrow> (holds_mutex k \<Longrightarrow> h = Some t) \<Longrightarrow> mutex_held h (pc(t := k))"
  by (simp add: mutex_held_def)

lemma held_free: "mutex_held (Some t) pc \<Longrightarrow> \<not> holds_mutex k \<Longrightarrow> mutex_held h (pc(t := k))"
  by (auto simp: mutex_held_def)

lemma held_take: "mutex_held None pc \<Longrightarrow> mutex_held (Some t) (pc(t := k))"
  by (simp add: mutex_held_def)

lemma generations_keep:
  "generations g my pc \<Longrightarrow> counted_in k \<longrightarrow> counted_in (pc t) \<Longrightarrow> past_check k \<longrightarrow> past_check (pc t) \<Longrightarrow>
     generations g my (pc(t := k))"
  by (simp add: generations_def)

lemma generations_pass:
  "generations g my pc \<Longrightarrow> counted_in (pc t) \<Longrightarrow> g \<noteq> my t \<Longrightarrow> generations g my (pc(t := k))"
  by (auto simp: generations_def order.not_eq_order_implies_strict)

lemma notify_fields:
  assumes "win_cond_signal A c = Some c' \<or> win_cond_broadcast A c = Some c'"
  shows "waiters_count c' = waiters_count c" "wait_generation_count c \<le> wait_generation_count c'"
  using assms by (auto simp: win_cond_signal_def win_cond_broadcast_def bind_eq_Some_conv Let_def split: if_splits dest!: step_int_eq)

lemma notify_inv:
  assumes "wc_inv s" "win_cond_signal A (wc_cond s) = Some c \<or> win_cond_broadcast A (wc_cond s) = Some c"
  shows "wc_inv (s\<lparr>wc_cond := c\<rparr>)"
  using assms(1) notify_fields[OF assms(2)] by (fastforce simp: wc_inv_def generations_def)

lemma enter_inv:
  assumes "wc_inv s" "wc_at s t = Elsewhere" "wc_owner s = Some t" "win_wait_enter t s = Some s'"
  shows "wc_inv s'"
  using assms
  by (auto simp: wc_inv_def win_wait_enter_def bind_eq_Some_conv Let_def generations_def
      dest!: step_int_eq intro!: head_in held_keep)

lemma turn_inv:
  assumes inv: "wc_inv s" and turn: "win_wait_turn A t s = Some s'"
  shows "wc_inv s'"
proof (cases "wc_at s t")
  case Unlocking
  then have "wc_owner s = Some t" using inv by (simp add: wc_inv_def mutex_held_def)
  then show ?thesis using assms Unlocking
    by (auto simp: win_wait_turn_def wc_inv_def intro!: head_keep held_free generations_keep)
next
  case Sleeping
  then show ?thesis using assms
    by (auto simp: win_wait_turn_def wc_inv_def split: if_splits intro!: head_keep held_keep generations_keep)
next
  case Checking
  then have "generations (wait_generation_count (wc_cond s)) (my_generation s) ((wc_at s)(t := k))"
    if "wait_generation_count (wc_cond s) \<noteq> my_generation s t \<or> \<not> past_check k" "counted_in k" for k
    using inv that by (auto simp: wc_inv_def intro: generations_pass generations_keep)
  then show ?thesis using assms Checking
    by (auto simp: win_wait_turn_def wc_inv_def Let_def split: if_splits intro!: head_keep held_keep)
next
  case Relocking
  then show ?thesis using assms
    by (auto simp: win_wait_turn_def wc_inv_def split: if_splits intro!: head_keep held_take generations_keep)
next
  case Leaving
  then have "wc_owner s = Some t" using inv by (simp add: wc_inv_def mutex_held_def)
  then show ?thesis using assms Leaving
    by (auto simp: win_wait_turn_def wc_inv_def Let_def bind_eq_Some_conv dest!: step_int_eq
        intro!: head_out[of "waiters_count (wc_cond s)", simplified] held_keep generations_keep)
next
  case Resetting
  then show ?thesis using assms
    by (auto simp: win_wait_turn_def wc_inv_def Let_def split: if_splits intro!: head_keep held_keep generations_keep)
qed (use turn in \<open>simp add: win_wait_turn_def\<close>)

lemma next_inv: "wc_inv s \<Longrightarrow> wc_next A a s = Some s' \<Longrightarrow> wc_inv s'"
proof (induction A a s rule: wc_next.induct)
  case (1 A t s)
  then show ?case by (auto simp: wc_inv_def mutex_held_def split: if_splits)
next
  case (2 A t s)
  then show ?case by (fastforce simp: wc_inv_def mutex_held_def split: if_splits)
next
  case (3 A t s)
  then show ?case using enter_inv by (auto split: if_splits)
next
  case (4 A t s)
  then show ?case using turn_inv by auto
next
  case (5 A t s)
  then show ?case using notify_inv[of s A] by (auto split: if_splits)
next
  case (6 A t s)
  then show ?case using notify_inv[of s A] by (auto split: if_splits)
qed

lemma reachable_inv: "wc_reachable A R s \<Longrightarrow> wc_inv s"
  by (induction rule: wc_reachable.induct) (auto intro: start_inv next_inv)

section \<open>Broadcasts by the holder of the mutex\<close>

text \<open>
  A thread is owed its release when it was there at the last broadcast. In a run in which notifications are broadcasts
  by the holder of the mutex, \<open>release_count\<close> is the number of these threads, and the event is set as long as
  there is one.
\<close>

definition owed :: "int \<Rightarrow> wc_pc \<times> int \<Rightarrow> bool" where
  "owed g x = (counted_in (fst x) \<and> snd x < g)"

definition wc_place :: "(nat \<Rightarrow> wc_pc) \<Rightarrow> (nat \<Rightarrow> int) \<Rightarrow> nat \<Rightarrow> wc_pc \<times> int" where
  "wc_place pc my t = (pc t, my t)"

abbreviation places :: "'e wc_state \<Rightarrow> nat \<Rightarrow> wc_pc \<times> int" where
  "places s \<equiv> wc_place (wc_at s) (my_generation s)"

definition owes :: "int \<Rightarrow> int \<Rightarrow> (nat \<Rightarrow> wc_pc \<times> int) \<Rightarrow> bool" where
  "owes r g f = (finite {t. owed g (f t)} \<and> r = int (card {t. owed g (f t)}))"

definition broadcast_inv :: "'e event_api \<Rightarrow> 'e wc_state \<Rightarrow> bool" where
  "broadcast_inv A s = (wc_inv s \<and>
     owes (release_count (wc_cond s)) (wait_generation_count (wc_cond s)) (places s) \<and>
     (0 < release_count (wc_cond s) \<longrightarrow> signalled A (wc_event (wc_cond s))) \<and>
     (\<forall>t. wc_at s t = Resetting \<longrightarrow> wc_last s t = release_count (wc_cond s)))"

lemma owes_keep: "owes r g f \<Longrightarrow> owed g x = owed g (f t) \<Longrightarrow> owes r g (f(t := x))"
  unfolding owes_def by (simp only: members_keep)

lemma owes_out: "owes r g f \<Longrightarrow> owed g (f t) \<Longrightarrow> \<not> owed g x \<Longrightarrow> owes (r - 1) g (f(t := x))"
  using members_lose[of "owed g" f t x] by (simp add: owes_def)

lemma owes_pos: "owes r g f \<Longrightarrow> owed g (f t) \<Longrightarrow> 0 < r"
  by (auto simp: owes_def card_gt_0_iff)

lemma place_upd [simp]:
  "wc_place (pc(t := k)) (my(t := g)) = (wc_place pc my)(t := (k, g))" "wc_place (pc(t := k)) my = (wc_place pc my)(t := (k, my t))"
  "(wc_place pc (my(t := g)))(t := x) = (wc_place pc my)(t := x)"
  by (auto simp: wc_place_def)

lemma start_broadcast_inv: "broadcast_inv A (wc_start A)"
  using start_inv[of A]
  by (simp add: broadcast_inv_def owes_def owed_def wc_place_def) (simp add: wc_start_def win_cond_init_def)

text \<open>A broadcast by the holder: nobody is between two steps that it could disturb, and all that are inside are owed.\<close>

lemma broadcast_step:
  assumes A: "manual_reset A" and inv: "broadcast_inv A s" and t: "wc_at s t = Elsewhere" "wc_owner s = Some t"
    and c: "win_cond_broadcast A (wc_cond s) = Some c"
  shows "broadcast_inv A (s\<lparr>wc_cond := c\<rparr>)"
proof (cases "waiters_count (wc_cond s) > 0")
  case False
  then have "c = wc_cond s" using c by (simp add: win_cond_broadcast_def)
  then show ?thesis using inv by simp
next
  case True
  then have c': "release_count c = waiters_count (wc_cond s)" "wait_generation_count c = wait_generation_count (wc_cond s) + 1"
    "wc_event c = SetEvent A (wc_event (wc_cond s))"
    using c by (auto simp: win_cond_broadcast_def Let_def bind_eq_Some_conv dest!: step_int_eq)
  have w: "wc_inv s" using inv by (simp add: broadcast_inv_def)
  have "owed (wait_generation_count c) (places s u) = counted_in (wc_at s u)" for u
    using w by (auto simp: owed_def wc_place_def wc_inv_def generations_def c'(2))
  then have "owes (release_count c) (wait_generation_count c) (places s)"
    using w by (simp add: owes_def wc_inv_def head_count_def c'(1))
  moreover have "wc_at s u \<noteq> Resetting" for u
  proof
    assume "wc_at s u = Resetting"
    then have "wc_owner s = Some u" using w by (simp add: wc_inv_def mutex_held_def)
    with t \<open>wc_at s u = Resetting\<close> show False by simp
  qed
  moreover have "wc_inv (s\<lparr>wc_cond := c\<rparr>)" using notify_inv[OF w, of A c] c by simp
  ultimately show ?thesis using A c'(3) by (simp add: broadcast_inv_def manual_reset_def)
qed

lemma enter_step:
  assumes inv: "broadcast_inv A s" and t: "wc_at s t = Elsewhere" "wc_owner s = Some t" and s': "win_wait_enter t s = Some s'"
  shows "broadcast_inv A s'"
proof -
  let ?c = "wc_cond s"
  have w: "wc_inv s'" using enter_inv[OF _ t s'] inv by (simp add: broadcast_inv_def)
  obtain y where y: "s' = wc_goto t Unlocking (s\<lparr>wc_cond := ?c\<lparr>waiters_count := y\<rparr>,
      my_generation := (my_generation s)(t := wait_generation_count ?c)\<rparr>)"
    using s' by (auto simp: win_wait_enter_def bind_eq_Some_conv Let_def)
  have "owes (release_count ?c) (wait_generation_count ?c) ((places s)(t := (Unlocking, wait_generation_count ?c)))"
    using inv t(1) by (intro owes_keep) (simp_all add: broadcast_inv_def owed_def wc_place_def)
  then show ?thesis using w inv by (auto simp: broadcast_inv_def y)
qed

lemma owed_move:
  assumes "owes r g (places s)" "counted_in k = counted_in (wc_at s t)"
  shows "owes r g ((places s)(t := (k, my_generation s t)))"
  by (rule owes_keep[OF assms(1)]) (simp add: owed_def wc_place_def assms(2))

lemma turn_step:
  assumes A: "manual_reset A" and inv: "broadcast_inv A s" and s': "win_wait_turn A t s = Some s'"
  shows "broadcast_inv A s'"
proof -
  let ?c = "wc_cond s"
  have w: "wc_inv s" and o: "owes (release_count ?c) (wait_generation_count ?c) (places s)"
    and e: "0 < release_count ?c \<longrightarrow> signalled A (wc_event ?c)"
    and l: "\<And>t. wc_at s t = Resetting \<Longrightarrow> wc_last s t = release_count ?c"
    using inv by (auto simp: broadcast_inv_def)
  have w': "wc_inv s'" by (rule turn_inv[OF w s'])
  have alone: "u = t" if "holds_mutex (wc_at s u)" "holds_mutex (wc_at s t)" for u
    using w that unfolding wc_inv_def mutex_held_def by (metis option.inject)
  show ?thesis
  proof (cases "wc_at s t")
    case Leaving
    then obtain y r where y: "s' = wc_goto t Resetting (s\<lparr>wc_cond := ?c\<lparr>waiters_count := y, release_count := release_count ?c - 1\<rparr>,
        wc_last := (wc_last s)(t := release_count ?c - 1)\<rparr>)"
      using s' by (auto simp: win_wait_turn_def Let_def bind_eq_Some_conv dest!: step_int_eq)
    have "owed (wait_generation_count ?c) (places s t)"
      using w Leaving by (simp add: owed_def wc_place_def wc_inv_def generations_def)
    then have "owes (release_count ?c - 1) (wait_generation_count ?c) ((places s)(t := (Resetting, my_generation s t)))"
      by (intro owes_out[OF o]) (simp_all add: owed_def)
    moreover have "wc_at s u \<noteq> Resetting" if "u \<noteq> t" for u
      using alone[of u] Leaving that by auto
    ultimately show ?thesis using w' e by (simp add: broadcast_inv_def y)
  next
    case Resetting
    have r: "wc_last s t = release_count ?c" by (rule l[OF Resetting])
    have "owes (release_count ?c) (wait_generation_count ?c) ((places s)(t := (Elsewhere, my_generation s t)))"
      using owed_move[OF o, of Elsewhere t] Resetting by simp
    then show ?thesis using w' e l r s' Resetting
      by (auto simp: broadcast_inv_def win_wait_turn_def Let_def split: if_splits)
  next
    case Relocking
    then show ?thesis using w' e l s' owed_move[OF o, of Leaving t]
      by (auto simp: broadcast_inv_def win_wait_turn_def split: if_splits)
  next
    case Unlocking
    then show ?thesis using w' e l s' owed_move[OF o, of Sleeping t]
      by (auto simp: broadcast_inv_def win_wait_turn_def split: if_splits)
  next
    case Sleeping
    then show ?thesis using w' e l s' owed_move[OF o, of Checking t]
      by (auto simp: broadcast_inv_def win_wait_turn_def split: if_splits)
  next
    case Checking
    then show ?thesis using w' e l s' owed_move[OF o, of Relocking t] owed_move[OF o, of Sleeping t]
      by (auto simp: broadcast_inv_def win_wait_turn_def Let_def split: if_splits)
  qed (use s' in \<open>simp add: win_wait_turn_def\<close>)
qed

lemma disciplined_inv:
  assumes A: "manual_reset A" and r: "wc_reachable A broadcasts_inside s"
  shows "broadcast_inv A s"
  using r
proof induction
  case start
  then show ?case by (rule start_broadcast_inv)
next
  case (step s a s')
  note inv = step.IH and ok = step.hyps(2) and nx = step.hyps(3)
  have w': "wc_inv s'" using next_inv[OF _ nx] inv by (simp add: broadcast_inv_def)
  show ?case
  proof (cases a)
    case (Broadcast t)
    then show ?thesis using broadcast_step[OF A inv, of t] ok nx
      by (auto simp: broadcasts_inside_def split: if_splits)
  next
    case (Turn t)
    then show ?thesis using turn_step[OF A inv, of t] nx by simp
  next
    case (Wait t)
    then show ?thesis using enter_step[OF inv, of t] nx by (auto split: if_splits)
  next
    case (Signal t)
    then show ?thesis using ok by (simp add: broadcasts_inside_def)
  qed (use inv nx w' in \<open>auto simp: broadcast_inv_def split: if_splits\<close>)
qed

text \<open>
  A thread that is owed its release gets to the mutex by steps of its own: the event does not hold it up, and its check
  succeeds.
\<close>

lemma owed_proceeds:
  assumes "broadcast_inv A s" "my_generation s t < wait_generation_count (wc_cond s)"
  shows "wc_at s t = Sleeping \<Longrightarrow> wc_run A [Turn t, Turn t] s = Some (wc_goto t Relocking s)"
    and "wc_at s t = Checking \<Longrightarrow> wc_next A (Turn t) s = Some (wc_goto t Relocking s)"
proof -
  have "0 < release_count (wc_cond s)" if "wc_at s t = Sleeping \<or> wc_at s t = Checking"
    using assms that owes_pos[of _ "wait_generation_count (wc_cond s)" "places s" t]
    by (auto simp: broadcast_inv_def owed_def wc_place_def)
  moreover from calculation have "signalled A (wc_event (wc_cond s))" if "wc_at s t = Sleeping \<or> wc_at s t = Checking"
    using assms(1) that by (auto simp: broadcast_inv_def)
  ultimately show "wc_at s t = Sleeping \<Longrightarrow> wc_run A [Turn t, Turn t] s = Some (wc_goto t Relocking s)"
    and "wc_at s t = Checking \<Longrightarrow> wc_next A (Turn t) s = Some (wc_goto t Relocking s)"
    using assms(2) by (simp_all add: win_wait_turn_def Let_def)
qed

lemma flag_manual_reset: "manual_reset flag_event"
  by (simp add: manual_reset_def flag_event_def)

text \<open>A thread that nobody has notified since it came stays.\<close>

lemma unnotified_stays:
  assumes "wc_at s t = Checking" "my_generation s t = wait_generation_count (wc_cond s)"
  shows "wc_next A (Turn t) s = Some (wc_goto t Sleeping s)"
  using assms by (simp add: win_wait_turn_def Let_def)

text \<open>A broadcast that finds somebody is owed to everybody who is inside.\<close>

lemma broadcast_owes_all:
  assumes "wc_inv s" "wc_next A (Broadcast u) s = Some s'" "counted_in (wc_at s t)"
  shows "my_generation s' t < wait_generation_count (wc_cond s')"
proof -
  have "0 < waiters_count (wc_cond s)"
    using assms(1,3) by (auto simp: wc_inv_def head_count_def card_gt_0_iff)
  moreover have "my_generation s t \<le> wait_generation_count (wc_cond s)"
    using assms(1,3) by (simp add: wc_inv_def generations_def)
  ultimately show ?thesis using assms(2)
    by (auto simp: win_cond_broadcast_def Let_def bind_eq_Some_conv split: if_splits dest!: step_int_eq)
qed

section \<open>Lost notifications\<close>

text \<open>
  One signal lets two waiters go: both look at \<open>release_count\<close> before either has taken its share, and the count ends
  at -1. The next signal only brings it back to 0, and its waiter stays.
\<close>

definition double_exit :: "wc_act list" where
  "double_exit =
     [Lock 1, Wait 1, Turn 1, Lock 2, Wait 2, Turn 2, Lock 0, Signal 0, Unlock 0,
      Turn 1, Turn 1, Turn 2, Turn 2, Turn 1, Turn 1, Turn 1, Unlock 1, Turn 2, Turn 2, Turn 2, Unlock 2,
      Lock 3, Wait 3, Turn 3, Lock 0, Signal 0, Unlock 0]"

text \<open>
  A waiter that finds itself the last one resets the event after it has left the critical section: a broadcast that
  comes in between is wiped out.
\<close>

definition late_reset :: "wc_act list" where
  "late_reset =
     [Lock 1, Wait 1, Turn 1, Broadcast 0, Lock 2, Wait 2, Turn 2, Turn 1, Turn 1, Turn 1, Turn 1,
      Broadcast 0, Turn 1, Unlock 1]"

lemma check_fails:
  "wc_at s t = Sleeping \<Longrightarrow> signalled A (wc_event (wc_cond s)) \<Longrightarrow> release_count (wc_cond s) \<le> 0 \<Longrightarrow>
     wc_run A [Turn t, Turn t] s = Some s"
  by (simp add: win_wait_turn_def Let_def fun_upd_idem)

text \<open>
  \<open>forgotten t s\<close>: \<open>t\<close> waits although it was notified, nobody else is in a call, and the mutex is free.
\<close>

definition forgotten :: "nat \<Rightarrow> 'e wc_state \<Rightarrow> bool" where
  "forgotten t s = (wc_at s t = Sleeping \<and> my_generation s t < wait_generation_count (wc_cond s) \<and>
     (\<forall>u. u \<noteq> t \<longrightarrow> wc_at s u = Elsewhere) \<and> wc_owner s = None)"

lemmas wc_eval = wc_start_def win_cond_init_def flag_event_def win_wait_enter_def win_wait_turn_def win_cond_signal_def
  win_cond_broadcast_def step_int_def Let_def

lemma double_exit_forgets:
  "\<exists>s. wc_run flag_event double_exit (wc_start flag_event) = Some s \<and> forgotten 3 s \<and>
     wc_run flag_event [Turn 3, Turn 3] s = Some s"
proof -
  obtain s where s: "wc_run flag_event double_exit (wc_start flag_event) = Some s" "forgotten 3 s"
    "release_count (wc_cond s) = 0" "wc_event (wc_cond s)"
    by (simp add: double_exit_def wc_eval forgotten_def)
  then have "wc_run flag_event [Turn 3, Turn 3] s = Some s"
    by (intro check_fails) (simp_all add: forgotten_def flag_event_def)
  with s show ?thesis by blast
qed

lemma late_reset_forgets:
  "\<exists>s. wc_run flag_event late_reset (wc_start flag_event) = Some s \<and> forgotten 2 s \<and> wc_next flag_event (Turn 2) s = None"
  by (simp add: late_reset_def wc_eval forgotten_def)

end
