(* ===== verification/Event.thy ===== *)
theory Event
  imports Wakeup
begin

text \<open>
  Event masks of a task (\<^verbatim>\<open>src/task.c\<close>, \<open>fiber_event_wait\<close> and
  \<open>fiber_event_post\<close>): 64 event bits are pending until a wait takes them, all of a mask or,
  with \<open>TASK_EVENT_WAIT_ANY\<close>, any of it.
\<close>

section \<open>The operations\<close>

text \<open>The test both functions make on the pending events.\<close>

definition event_hit :: "64 word \<Rightarrow> 64 word \<Rightarrow> 32 word \<Rightarrow> bool" where
  "event_hit pending_ev wanted options =
     (let seized = pending_ev AND wanted in
      seized \<noteq> 0 \<and> (seized = wanted \<or> options AND TASK_EVENT_WAIT_ANY \<noteq> 0))"

definition fiber_event_wait :: "nat \<Rightarrow> 64 word \<Rightarrow> 32 word \<Rightarrow> int \<Rightarrow> sys \<Rightarrow> (64 word outcome \<times> sys) option" where
  "fiber_event_wait th events_in options timeout s = do {
     the_task \<leftarrow> current_task s th;
     s \<leftarrow> spin_lock (EventLock the_task) s;
     let seized_events = pendingEvents (tcbs s the_task) AND events_in;
     if event_hit (pendingEvents (tcbs s the_task)) events_in options then do {
       let s = upd_tcb the_task (\<lambda>b. b\<lparr>pendingEvents := pendingEvents b AND NOT seized_events\<rparr>) s;
       Some (Returns seized_events, spin_unlock (EventLock the_task) s)
     }
     else if timeout = 0 then Some (Returns 0, spin_unlock (EventLock the_task) s)
     else do {
       let s = upd_tcb the_task (\<lambda>b. b\<lparr>seizedEvents := 0, waitingEvents := events_in, waitingOptions := options\<rparr>) s;
       let s = set_flags (wait_flags timeout STATES_WAITFOR_EVENT) the_task s;
       s \<leftarrow> localReadyQProtectedExtract the_task s;
       let s = spin_unlock (EventLock the_task) s;
       s \<leftarrow> arm_timeout the_task timeout s;
       (sw, s) \<leftarrow> fiber_sched th K_event_wait s;
       Some (if sw then Switched else Returns (seizedEvents (tcbs s the_task)), s)
     }
   }"

definition fiber_event_post :: "nat \<Rightarrow> nat \<Rightarrow> 64 word \<Rightarrow> sys \<Rightarrow> (int \<times> sys) option" where
  "fiber_event_post th the_task events_in s = do {
     s \<leftarrow> spin_lock (EventLock the_task) s;
     let s = upd_tcb the_task (\<lambda>b. b\<lparr>pendingEvents := pendingEvents b OR events_in\<rparr>) s;
     if flags s the_task AND STATES_WAITFOR_EVENT = 0 then Some (0, spin_unlock (EventLock the_task) s)
     else do {
       let b = tcbs s the_task;
       let seized_events = pendingEvents b AND waitingEvents b;
       if event_hit (pendingEvents b) (waitingEvents b) (waitingOptions b) then do {
         let s = upd_tcb the_task (\<lambda>b. b\<lparr>pendingEvents := pendingEvents b AND NOT seized_events,
                    seizedEvents := seized_events\<rparr>) s;
         let s = clear_flags STATES_WAITFOR_EVENT the_task s;
         let s = spin_unlock (EventLock the_task) s;
         s \<leftarrow> make_ready (the_maintask s th) the_task s;
         Some (0, s)
       }
       else Some (0, spin_unlock (EventLock the_task) s)
     }
   }"

section \<open>Waiting\<close>

lemma event_wait_seizes:
  assumes "current_task s th = Some c" "quiet s" "event_hit (pendingEvents (tcbs s c)) ev opt"
  shows "fiber_event_wait th ev opt timeout s = Some (Returns (pendingEvents (tcbs s c) AND ev),
     s\<lparr>tcbs := (tcbs s)(c := (tcbs s c)\<lparr>pendingEvents := pendingEvents (tcbs s c) AND NOT ev\<rparr>)\<rparr>)"
proof -
  have "x AND NOT (x AND y) = x AND NOT y" for x y :: "64 word"
    by (rule bit_word_eqI) (auto simp: bit_simps)
  with assms show ?thesis by (simp add: fiber_event_wait_def sys_defs spin_simps)
qed

lemma event_wait_try:
  assumes "current_task s th = Some c" "quiet s" "\<not> event_hit (pendingEvents (tcbs s c)) ev opt"
  shows "fiber_event_wait th ev opt 0 s = Some (Returns 0, s)"
  using assms by (simp add: fiber_event_wait_def sys_defs spin_simps)

lemma event_wait_blocks:
  assumes r: "running s Q th d m us c" and ne: "c \<noteq> m" and qt: "quiet s"
    and n: "\<not> event_hit (pendingEvents (tcbs s c)) ev opt" "timeout \<noteq> 0"
    and home: "scheddata (tcbs s c) = Some d" and L: "Q (WadogList d) = Some L"
    and free: "timeout > 0 \<longrightarrow> link_free Q c \<and> flags s c AND STATES_WAIT_TIMEOUTB = 0"
    and settled: "flags s c AND STATES_TRANSIENT = 0"
  shows "\<exists>s' L' T. fiber_event_wait th ev opt timeout s = Some (Switched, s') \<and>
     queues s' (Q(WadogList d \<mapsto> L', ReadyList d \<mapsto> rotate1 (butlast us) @ [m])) \<and>
     armed s s' timeout c L L' \<and> retimed (tcbs s) T (set (c # L)) \<and>
     tcbs s' = T(c := (T c)\<lparr>seizedEvents := 0, waitingEvents := ev, waitingOptions := opt,
        state := state (tcbs s c) OR STATES_WAITFOR_EVENT OR (if timeout > 0 then STATES_WAIT_TIMEOUTB else 0),
        resume_at := K_event_wait\<rparr>) \<and>
     current_task s' = (current_task s)(th := Some (next_up m (butlast us))) \<and>
     mutexes s' = mutexes s \<and> sems s' = sems s \<and> frame s s'"
proof -
  let ?b = "(tcbs s c)\<lparr>seizedEvents := 0, waitingEvents := ev, waitingOptions := opt,
      state := state (tcbs s c) OR wait_flags timeout STATES_WAITFOR_EVENT\<rparr>"
  let ?s0 = "s\<lparr>tcbs := (tcbs s)(c := ?b)\<rparr>"
  have r0: "running ?s0 Q th d m us c" using r ne by (simp add: running_def on_thread_def queues_def)
  let ?Q = "Q(ReadyList d \<mapsto> butlast us @ [m])"
  obtain m1 where m1: "localReadyQProtectedExtract c ?s0 = Some (?s0\<lparr>mem := m1\<rparr>)"
    "chains link_field m1 ?Q" "c \<notin> set (butlast us @ [m])"
    by (rule extract_running[OF r0 ne])
  let ?s = "?s0\<lparr>mem := m1\<rparr>"
  have pre: "queues ?s ?Q" "quiet ?s" "on_thread ?s ?Q th d m (butlast us)" "current_task ?s th = Some c"
    "?Q (WadogList d) = Some L" "timeout > 0 \<longrightarrow> link_free ?Q c \<and> flags s c AND STATES_WAIT_TIMEOUTB = 0"
    using m1(2) qt L free runningD[OF r] ne by (auto simp: queues_def quiet_def off_chains_def on_thread_def)
  obtain s1 s' L' T where s': "arm_timeout c timeout ?s = Some s1" "fiber_sched th K_event_wait s1 = Some (True, s')"
    "queues s' (?Q(WadogList d \<mapsto> L', ReadyList d \<mapsto> rotate1 (butlast us) @ [m]))"
    "armed s s' timeout c L L'" "retimed (tcbs s) T (set (c # L))"
    "tcbs s' = T(c := ?b\<lparr>delta_interval := delta_interval (T c), state := state (tcbs s c) OR STATES_WAITFOR_EVENT OR
        (if timeout > 0 then STATES_WAIT_TIMEOUTB else 0), resume_at := K_event_wait\<rparr>)"
    "current_task s' = (current_task ?s)(th := Some (next_up m (butlast us)))"
    "mutexes s' = mutexes ?s" "sems s' = sems ?s" "frame ?s s'"
    by (rule arm_and_switch[of ?s ?Q th d m "butlast us" c ?b L s timeout STATES_WAITFOR_EVENT K_event_wait])
      (use pre m1(3) home settled in \<open>simp_all add: flags_def bit_masks\<close>)
  have "fiber_event_wait th ev opt timeout s = Some (Switched, s')"
    using runningD(3)[OF r] n qt m1(1) s'(1,2)
    by (simp add: fiber_event_wait_def sys_defs spin_simps localReadyQProtectedExtract_def on_mem_def)
  moreover have "?b\<lparr>delta_interval := delta_interval (T c), state := y, resume_at := k\<rparr> =
      (T c)\<lparr>seizedEvents := 0, waitingEvents := ev, waitingOptions := opt, state := y, resume_at := k\<rparr>" for y k
    by (rule retimed_at[OF s'(5), of c]) (auto intro!: FibTCB.equality)
  ultimately show ?thesis using s'(3-10)
    by (intro exI[of _ s'] exI[of _ L'] exI[of _ T]) (simp add: frame_def fun_upd_twist)
qed

section \<open>Posting\<close>

text \<open>
  Every posted event is still pending afterwards or was handed to the waiting task; the task wakes
  exactly when its condition is met.
\<close>

lemma event_post_keeps:
  assumes "quiet s"
    and "flags s t AND STATES_WAITFOR_EVENT = 0 \<or>
         \<not> event_hit (pendingEvents (tcbs s t) OR ev) (waitingEvents (tcbs s t)) (waitingOptions (tcbs s t))"
  shows "fiber_event_post th t ev s = Some (0, s\<lparr>tcbs := (tcbs s)(t :=
     (tcbs s t)\<lparr>pendingEvents := pendingEvents (tcbs s t) OR ev\<rparr>)\<rparr>)"
  using assms by (auto simp: fiber_event_post_def sys_defs spin_simps Let_def)

lemma event_post_wakes:
  assumes q: "quiet s" "queues s Q" and f: "node_free Q t" and wk: "wakeable s Q t"
    and fl: "flags s t AND STATES_WAITFOR_EVENT \<noteq> 0"
    and hit: "event_hit (pendingEvents (tcbs s t) OR ev) (waitingEvents (tcbs s t)) (waitingOptions (tcbs s t))"
    and one: "one_n_model s \<Longrightarrow> scheduler (tcbs s t) = the_maintask s th"
    and near: "near = (one_n_model s \<or> scheduler (tcbs s t) = the_maintask s th)"
  shows "\<exists>s'. fiber_event_post th t ev s = Some (0, s') \<and>
     queues s' (activated near (tcbs s t) t (untimed (tcbs s t) t Q)) \<and>
     seizedEvents (tcbs s' t) = (pendingEvents (tcbs s t) OR ev) AND waitingEvents (tcbs s t) \<and>
     pendingEvents (tcbs s' t) = (pendingEvents (tcbs s t) OR ev) AND NOT (waitingEvents (tcbs s t)) \<and>
     state (tcbs s' t) = state (tcbs s t) AND NOT (STATES_WAITFOR_EVENT OR STATES_WAIT_TIMEOUTB) \<and>
     taskLocalStorages (tcbs s' t) = taskLocalStorages (tcbs s t) \<and>
     current_task s' = current_task s \<and> mutexes s' = mutexes s \<and> sems s' = sems s \<and> frame s s'"
proof -
  note keep = wait_flag_keeps[OF wait_flag_vals(3)]
  let ?p = "pendingEvents (tcbs s t) OR ev" and ?w = "waitingEvents (tcbs s t)"
  let ?s = "s\<lparr>tcbs := (tcbs s)(t := (tcbs s t)\<lparr>pendingEvents := ?p AND NOT (?p AND ?w), seizedEvents := ?p AND ?w,
     state := state (tcbs s t) AND NOT STATES_WAITFOR_EVENT\<rparr>)\<rparr>"
  have pre: "queues ?s Q" "quiet ?s" "wakeable ?s Q t"
    using q wk by (auto simp: queues_def quiet_def wakeable_def homed_def flags_def keep)
  have nr: "near = (one_n_model ?s \<or> scheduler (tcbs ?s t) = the_maintask s th)" using near by simp
  have one1: "one_n_model ?s \<Longrightarrow> scheduler (tcbs ?s t) = the_maintask s th" using one by simp
  obtain s' T where s': "make_ready (the_maintask s th) t ?s = Some s'"
    "queues s' (activated near (tcbs ?s t) t (untimed (tcbs ?s t) t Q))"
    "rehomed (T(t := (tcbs ?s t)\<lparr>state := state (tcbs ?s t) AND NOT STATES_WAIT_TIMEOUTB\<rparr>)) (tcbs s') near t"
    "current_task s' = current_task ?s" "mutexes s' = mutexes ?s" "sems s' = sems ?s" "frame ?s s'"
    using make_ready_spec[OF pre f one1 nr] by blast
  have "activated near (tcbs ?s t) t (untimed (tcbs ?s t) t Q) = activated near (tcbs s t) t (untimed (tcbs s t) t Q)"
    by (simp add: activated_def untimed_def keep)
  moreover have "?p AND NOT (?p AND ?w) = ?p AND NOT ?w" by (rule bit_word_eqI) (auto simp: bit_simps)
  moreover have "fiber_event_post th t ev s = Some (0, s')"
    using q(1) fl hit s'(1) by (simp add: fiber_event_post_def sys_defs spin_simps Let_def)
  ultimately show ?thesis using s' rehomedD(2,4,6,12)[OF s'(3), of t]
    by (intro exI[of _ s']) (simp add: frame_def and.assoc)
qed

end
