(* ===== verification/Epoll.thy ===== *)
theory Epoll
  imports Event
begin

text \<open>
  The binding to the kernel's event interface (\<^verbatim>\<open>src/epoll.c\<close>, \<^verbatim>\<open>include/epoll.h\<close>)
  and its use by the web server (\<open>fiber_read\<close> and \<open>epoll_msgloop\<close> of \<^verbatim>\<open>simplehttp.c\<close>).
  A task registers a descriptor by allocating an \<open>EventContext\<close>, whose address goes to the kernel
  and into slot 0 of the task's local data; the message loop of the thread posts what the kernel
  reports to the task of the context, and the task reads the events from its context.
  \<open>malloc\<close> and the system calls are parameters over a state \<open>'k\<close> of the kernel.
\<close>

section \<open>Contexts and events\<close>

definition EVENT_BITMASK_EPOLL :: "64 word" where "EVENT_BITMASK_EPOLL = 1"

definition FIBER_TIMEOUT_INFINITE :: int where "FIBER_TIMEOUT_INFINITE = - 1"

definition EPOLL_TASKDAT_INDEX :: int where "EPOLL_TASKDAT_INDEX = 0"

record EventContext =
  ec_fd :: "32 word"
  ec_events :: "32 word"
  ec_tcb :: "nat option"

text \<open>
  The allocated contexts by address, and \<open>struct epoll_event\<close>: a mask and a 64-bit union that is
  read as a pointer or, in its low half, as a descriptor.
\<close>

type_synonym contexts = "64 word \<rightharpoonup> EventContext"

record epoll_event =
  ep_events :: "32 word"
  ep_data :: "64 word"

definition put_fd :: "32 word \<Rightarrow> 64 word \<Rightarrow> 64 word" where
  "put_fd fd d = (d AND NOT (mask 32)) OR ucast fd"

definition data_fd :: "64 word \<Rightarrow> 32 word" where
  "data_fd d = ucast d"

lemma data_fd_put [simp]: "data_fd (put_fd fd d) = fd"
  unfolding data_fd_def put_fd_def
  by (rule bit_word_eqI) (auto simp: bit_simps)

datatype ctl = EPOLL_CTL_ADD | EPOLL_CTL_DEL

section \<open>Registering\<close>

definition fiber_epoll_register_events ::
  "(contexts \<Rightarrow> (64 word \<times> EventContext) option) \<Rightarrow>
   (32 word \<Rightarrow> ctl \<Rightarrow> 32 word \<Rightarrow> epoll_event option \<Rightarrow> 'k \<Rightarrow> int \<times> 'k) \<Rightarrow>
   nat \<Rightarrow> 32 word \<Rightarrow> 32 word \<Rightarrow> 32 word \<Rightarrow> sys \<Rightarrow> contexts \<Rightarrow> 'k \<Rightarrow> (int \<times> sys \<times> contexts \<times> 'k) option" where
  "fiber_epoll_register_events malloc epoll_ctl th epoll_fd fd events s H k = (
     let the_task = fiber_ident th s in
     case malloc H of None \<Rightarrow> Some (- 1, s, H, k)
     | Some (pctx, raw) \<Rightarrow> do {
         let H = H(pctx \<mapsto> raw\<lparr>ec_fd := fd, ec_tcb := the_task\<rparr>);
         let event = \<lparr>ep_events = events, ep_data = pctx\<rparr>;
         let (rc, k) = epoll_ctl epoll_fd EPOLL_CTL_ADD fd (Some event) k;
         if rc < 0 then Some (- 1, s, H(pctx := None), k)
         else do {
           t \<leftarrow> the_task;
           (_, s) \<leftarrow> fiber_set_localdata t EPOLL_TASKDAT_INDEX pctx s;
           Some (0, s, H, k)
         }
       })"

definition fiber_epoll_unregister_events ::
  "(32 word \<Rightarrow> ctl \<Rightarrow> 32 word \<Rightarrow> epoll_event option \<Rightarrow> 'k \<Rightarrow> int \<times> 'k) \<Rightarrow>
   nat \<Rightarrow> 32 word \<Rightarrow> 32 word \<Rightarrow> sys \<Rightarrow> contexts \<Rightarrow> 'k \<Rightarrow> (int \<times> sys \<times> contexts \<times> 'k) option" where
  "fiber_epoll_unregister_events epoll_ctl th epoll_fd fd s H k = do {
     t \<leftarrow> fiber_ident th s;
     pctx \<leftarrow> fiber_get_localdata t EPOLL_TASKDAT_INDEX s;
     H \<leftarrow> (if pctx = 0 then Some H else if H pctx = None then None else Some (H(pctx := None)));
     (_, s) \<leftarrow> fiber_set_localdata t EPOLL_TASKDAT_INDEX 0 s;
     let (_, k) = epoll_ctl epoll_fd EPOLL_CTL_DEL fd None k;
     Some (0, s, H, k)
   }"

section \<open>Waiting\<close>

text \<open>
  What \<open>fiber_epoll_wait\<close> does with the mask that the wait for the event returned, at once or
  after the task was resumed.  A product outside the range of \<open>int\<close> is undefined.
\<close>

definition epoll_wait_result ::
  "nat \<Rightarrow> 64 word \<Rightarrow> epoll_event list \<Rightarrow> sys \<Rightarrow> contexts \<Rightarrow> (int \<times> epoll_event list) option" where
  "epoll_wait_result th got events s H =
     (if got AND EVENT_BITMASK_EPOLL \<noteq> 0 then do {
        t \<leftarrow> fiber_ident th s;
        pctx \<leftarrow> fiber_get_localdata t EPOLL_TASKDAT_INDEX s;
        ctx \<leftarrow> H pctx;
        case events of [] \<Rightarrow> None
        | e # es \<Rightarrow> Some (1, e\<lparr>ep_events := ec_events ctx, ep_data := put_fd (ec_fd ctx) (ep_data e)\<rparr> # es)
      }
      else Some (0, events))"

definition int_times :: "int \<Rightarrow> int \<Rightarrow> int option" where
  "int_times a b = (if - (2 ^ 31) \<le> a * b \<and> a * b < 2 ^ 31 then Some (a * b) else None)"

definition fiber_epoll_wait ::
  "nat \<Rightarrow> epoll_event list \<Rightarrow> int \<Rightarrow> int \<Rightarrow> sys \<Rightarrow> contexts \<Rightarrow> ((int \<times> epoll_event list) outcome \<times> sys) option" where
  "fiber_epoll_wait th events maxEvents timeout_in_ms s H = do {
     timeout \<leftarrow> int_times timeout_in_ms 1000;
     (r, s) \<leftarrow> fiber_event_wait th EVENT_BITMASK_EPOLL TASK_EVENT_WAIT_ANY timeout s;
     case r of Switched \<Rightarrow> Some (Switched, s)
     | Returns got \<Rightarrow> do {
         res \<leftarrow> epoll_wait_result th got events s H;
         Some (Returns res, s)
       }
   }"

section \<open>Posting\<close>

fun epoll_post_from ::
  "nat \<Rightarrow> nat \<Rightarrow> nat \<Rightarrow> epoll_event list \<Rightarrow> sys \<Rightarrow> contexts \<Rightarrow> (sys \<times> contexts) option" where
  "epoll_post_from th i 0 events s H = Some (s, H)"
| "epoll_post_from th i (Suc n) events s H =
     (if i < length events then do {
        let ptr = ep_data (events ! i);
        ctx \<leftarrow> H ptr;
        let H = H(ptr \<mapsto> ctx\<lparr>ec_events := ep_events (events ! i)\<rparr>);
        t \<leftarrow> ec_tcb ctx;
        (_, s) \<leftarrow> fiber_event_post th t EVENT_BITMASK_EPOLL s;
        epoll_post_from th (Suc i) n events s H
      }
      else None)"

definition fiber_epoll_post ::
  "nat \<Rightarrow> int \<Rightarrow> epoll_event list \<Rightarrow> sys \<Rightarrow> contexts \<Rightarrow> (int \<times> sys \<times> contexts) option" where
  "fiber_epoll_post th nEvents events s H = do {
     (s, H) \<leftarrow> epoll_post_from th 0 (nat nEvents) events s H;
     Some (0, s, H)
   }"

section \<open>The message loop and the reader of the web server\<close>

text \<open>
  \<open>epoll_wait\<close> returns its result and the array of 64 events, \<open>read\<close> its result, \<open>errno\<close> and the
  buffer.  The constants are those of \<^verbatim>\<open>sys/epoll.h\<close> and \<^verbatim>\<open>errno.h\<close>.
\<close>

definition EPOLLIN :: "32 word" where "EPOLLIN = 0x1"

definition EPOLLERR :: "32 word" where "EPOLLERR = 0x8"

definition EPOLLHUP :: "32 word" where "EPOLLHUP = 0x10"

definition EAGAIN :: int where "EAGAIN = 11"

definition epoll_msgloop ::
  "(32 word \<Rightarrow> nat \<Rightarrow> int \<Rightarrow> 'k \<Rightarrow> int \<times> epoll_event list \<times> 'k) \<Rightarrow>
   nat \<Rightarrow> 32 word \<Rightarrow> sys \<Rightarrow> contexts \<Rightarrow> 'k \<Rightarrow> (bool \<times> sys \<times> contexts \<times> 'k) option" where
  "epoll_msgloop epoll_wait th epoll_fd s H k = (
     let (rc, epoll_events, k) = epoll_wait epoll_fd 64 10 k in
     if rc < 0 then Some (False, s, H, k)
     else do {
       (_, s, H) \<leftarrow> fiber_epoll_post th rc epoll_events s H;
       Some (True, s, H, k)
     })"

definition read_after_wait ::
  "(32 word \<Rightarrow> int \<Rightarrow> 'k \<Rightarrow> int \<times> int \<times> 8 word list \<times> 'k) \<Rightarrow>
   32 word \<Rightarrow> 8 word list \<Rightarrow> int \<Rightarrow> epoll_event \<Rightarrow> 'k \<Rightarrow> int \<times> 8 word list \<times> 'k" where
  "read_after_wait read fd buf bufsize event k =
     (if ep_events event AND EPOLLERR \<noteq> 0 \<or> ep_events event AND EPOLLHUP \<noteq> 0 \<or> ep_events event AND EPOLLIN = 0
      then (- 1, buf, k)
      else let (rc, _, buf, k) = read fd bufsize k in (rc, buf, k))"

definition fiber_read ::
  "(32 word \<Rightarrow> int \<Rightarrow> 'k \<Rightarrow> int \<times> int \<times> 8 word list \<times> 'k) \<Rightarrow>
   nat \<Rightarrow> 32 word \<Rightarrow> int \<Rightarrow> sys \<Rightarrow> contexts \<Rightarrow> 'k \<Rightarrow> ((int \<times> 8 word list) outcome \<times> sys \<times> 'k) option" where
  "fiber_read read th fd bufsize s H k = (
     let (rc, errno, buf, k) = read fd bufsize k in
     if 0 < rc \<or> (rc < 0 \<and> errno \<noteq> EAGAIN) then Some (Returns (rc, buf), s, k)
     else do {
       (r, s) \<leftarrow> fiber_epoll_wait th [\<lparr>ep_events = 0, ep_data = 0\<rparr>] 1 FIBER_TIMEOUT_INFINITE s H;
       case r of Switched \<Rightarrow> Some (Switched, s, k)
       | Returns (_, events) \<Rightarrow>
           let (rc, buf, k) = read_after_wait read fd buf bufsize (hd events) k in
           Some (Returns (rc, buf), s, k)
     })"

section \<open>Registering and unregistering\<close>

text \<open>What the code needs of \<open>malloc\<close>: a block it returns is not null and not in use.\<close>

definition fresh_contexts :: "(contexts \<Rightarrow> (64 word \<times> EventContext) option) \<Rightarrow> bool" where
  "fresh_contexts malloc = (\<forall>H a raw. malloc H = Some (a, raw) \<longrightarrow> a \<noteq> 0 \<and> H a = None)"

text \<open>Task \<open>t\<close> is registered: slot 0 of its local data is the address of a context that names it.\<close>

definition registered :: "sys \<Rightarrow> contexts \<Rightarrow> nat \<Rightarrow> 64 word \<Rightarrow> EventContext \<Rightarrow> bool" where
  "registered s H t a ctx = (length (taskLocalStorages (tcbs s t)) = MAX_TASK_LOCALDATAS \<and>
     taskLocalStorages (tcbs s t) ! 0 = a \<and> H a = Some ctx \<and> ec_tcb ctx = Some t)"

definition slot0 :: "nat \<Rightarrow> 64 word \<Rightarrow> sys \<Rightarrow> sys" where
  "slot0 t v s = s\<lparr>tcbs := (tcbs s)(t := (tcbs s t)\<lparr>taskLocalStorages := (taskLocalStorages (tcbs s t))[0 := v]\<rparr>)\<rparr>"

lemma localdata_slot0:
  "fiber_set_localdata t EPOLL_TASKDAT_INDEX v s = Some (True, slot0 t v s)"
  "fiber_get_localdata t EPOLL_TASKDAT_INDEX s = Some (taskLocalStorages (tcbs s t) ! 0)"
  by (simp_all add: fiber_set_localdata_def fiber_get_localdata_def EPOLL_TASKDAT_INDEX_def
      MAX_TASK_LOCALDATAS_def sys_defs slot0_def)

lemma register_fails:
  assumes "fresh_contexts malloc" and "malloc H = None \<or> (\<forall>e k. fst (epoll_ctl epoll_fd EPOLL_CTL_ADD fd e k) < 0)"
  shows "\<exists>k'. fiber_epoll_register_events malloc epoll_ctl th epoll_fd fd events s H k = Some (- 1, s, H, k')"
proof (cases "malloc H")
  case None
  then show ?thesis by (simp add: fiber_epoll_register_events_def)
next
  case (Some ar)
  obtain a raw where ar: "malloc H = Some (a, raw)" using Some by (cases ar) simp
  then have "H(a := None) = H" using assms(1) unfolding fresh_contexts_def by (metis fun_upd_triv)
  with ar assms(2) show ?thesis
    by (auto simp: fiber_epoll_register_events_def Let_def split: prod.split) (metis fst_conv)+
qed

lemma register_spec:
  assumes "current_task s th = Some t" "malloc H = Some (a, raw)"
    and "epoll_ctl epoll_fd EPOLL_CTL_ADD fd (Some \<lparr>ep_events = events, ep_data = a\<rparr>) k = (rc, k')" "0 \<le> rc"
    and "length (taskLocalStorages (tcbs s t)) = MAX_TASK_LOCALDATAS"
  shows "fiber_epoll_register_events malloc epoll_ctl th epoll_fd fd events s H k =
       Some (0, slot0 t a s, H(a \<mapsto> raw\<lparr>ec_fd := fd, ec_tcb := Some t\<rparr>), k')"
    and "registered (slot0 t a s) (H(a \<mapsto> raw\<lparr>ec_fd := fd, ec_tcb := Some t\<rparr>)) t a (raw\<lparr>ec_fd := fd, ec_tcb := Some t\<rparr>)"
  using assms by (simp_all add: fiber_epoll_register_events_def fiber_ident_def localdata_slot0 registered_def)
    (simp add: slot0_def MAX_TASK_LOCALDATAS_def)

lemma unregister_spec:
  assumes "current_task s th = Some t" "registered s H t a ctx" "a \<noteq> 0"
  shows "\<exists>k'. fiber_epoll_unregister_events epoll_ctl th epoll_fd fd s H k = Some (0, slot0 t 0 s, H(a := None), k')"
  using assms by (auto simp: fiber_epoll_unregister_events_def fiber_ident_def localdata_slot0 registered_def split: prod.split)

section \<open>Delivery\<close>

lemma epoll_result_registered:
  assumes "registered s H t a ctx" "current_task s th = Some t" "got AND EVENT_BITMASK_EPOLL \<noteq> 0"
  shows "epoll_wait_result th got (e # es) s H =
     Some (1, e\<lparr>ep_events := ec_events ctx, ep_data := put_fd (ec_fd ctx) (ep_data e)\<rparr> # es)"
  using assms by (simp add: epoll_wait_result_def fiber_ident_def localdata_slot0 registered_def)

text \<open>A wait for one bit, with any options.\<close>

lemma event_hit_epoll: "event_hit p EVENT_BITMASK_EPOLL opt = (p AND EVENT_BITMASK_EPOLL \<noteq> 0)"
proof -
  have "p AND 1 = (if bit p 0 then 1 else 0)" by (auto simp: and_one_eq bit_0 odd_iff_mod_2_eq_one)
  then show ?thesis by (simp add: event_hit_def EVENT_BITMASK_EPOLL_def)
qed

lemma epoll_wait_pending:
  assumes "current_task s th = Some t" "quiet s" "registered s H t a ctx"
    and "pendingEvents (tcbs s t) AND EVENT_BITMASK_EPOLL \<noteq> 0"
    and "- (2 ^ 31) \<le> ms * 1000" "ms * 1000 < 2 ^ 31"
  shows "\<exists>s'. fiber_epoll_wait th (e # es) maxEvents ms s H =
      Some (Returns (1, e\<lparr>ep_events := ec_events ctx, ep_data := put_fd (ec_fd ctx) (ep_data e)\<rparr> # es), s') \<and>
     pendingEvents (tcbs s' t) = pendingEvents (tcbs s t) AND NOT EVENT_BITMASK_EPOLL"
proof -
  let ?b = "(tcbs s t)\<lparr>pendingEvents := pendingEvents (tcbs s t) AND NOT EVENT_BITMASK_EPOLL\<rparr>"
  let ?s = "s\<lparr>tcbs := (tcbs s)(t := ?b)\<rparr>"
  have r: "registered ?s H t a ctx" "current_task ?s th = Some t" using assms(1,3) by (simp_all add: registered_def)
  have g: "(pendingEvents (tcbs s t) AND EVENT_BITMASK_EPOLL) AND EVENT_BITMASK_EPOLL \<noteq> 0" using assms(4) by (simp add: and.assoc)
  show ?thesis
    using event_wait_seizes[OF assms(1,2), of EVENT_BITMASK_EPOLL TASK_EVENT_WAIT_ANY "ms * 1000"] assms(4-6)
      epoll_result_registered[OF r g] by (simp add: fiber_epoll_wait_def int_times_def event_hit_epoll)
qed

lemma epoll_post_one:
  assumes "fiber_event_post th t EVENT_BITMASK_EPOLL s = Some (0, s')" "H (ep_data e) = Some ctx" "ec_tcb ctx = Some t"
  shows "fiber_epoll_post th 1 (e # es) s H = Some (0, s', H(ep_data e \<mapsto> ctx\<lparr>ec_events := ep_events e\<rparr>))"
  using assms by (simp add: fiber_epoll_post_def eval_nat_numeral)

end
