(* ===== verification/Switch_Race.thy ===== *)
theory Switch_Race
  imports Mutex Lifecycle
begin

text \<open>
  A task that blocks on a mutex in the M:N build, in two parts.  The first part ends when the lock of the wait queue is
  released: the task is on the queue, but its thread still runs on its stack and has not saved its context.  The
  second part is \<open>fiber_sched\<close>, which saves it.  Between them the owner of the mutex, on another thread, can wake
  the task, and a third thread can run it.
\<close>

section \<open>A lock in two parts\<close>

text \<open>\<open>_fiber_mutex_lock\<close> of a mutex that another task holds, up to the call of \<open>fiber_sched\<close>.\<close>

definition mutex_lock_enqueue :: "nat \<Rightarrow> nat \<Rightarrow> sys \<Rightarrow> sys option" where
  "mutex_lock_enqueue th p s = do {
     the_task \<leftarrow> current_task s th;
     s \<leftarrow> spin_lock (MutexLock p) s;
     let s = set_flags STATES_WAITFOR_MUTEX the_task s;
     s \<leftarrow> localReadyQProtectedExtract the_task s;
     s \<leftarrow> on_mem (node_append (MutexWaitq p) (Tcb the_task)) s;
     Some (spin_unlock (MutexLock p) s)
   }"

lemma mutex_lock_parts:
  assumes "current_task s th = Some c" "holder (mutexes s p) = Some h" "h \<noteq> c" "quiet s"
  shows "mutex_lock th p s = do {
     s \<leftarrow> mutex_lock_enqueue th p s;
     (sw, s) \<leftarrow> fiber_sched th K_mutex_lock s;
     Some (if sw then Switched else Returns True, s)
   }"
  using assms by (simp add: mutex_lock_def mutex_lock_enqueue_def sys_defs spin_simps Let_def)

lemma mutex_lock_enqueue_spec:
  assumes r: "running s Q th d m us c" and ne: "c \<noteq> m" and qt: "quiet s" and w: "Q (MutexWaitq p) = Some ws"
  shows "\<exists>s'. mutex_lock_enqueue th p s = Some s' \<and>
     queues s' (Q(ReadyList d \<mapsto> butlast us @ [m], MutexWaitq p \<mapsto> ws @ [c])) \<and> current_task s' = current_task s \<and>
     tcbs s' = (tcbs s)(c := (tcbs s c)\<lparr>state := state (tcbs s c) OR STATES_WAITFOR_MUTEX\<rparr>) \<and>
     scps s' = scps s \<and> mutexes s' = mutexes s \<and> frame s s'"
proof -
  obtain m1 m2 where m: "node_remove (Tcb c) (mem s) = Some m1" "node_append (MutexWaitq p) (Tcb c) m1 = Some m2"
    "chains link_field m2 (Q(ReadyList d \<mapsto> butlast us @ [m], MutexWaitq p \<mapsto> ws @ [c]))"
    by (rule park_spec[OF r ne _ _ w]) auto
  let ?s = "s\<lparr>tcbs := (tcbs s)(c := (tcbs s c)\<lparr>state := state (tcbs s c) OR STATES_WAITFOR_MUTEX\<rparr>), mem := m2\<rparr>"
  have "mutex_lock_enqueue th p s = Some ?s"
    using m(1,2) runningD(3)[OF r] qt
    by (simp add: mutex_lock_enqueue_def sys_defs spin_simps localReadyQProtectedExtract_def on_mem_def)
  with m(3) show ?thesis by (auto simp: frame_def queues_def)
qed

section \<open>The steps of the other threads\<close>

text \<open>The owner releases the mutex to a waiter of another thread: the waiter owns it and goes to the global list.\<close>

lemma unlock_hands_over:
  assumes cur: "current_task s th = Some h" "holder (mutexes s p) = Some h" "reentries (mutexes s p) = 1"
    and q: "quiet s" "queues s Q" and w: "Q (MutexWaitq p) = Some [t]" and far: "\<not> one_n_model s" "scheduler (tcbs s t) \<noteq> scheduler (tcbs s h)"
    and home: "scheddata (tcbs s t) = Some e" "Q (GlobalReady (group (tcbs s t))) = Some gs"
  shows "\<exists>s'. mutex_unlock th p s = Some (True, s') \<and>
     queues s' (Q(MutexWaitq p \<mapsto> [], GlobalReady (group (tcbs s t)) \<mapsto> gs @ [t])) \<and>
     tcbs s' = (tcbs s)(t := (tcbs s t)\<lparr>state := state (tcbs s t) AND NOT STATES_WAITFOR_MUTEX, scheduler := None, scheddata := None\<rparr>) \<and>
     (\<forall>d. d \<noteq> e \<longrightarrow> scps s' d = scps s d) \<and> holder (mutexes s' p) = Some t \<and> current_task s' = current_task s \<and> frame s s'"
proof -
  obtain mm where mm: "node_extract_first (MutexWaitq p) (mem s) = Some (Tcb t, mm)" "chains link_field mm (Q(MutexWaitq p \<mapsto> []))"
    using extract_first_spec[OF q(2) _ w] by auto
  let ?Q = "Q(MutexWaitq p \<mapsto> [])"
  let ?s = "s\<lparr>mem := mm, mutexes := (mutexes s)(p := (mutexes s p)\<lparr>holder := Some t, reentries := 1\<rparr>),
     tcbs := (tcbs s)(t := (tcbs s t)\<lparr>state := state (tcbs s t) AND NOT STATES_WAITFOR_MUTEX\<rparr>)\<rparr>"
  have nf: "node_free ?Q t" using gone_spec[OF q(2), of "MutexWaitq p" "[]" t "[]"] w by simp
  have pre: "queues ?s ?Q" "quiet ?s" "\<not> one_n_model ?s" "scheddata (tcbs ?s t) = Some e" "?Q (GlobalReady (group (tcbs ?s t))) = Some gs"
    using mm(2) q(1) far(1) home by (simp_all add: quiet_def queues_def)
  obtain s' where s': "activate (scheduler (tcbs ?s t)) False t ?s = Some s'"
    "queues s' (?Q(GlobalReady (group (tcbs ?s t)) \<mapsto> gs @ [t]))"
    "tcbs s' = (tcbs ?s)(t := (tcbs ?s t)\<lparr>scheduler := None, scheddata := None\<rparr>)"
    "scps s' = (scps ?s)(e := (scps ?s e)\<lparr>nLocalFibTasks := nLocalFibTasks (scps ?s e) - 1\<rparr>)"
    "current_task s' = current_task ?s" "mutexes s' = mutexes ?s" "frame ?s s'"
    using activate_remote[OF pre(1-3) _ pre(4,5) nf, of False "scheduler (tcbs ?s t)"] by blast
  have "mutex_unlock th p s =
      Option.bind (activate (scheduler (tcbs ?s t)) (scheduler (tcbs ?s t) = scheduler (tcbs ?s h)) t ?s) (\<lambda>s. Some (True, s))"
    using mm(1) cur q(1) by (simp add: mutex_unlock_def sys_defs spin_simps)
  moreover have "(scheduler (tcbs ?s t) = scheduler (tcbs ?s h)) = False" using far(2) by (cases "h = t") auto
  ultimately have "mutex_unlock th p s = Some (True, s')" using s'(1) by (simp only: Option.bind.simps)
  moreover have "frame s s'" using s'(7) by (simp add: frame_def)
  ultimately show ?thesis using s'(2-6) by simp
qed

text \<open>A scheduler task that is alone on its thread takes the task from the global list and runs it.\<close>

lemma idle_thread_takes:
  assumes r: "running s Q th d m [] m" and q: "quiet s" and few: "\<not> one_n_model s" "uncrowded d s = Some True"
    and g: "Q (GlobalReady (scp_group (scps s d))) = Some (t # gs)"
  shows "\<exists>s1 s2. scheduler_balance m s = Some s1 \<and> scheduler_drain msgloop th s1 = Some (Switched, s2) \<and>
     current_task s2 = (current_task s)(th := Some t) \<and> resume_at (tcbs s2 t) = resume_at (tcbs s t) \<and> mutexes s2 = mutexes s"
proof -
  note rd = runningD[OF r]
  obtain s1 where s1: "scheduler_balance m s = Some s1"
    "queues s1 (Q(GlobalReady (scp_group (scps s d)) \<mapsto> gs, ReadyList d \<mapsto> [t, m]))"
    "tcbs s1 = (tcbs s)(t := (tcbs s t)\<lparr>scheduler := Some m, scheddata := Some d, state := state (tcbs s t) AND NOT STATES_BLOCKED\<rparr>)"
    "current_task s1 = current_task s" "mutexes s1 = mutexes s" "frame s s1"
    using balance_takes[OF rd(1) q rd(5) _ few g, of "[]"] rd(6) by auto
  let ?Q = "Q(GlobalReady (scp_group (scps s d)) \<mapsto> gs, ReadyList d \<mapsto> [t, m])"
  have tm: "t \<noteq> m"
    using s1(2) chains_distinct[of link_field "mem s1" ?Q "ReadyList d" "[t, m]"] by (auto simp: queues_def)
  have r1: "running s1 ?Q th d m [t] m"
    using rd s1(2-4,6) tm by (auto simp: running_def on_thread_def frame_def)
  obtain s2 where s2: "fiber_sched_yield th s1 = Some (Switched, s2)"
    "current_task s2 = (current_task s1)(th := Some t)" "tcbs s2 = (tcbs s1)(m := (tcbs s1 m)\<lparr>resume_at := K_sched_yield\<rparr>)"
    "mutexes s2 = mutexes s1"
  proof -
    obtain m1 m2 where
      rem: "on_mem (node_remove (Tcb m)) s1 = Some (s1\<lparr>mem := m1\<rparr>)" and
      ins: "(if m = m then on_mem (node_append (ReadyList d) (Tcb m)) (s1\<lparr>mem := m1\<rparr>)
           else on_mem (node_insert_before (Tcb m) (Tcb m)) (s1\<lparr>mem := m1\<rparr>)) = Some (s1\<lparr>mem := m2\<rparr>)" and
      ch: "chains link_field m2 ?Q"
      using requeue_running[OF r1] by blast
    have r2: "running (s1\<lparr>mem := m2\<rparr>) ?Q th d m [t] m" using running_mem[OF r1 ch] .
    note rd2 = runningD[OF r2]
    obtain mm where "fiber_sched th K_sched_yield (s1\<lparr>mem := m2\<rparr>) = Some (True, swap_context m K_sched_yield
        (s1\<lparr>mem := m2, current_task := (current_task s1)(th := Some t), mem := mm\<rparr>))"
      using fiber_sched_switches[OF rd2(1) rd2(2) rd2(3), of K_sched_yield] tm by auto
    then have "fiber_sched_yield th s1 = Some (Switched, swap_context m K_sched_yield
        (s1\<lparr>mem := m2, current_task := (current_task s1)(th := Some t), mem := mm\<rparr>))"
      using rem ins runningD[OF r1] by (auto simp: fiber_sched_yield_def)
    then show thesis by (rule that) (simp_all add: sys_defs)
  qed
  have ch: "is_chain Fld_node (mem s1) (ReadyList d) ([t] @ [m])"
    using chains_is_chain[of link_field "mem s1" ?Q "ReadyList d"] s1(2) by (simp add: queues_def)
  have "chain_first (ReadyList d) (mem s1) \<noteq> chain_last (ReadyList d) (mem s1)"
    using chain_ends[OF ch] tm by (simp add: left_of_def chain_first_def chain_last_def)
  then have "scheduler_drain msgloop th s1 = Some (Switched, s2)"
    using runningD[OF r1] s2(1) by (simp add: scheduler_drain_def)
  then show ?thesis using s1 s2(2-4) tm by (intro exI[of _ s1] exI[of _ s2]) simp
qed

section \<open>One task on two threads\<close>

lemma task_on_two_threads:
  assumes r0: "running s Q th0 d0 m0 us t" "t \<noteq> m0" and q: "quiet s" "\<not> one_n_model s"
    and home: "scheduler (tcbs s t) = Some m0" "scheddata (tcbs s t) = Some d0" "Q (GlobalReady (group (tcbs s t))) = Some []"
    and own: "current_task s th1 = Some h" "holder (mutexes s p) = Some h" "reentries (mutexes s p) = 1" "h \<noteq> t"
      "scheduler (tcbs s h) \<noteq> Some m0" "Q (MutexWaitq p) = Some []"
    and idle: "running s Q th2 d2 m2 [] m2" "d2 \<noteq> d0" "th2 \<noteq> th0" "scp_group (scps s d2) = group (tcbs s t)" "uncrowded d2 s = Some True"
  shows "\<exists>s1 s2 s3 s4. mutex_lock_enqueue th0 p s = Some s1 \<and> mutex_unlock th1 p s1 = Some (True, s2) \<and>
     scheduler_balance m2 s2 = Some s3 \<and> scheduler_drain msgloop th2 s3 = Some (Switched, s4) \<and>
     current_task s4 th0 = Some t \<and> current_task s4 th2 = Some t \<and> resume_at (tcbs s4 t) = resume_at (tcbs s t) \<and>
     holder (mutexes s4 p) = Some t"
proof -
  let ?g = "group (tcbs s t)"
  obtain s1 where s1: "mutex_lock_enqueue th0 p s = Some s1"
    "queues s1 (Q(ReadyList d0 \<mapsto> butlast us @ [m0], MutexWaitq p \<mapsto> [t]))" "current_task s1 = current_task s"
    "tcbs s1 = (tcbs s)(t := (tcbs s t)\<lparr>state := state (tcbs s t) OR STATES_WAITFOR_MUTEX\<rparr>)"
    "scps s1 = scps s" "mutexes s1 = mutexes s" "frame s s1"
    using mutex_lock_enqueue_spec[OF r0 q(1) own(6)] by auto
  let ?Q = "Q(ReadyList d0 \<mapsto> butlast us @ [m0], MutexWaitq p \<mapsto> [t])"
  have p1: "current_task s1 th1 = Some h" "holder (mutexes s1 p) = Some h" "reentries (mutexes s1 p) = 1" "quiet s1"
    "?Q (MutexWaitq p) = Some [t]" "\<not> one_n_model s1" "scheduler (tcbs s1 t) \<noteq> scheduler (tcbs s1 h)" "scheddata (tcbs s1 t) = Some d0"
    "?Q (GlobalReady (group (tcbs s1 t))) = Some []"
    using s1 own q home by (auto simp: frame_def quiet_def)
  have gt: "group (tcbs s1 t) = ?g" using s1(4) by simp
  obtain s2 where s2: "mutex_unlock th1 p s1 = Some (True, s2)"
    "queues s2 (?Q(MutexWaitq p \<mapsto> [], GlobalReady ?g \<mapsto> [t]))"
    "tcbs s2 = (tcbs s1)(t := (tcbs s1 t)\<lparr>state := state (tcbs s1 t) AND NOT STATES_WAITFOR_MUTEX, scheduler := None, scheddata := None\<rparr>)"
    "\<forall>d. d \<noteq> d0 \<longrightarrow> scps s2 d = scps s1 d" "holder (mutexes s2 p) = Some t" "current_task s2 = current_task s1" "frame s1 s2"
    using unlock_hands_over[OF p1(1-4) s1(2) p1(5-9)] unfolding gt append_Nil by blast
  let ?Q2 = "?Q(MutexWaitq p \<mapsto> [], GlobalReady ?g \<mapsto> [t])"
  have fr: "frame s s2" using frame_trans[OF s1(7) s2(7)] .
  note id = runningD[OF idle(1)]
  have "t \<in> set (us @ [m0])" using r0 by (auto simp: running_def)
  then have "m2 \<noteq> t"
    using chains_disjoint_sets[of link_field "mem s" Q "ReadyList d0" "us @ [m0]" "ReadyList d2" "[m2]"] id(1,6) runningD(6)[OF r0(1)] idle(2)
    by (auto simp: queues_def)
  then have r2: "running s2 ?Q2 th2 d2 m2 [] m2"
    using id s2(2,3,6) s1(3,4) idle(2) fr by (auto simp: running_def on_thread_def frame_def)
  have sc: "scps s2 d2 = scps s d2" using s2(4) s1(5) idle(2) by simp
  have "uncrowded d2 s2 = Some True" using idle(5) fr sc by (simp add: uncrowded_def local_tasks_def frame_def)
  moreover have "quiet s2" "\<not> one_n_model s2" using fr q by (auto simp: frame_def quiet_def)
  moreover have "?Q2 (GlobalReady (scp_group (scps s2 d2))) = Some (t # [])" using sc idle(4) by simp
  ultimately obtain s3 s4 where "scheduler_balance m2 s2 = Some s3" "scheduler_drain msgloop th2 s3 = Some (Switched, s4)"
    "current_task s4 = (current_task s2)(th2 := Some t)" "resume_at (tcbs s4 t) = resume_at (tcbs s2 t)" "mutexes s4 = mutexes s2"
    using idle_thread_takes[OF r2] by blast
  moreover have "current_task s2 th0 = Some t" using s2(6) s1(3) runningD(3)[OF r0(1)] by simp
  ultimately show ?thesis using s1(1) s2(1,3,5) s1(4) idle(3)
    by (intro exI[of _ s1] exI[of _ s2] exI[of _ s3] exI[of _ s4]) simp
qed

end
