(* ===== verification/Pow2.thy ===== *)
theory Pow2
  imports Prelude
begin

text \<open>
  Rounding up to a power of two on 64-bit sizes, \<open>next_pow2\<close> of \<^verbatim>\<open>pipe.c\<close>, and its
  specification: the result is the least power of two that is not below the argument.
\<close>

section \<open>The operation\<close>

function smear :: "nat \<Rightarrow> 64 word \<Rightarrow> 64 word" where
  "smear shift n = (if 0 < shift \<and> shift < 64 then smear (2 * shift) (n OR drop_bit shift n) else n)"
  by auto

termination by (relation "measure (\<lambda>(shift, n). 64 - shift)") auto

declare smear.simps [simp del]

text \<open>\<open>nd\<close> is whether assertions are compiled out; a failed assertion ends the program.\<close>

definition assertume :: "bool \<Rightarrow> bool \<Rightarrow> unit option" where
  "assertume nd b = (if nd \<or> b then Some () else None)"

definition next_pow2 :: "bool \<Rightarrow> 64 word \<Rightarrow> 64 word option" where
  "next_pow2 nd n = do {
     _ \<leftarrow> assertume nd (n \<noteq> 0);
     let top = drop_bit 1 (NOT 0) + 1;
     if n \<ge> top then Some n
     else Some (smear 1 (n - 1) + 1)
   }"

section \<open>Filling the bits below the highest\<close>

lemma smear_bits:
  fixes w :: "64 word"
  assumes "\<And>i. bit x i = (\<exists>j < shift. bit w (i + j))" "0 < shift"
  shows "bit (smear shift x) i = (\<exists>j. bit w (i + j))"
  using assms
proof (induction shift x rule: smear.induct)
  case (1 shift x)
  show ?case
  proof (cases "shift < 64")
    case True
    have "bit (x OR drop_bit shift x) i = (\<exists>j < 2 * shift. bit w (i + j))" for i
    proof -
      have "(\<exists>j < 2 * shift. bit w (i + j)) = ((\<exists>j < shift. bit w (i + j)) \<or> (\<exists>j < shift. bit w (i + shift + j)))"
      proof -
        have "(\<exists>j < shift. bit w (i + j)) \<or> (\<exists>j < shift. bit w (i + shift + j))" if "j < 2 * shift" "bit w (i + j)" for j
          proof (cases "j < shift")
          case False
          then have "j - shift < shift" "bit w (i + shift + (j - shift))" using that by simp_all
          then show ?thesis by blast
        qed (use that in blast)
        moreover have "\<exists>j < 2 * shift. bit w (i + j)" if "j < shift" "bit w (i + shift + j)" for j
          using that by (intro exI[of _ "shift + j"]) (simp add: add.assoc)
        ultimately show ?thesis using less_mult_imp_div_less by (metis (no_types) mult_2 trans_less_add1)
      qed
      then show ?thesis by (simp add: bit_or_iff bit_drop_bit_eq "1.prems"(1) add.commute add.left_commute)
    qed
    with "1.IH" True "1.prems"(2) show ?thesis by (subst smear.simps) simp
  next
    case False
    have "(\<exists>j < shift. bit w (i + j)) = (\<exists>j. bit w (i + j))"
    proof
      assume "\<exists>j. bit w (i + j)"
      then obtain j where j: "bit w (i + j)" ..
      then have "j < shift" using bit_imp_le_length[OF j] False by simp
      with j show "\<exists>j < shift. bit w (i + j)" by blast
    qed blast
    with False "1.prems"(1) show ?thesis by (subst smear.simps) simp
  qed
qed

definition bit_length :: "64 word \<Rightarrow> nat" where
  "bit_length w = (LEAST k. unat w < 2 ^ k)"

lemma bit_length_least: "unat w < 2 ^ bit_length w" "unat w < 2 ^ j \<Longrightarrow> bit_length w \<le> j"
proof -
  have "unat w < 2 ^ 64" using unsigned_less[of w] by simp
  then show "unat w < 2 ^ bit_length w" unfolding bit_length_def by (rule LeastI)
  show "unat w < 2 ^ j \<Longrightarrow> bit_length w \<le> j" unfolding bit_length_def by (rule Least_le)
qed

lemma bit_unat: "bit w i = bit (unat w) i" for w :: "64 word"
  by (auto simp: bit_unsigned_iff)

lemma bit_below_length: "bit w i \<Longrightarrow> i < bit_length w"
proof (rule ccontr)
  assume "bit w i" "\<not> i < bit_length w"
  then have "(2 :: nat) ^ bit_length w \<le> 2 ^ i" by (intro power_increasing) simp_all
  then have "unat w < 2 ^ i" using bit_length_least(1)[of w] by (rule order_less_le_trans[rotated])
  then have "unat w div 2 ^ i = 0" by simp
  with \<open>bit w i\<close> show False by (simp add: bit_unat bit_iff_odd)
qed

lemma top_bit: "bit_length w = Suc k \<Longrightarrow> bit w k"
proof (rule ccontr)
  assume k: "bit_length w = Suc k" "\<not> bit w k"
  then have "unat w < 2 ^ k * 2" using bit_length_least(1)[of w] by simp
  moreover have "even (unat w div 2 ^ k)" using k(2) by (simp add: bit_unat bit_iff_odd)
  ultimately have "unat w div 2 ^ k < 2" "even (unat w div 2 ^ k)" by (simp_all add: less_mult_imp_div_less mult.commute)
  then have "unat w div 2 ^ k = 0" by (auto elim: evenE)
  then have "unat w < 2 ^ k" by (simp add: div_eq_0_iff)
  then show False using bit_length_least(2)[of w k] k(1) by simp
qed

lemma smear_mask: "smear 1 w = mask (bit_length w)"
proof (rule bit_eqI)
  fix i assume "possible_bit TYPE(64 word) i"
  have "bit (smear 1 w) i = (\<exists>j. bit w (i + j))" by (rule smear_bits) simp_all
  also have "\<dots> = (i < bit_length w)"
  proof
    show "i < bit_length w" if "\<exists>j. bit w (i + j)" using that bit_below_length by fastforce
    show "\<exists>j. bit w (i + j)" if "i < bit_length w"
      using top_bit[of w "bit_length w - 1"] that by (auto intro!: exI[of _ "bit_length w - 1 - i"])
  qed
  finally show "bit (smear 1 w) i = bit (mask (bit_length w) :: 64 word) i"
    using \<open>possible_bit TYPE(64 word) i\<close> by (simp add: bit_mask_iff)
qed

text \<open>The least power of two that is at least \<open>n\<close>, as long as there is one in 64 bits.\<close>

lemma next_pow2_spec:
  assumes "0 < n" "n < 2 ^ 63"
  shows "\<exists>k \<le> 63. next_pow2 nd (of_nat n) = Some (of_nat (2 ^ k)) \<and> n \<le> 2 ^ k \<and> (\<forall>j. n \<le> 2 ^ j \<longrightarrow> k \<le> j)"
proof -
  let ?w = "of_nat (n - 1) :: 64 word"
  let ?k = "bit_length ?w"
  have u: "unat (of_nat m :: 64 word) = m" if "m < 2 ^ 64" for m
    using that by (simp add: unsigned_of_nat take_bit_nat_eq_self)
  have w: "unat ?w = n - 1" "unat (of_nat n :: 64 word) = n" by (rule u, use assms in simp)+
  have nz: "(of_nat n :: 64 word) \<noteq> 0" using w(2) assms(1) by (metis unsigned_0 less_numeral_extra(3))
  have top: "\<not> of_nat n \<ge> drop_bit 1 (NOT 0) + (1 :: 64 word)"
    using w(2) assms(2) by (simp add: word_le_nat_alt mask_numeral)
  have k: "?k \<le> 63" using bit_length_least(2)[of ?w 63] w(1) assms by simp
  have m1: "(of_nat n :: 64 word) - 1 = ?w" using assms(1) by (simp add: of_nat_diff)
  have "mask ?k + 1 = (2 ^ ?k :: 64 word)" by (simp add: mask_eq_exp_minus_1)
  then have "next_pow2 nd (of_nat n) = Some (of_nat (2 ^ ?k))"
    using nz top by (simp add: next_pow2_def assertume_def m1 smear_mask[simplified] Let_def)
  moreover have "n \<le> 2 ^ ?k" using bit_length_least(1)[of ?w] w(1) by simp
  moreover have "\<forall>j. n \<le> 2 ^ j \<longrightarrow> ?k \<le> j" using bit_length_least(2)[of ?w] w(1) assms(1) by fastforce
  ultimately show ?thesis using k by blast
qed

end
