(* ===== verification/Pipe.thy ===== *)
theory Pipe
  imports Pow2
begin

text \<open>
  The byte ring of \<^verbatim>\<open>pipe.c\<close>.  A pointer into the buffer is its offset from \<open>buffer\<close>; \<open>buffer\<close>
  holds the bytes (\<open>None\<close> for \<open>NULL\<close>), and a copy that leaves it is a fault.  Sizes are \<open>size_t\<close>:
  differences and products are cut to 64 bits by \<open>usz\<close>.  \<open>malloc n\<close> is the block (with whatever it
  contains) the allocator returns for \<open>n\<close> bytes, \<open>nd\<close> whether assertions are compiled out.
  One element, the sentinel, separates \<open>begin\<close> from the data; all offsets are multiples of the size
  of an element.
\<close>

section \<open>The operations\<close>

record 'a pipe =
  elem_size :: nat
  min_cap :: nat
  max_cap :: nat
  buffer :: "'a list option"
  bufend :: nat
  begin_ptr :: nat
  end_ptr :: nat
  producer_refcount :: nat
  consumer_refcount :: nat
  begin_lock :: nat
  end_lock :: nat
  just_pushed :: nat
  just_popped :: nat

record snapshot =
  s_bufend :: nat
  s_begin :: nat
  s_end :: nat
  s_elem_size :: nat

definition usz :: "int \<Rightarrow> nat" where
  "usz x = nat (x mod 2 ^ 64)"

definition pipe_elem_size :: "'a pipe \<Rightarrow> nat" where
  "pipe_elem_size p = elem_size p"

definition make_snapshot :: "'a pipe \<Rightarrow> snapshot" where
  "make_snapshot p = \<lparr>s_bufend = bufend p, s_begin = begin_ptr p, s_end = end_ptr p, s_elem_size = pipe_elem_size p\<rparr>"

definition DEFAULT_MINCAP :: nat where
  "DEFAULT_MINCAP = 32"

definition capacity :: "snapshot \<Rightarrow> nat" where
  "capacity s = usz (int (s_bufend s) - int (s_elem_size s))"

definition wraps_around :: "snapshot \<Rightarrow> bool" where
  "wraps_around s = (s_begin s \<ge> s_end s)"

definition bytes_in_use :: "snapshot \<Rightarrow> nat" where
  "bytes_in_use s =
     usz ((if wraps_around s then int (s_end s) + (int (s_bufend s) - int (s_begin s)) else int (s_end s) - int (s_begin s))
          - int (s_elem_size s))"

definition wrap_ptr_if_necessary :: "nat \<Rightarrow> nat \<Rightarrow> nat" where
  "wrap_ptr_if_necessary p bend = (if p \<ge> bend then p - bend else p)"

text \<open>The pointer may lie in front of the buffer, so here it is an integer.\<close>

definition rev_wrap_ptr_if_necessary :: "int \<Rightarrow> nat \<Rightarrow> nat" where
  "rev_wrap_ptr_if_necessary p bend = (if p < 0 then nat (int bend - (- p)) else nat p)"

definition offset_memcpy :: "nat \<Rightarrow> 'a list \<Rightarrow> nat \<Rightarrow> 'a list \<Rightarrow> (nat \<times> 'a list) option" where
  "offset_memcpy dest src n d =
     (if n \<le> length src \<and> dest + n \<le> length d
      then Some (dest + n, take dest d @ take n src @ drop (dest + n) d) else None)"

definition read_bytes :: "nat \<Rightarrow> nat \<Rightarrow> 'a list \<Rightarrow> 'a list option" where
  "read_bytes src n d = (if src + n \<le> length d then Some (take n (drop src d)) else None)"

definition in_bounds :: "nat \<Rightarrow> nat \<Rightarrow> nat \<Rightarrow> bool" where
  "in_bounds l x r = (x \<ge> l \<and> x \<le> r)"

definition check_invariants :: "'a pipe \<Rightarrow> bool" where
  "check_invariants p =
     (case buffer p of
        None \<Rightarrow> consumer_refcount p = 0
      | Some _ \<Rightarrow>
         (let s = make_snapshot p in
          consumer_refcount p \<noteq> 0 \<and> elem_size p \<noteq> 0 \<and> bytes_in_use s \<le> capacity s \<and>
          in_bounds 0 (s_begin s) (s_bufend s) \<and> in_bounds 0 (s_end s) (s_bufend s) \<and>
          (s_begin s = s_end s \<longrightarrow> bytes_in_use s = capacity s) \<and>
          in_bounds (usz (int (DEFAULT_MINCAP * elem_size p))) (min_cap p) (max_cap p) \<and>
          in_bounds (min_cap p) (usz (int (capacity s + elem_size p))) (max_cap p)))"

definition pipe_new ::
  "bool \<Rightarrow> bool \<Rightarrow> (nat \<Rightarrow> 'a list option) \<Rightarrow> nat \<times> nat \<times> nat \<times> nat \<Rightarrow> nat \<Rightarrow> nat \<Rightarrow> 'a pipe option option" where
  "pipe_new nd allocated malloc ids esize original_limit = do {
     _ \<leftarrow> assertume nd (esize \<noteq> 0);
     if esize = 0 then Some None
     else do {
       let cap = usz (int (DEFAULT_MINCAP * esize));
       let lim = usz (int ((original_limit + 1) * esize));
       case malloc cap of
         None \<Rightarrow> Some None
       | Some buf \<Rightarrow>
           if \<not> allocated then Some None
           else do {
             mc \<leftarrow> (if original_limit \<noteq> 0 then map_option unat (next_pow2 nd (of_nat (max lim cap)))
                    else Some (2 ^ 64 - 1));
             let (bl, el, cpush, cpop) = ids;
             let p = \<lparr>elem_size = esize, min_cap = cap, max_cap = mc, buffer = Some buf, bufend = cap, begin_ptr = 0,
                      end_ptr = esize, producer_refcount = 1, consumer_refcount = 1, begin_lock = bl, end_lock = el,
                      just_pushed = cpush, just_popped = cpop\<rparr>;
             _ \<leftarrow> assertume nd (check_invariants p);
             Some (Some p)
           }
     }
   }"

definition copy_pipe_into_new_buf :: "snapshot \<Rightarrow> 'a list \<Rightarrow> 'a list \<Rightarrow> (nat \<times> 'a list) option" where
  "copy_pipe_into_new_buf s old new =
     (if wraps_around s then do {
        x \<leftarrow> read_bytes (s_begin s) (usz (int (s_bufend s) - int (s_begin s))) old;
        (e, new) \<leftarrow> offset_memcpy 0 x (length x) new;
        y \<leftarrow> read_bytes 0 (s_end s) old;
        offset_memcpy e y (length y) new
      } else do {
        x \<leftarrow> read_bytes (s_begin s) (usz (int (s_end s) - int (s_begin s))) old;
        offset_memcpy 0 x (length x) new
      })"

definition resize_buffer :: "bool \<Rightarrow> (nat \<Rightarrow> 'a list option) \<Rightarrow> nat \<Rightarrow> 'a pipe \<Rightarrow> 'a pipe option" where
  "resize_buffer nd malloc new_size p = do {
     _ \<leftarrow> assertume nd (check_invariants p);
     _ \<leftarrow> assertume nd (new_size \<ge> bytes_in_use (make_snapshot p));
     let new_size = (if new_size \<ge> max_cap p then max_cap p else new_size);
     if new_size \<le> min_cap p then Some p
     else do {
       old \<leftarrow> buffer p;
       new_buf \<leftarrow> malloc (usz (int (new_size + elem_size p)));
       (e, new_buf) \<leftarrow> copy_pipe_into_new_buf (make_snapshot p) old new_buf;
       let p = p\<lparr>end_ptr := e, begin_ptr := 0, buffer := Some new_buf, bufend := usz (int (new_size + elem_size p))\<rparr>;
       _ \<leftarrow> assertume nd (check_invariants p);
       Some p
     }
   }"

text \<open>What \<open>validate_size\<close> does with both locks held.\<close>

definition grow :: "bool \<Rightarrow> (nat \<Rightarrow> 'a list option) \<Rightarrow> nat \<Rightarrow> nat \<Rightarrow> 'a pipe \<Rightarrow> 'a pipe option" where
  "grow nd malloc cap new_bytes p = do {
     let bytes_needed = usz (int (bytes_in_use (make_snapshot p) + new_bytes));
     let elems_needed = bytes_needed div elem_size p;
     if bytes_needed > cap then do {
       w \<leftarrow> next_pow2 nd (of_nat (elems_needed + 1));
       resize_buffer nd malloc (usz (int (unat w * elem_size p))) p
     } else Some p
   }"

definition process_push :: "bool \<Rightarrow> snapshot \<Rightarrow> 'a list \<Rightarrow> nat \<Rightarrow> 'a list \<Rightarrow> (nat \<times> 'a list) option" where
  "process_push nd s elems bytes_to_copy d = do {
     _ \<leftarrow> assertume nd (bytes_to_copy \<noteq> 0);
     _ \<leftarrow> assertume nd (s_end s \<noteq> s_bufend s);
     (e, elems, bytes_to_copy, d) \<leftarrow> (if \<not> wraps_around s then do {
         let at_end = min bytes_to_copy (usz (int (s_bufend s) - int (s_end s)));
         (e, d) \<leftarrow> offset_memcpy (s_end s) elems at_end d;
         Some (e, drop at_end elems, bytes_to_copy - at_end, d)
       } else Some (s_end s, elems, bytes_to_copy, d));
     (e, d) \<leftarrow> (if bytes_to_copy \<noteq> 0
                then offset_memcpy (wrap_ptr_if_necessary e (s_bufend s)) elems bytes_to_copy d
                else Some (e, d));
     Some (wrap_ptr_if_necessary e (s_bufend s), d)
   }"

definition pop_without_locking :: "bool \<Rightarrow> snapshot \<Rightarrow> nat \<Rightarrow> 'a list \<Rightarrow> ('a list \<times> snapshot) option" where
  "pop_without_locking nd s bytes_to_copy d = do {
     _ \<leftarrow> assertume nd (s_begin s \<noteq> s_bufend s);
     let esize = s_elem_size s;
     let first = min bytes_to_copy (usz (int (s_bufend s) - int (s_begin s) - int esize));
     x \<leftarrow> read_bytes (s_begin s + esize) first d;
     let bytes_to_copy = bytes_to_copy - first;
     let b = wrap_ptr_if_necessary (s_begin s + first) (s_bufend s);
     (y, b) \<leftarrow> (if bytes_to_copy > 0 then do {
         let b = wrap_ptr_if_necessary (b + esize) (s_bufend s);
         y \<leftarrow> read_bytes b bytes_to_copy d;
         let b = wrap_ptr_if_necessary (b + bytes_to_copy) (s_bufend s);
         Some (y, rev_wrap_ptr_if_necessary (int b - int esize) (s_bufend s))
       } else Some ([], b));
     Some (x @ y, s\<lparr>s_begin := b\<rparr>)
   }"

section \<open>The ring\<close>

text \<open>\<open>k\<close> bytes of a ring of \<open>n\<close> bytes, from offset \<open>a\<close> on.\<close>

definition ring :: "'a list \<Rightarrow> nat \<Rightarrow> nat \<Rightarrow> nat \<Rightarrow> 'a list" where
  "ring d n a k = map (\<lambda>i. d ! ((a + i) mod n)) [0 ..< k]"

lemma ring_length [simp]: "length (ring d n a k) = k"
  by (simp add: ring_def)

lemma ring_0 [simp]: "ring d n a 0 = []"
  by (simp add: ring_def)

lemma ring_add: "ring d n a (j + k) = ring d n a j @ ring d n ((a + j) mod n) k"
proof (rule nth_equalityI)
  fix i assume "i < length (ring d n a (j + k))"
  moreover have "((a + j) mod n + (i - j)) mod n = (a + i) mod n" if "\<not> i < j"
    using that mod_add_left_eq[of "a + j" n "i - j"] by (metis add.assoc le_add_diff_inverse not_less)
  ultimately show "ring d n a (j + k) ! i = (ring d n a j @ ring d n ((a + j) mod n) k) ! i"
    by (auto simp: ring_def nth_append)
qed simp

lemma ring_flat: "length d = n \<Longrightarrow> a + k \<le> n \<Longrightarrow> ring d n a k = take k (drop a d)"
  by (rule nth_equalityI) (simp_all add: ring_def)

lemma ring_take: "j \<le> k \<Longrightarrow> take j (ring d n a k) = ring d n a j"
  by (simp add: ring_def take_map)

lemma ring_drop: "j \<le> k \<Longrightarrow> drop j (ring d n a k) = ring d n ((a + j) mod n) (k - j)"
  using ring_add[of d n a j "k - j"] by simp

lemma ring_wrap:
  assumes "length d = n" "a < n" "k \<le> n" "n \<le> a + k"
  shows "ring d n a k = drop a d @ take (a + k - n) d"
proof -
  have "ring d n a k = ring d n a (n - a) @ ring d n ((a + (n - a)) mod n) (k - (n - a))"
    using ring_add[of d n a "n - a" "k - (n - a)"] assms by simp
  also have "ring d n a (n - a) = drop a d" using ring_flat[of d n a "n - a"] assms by simp
  also have "ring d n ((a + (n - a)) mod n) (k - (n - a)) = take (a + k - n) d"
    using ring_flat[of d n 0 "k - (n - a)"] assms by (simp add: add.commute)
  finally show ?thesis .
qed

text \<open>Two rings that agree on the slots in question hold the same bytes there.\<close>

lemma ring_cong: "(\<And>i. i < k \<Longrightarrow> d ! ((a + i) mod n) = d' ! ((a + i) mod n)) \<Longrightarrow> ring d n a k = ring d' n a k"
  by (simp add: ring_def)

section \<open>A well-formed pipe\<close>

text \<open>
  The offsets are multiples of the element size, the sentinel and the data fit, and the sizes are
  below the bound of \<open>size_t\<close>.
\<close>

definition pipe_ring_ok :: "'a pipe \<Rightarrow> 'a list \<Rightarrow> bool" where
  "pipe_ring_ok p d =
     (buffer p = Some d \<and> length d = bufend p \<and> 0 < elem_size p \<and> elem_size p < bufend p \<and> bufend p < 2 ^ 63 \<and>
      elem_size p dvd bufend p \<and> elem_size p dvd begin_ptr p \<and> elem_size p dvd end_ptr p \<and>
      begin_ptr p < bufend p \<and> end_ptr p < bufend p)"

definition used :: "'a pipe \<Rightarrow> nat" where
  "used p = (end_ptr p + bufend p - begin_ptr p - elem_size p) mod bufend p"

definition pipe_bytes :: "'a pipe \<Rightarrow> 'a list" where
  "pipe_bytes p = ring (the (buffer p)) (bufend p) ((begin_ptr p + elem_size p) mod bufend p) (used p)"

lemma usz_small: "0 \<le> x \<Longrightarrow> x < 2 ^ 64 \<Longrightarrow> usz x = nat x"
  by (simp add: usz_def)

lemma usz_nat: "n < 2 ^ 64 \<Longrightarrow> usz (int n) = n"
  by (simp add: usz_def)

lemma pipe_bytes_length [simp]: "length (pipe_bytes p) = used p"
  by (simp add: pipe_bytes_def)

lemma dvd_gap: "e dvd a \<Longrightarrow> e dvd b \<Longrightarrow> a < b \<Longrightarrow> a + e \<le> (b :: nat)"
  by (auto elim!: dvdE) (metis Suc_leI mult_le_mono2 mult_Suc_right add.commute)

lemma capacity_eq: "pipe_ring_ok p d \<Longrightarrow> capacity (make_snapshot p) = bufend p - elem_size p"
  by (auto simp: pipe_ring_ok_def capacity_def make_snapshot_def pipe_elem_size_def usz_small)

lemma bytes_in_use_eq:
  assumes "pipe_ring_ok p d"
  shows "bytes_in_use (make_snapshot p) = used p" "used p \<le> bufend p - elem_size p" "elem_size p dvd used p"
proof -
  let ?n = "bufend p" and ?b = "begin_ptr p" and ?e = "end_ptr p" and ?z = "elem_size p"
  have h: "0 < ?z" "?z < ?n" "?n < 2 ^ 63" "?z dvd ?n" "?z dvd ?b" "?z dvd ?e" "?b < ?n" "?e < ?n"
    using assms by (simp_all add: pipe_ring_ok_def)
  have g: "?b < ?e \<Longrightarrow> ?b + ?z \<le> ?e" "?b + ?z \<le> ?n" using h dvd_gap by blast+
  have u: "used p = (if ?b \<ge> ?e then ?e + ?n - ?b - ?z else ?e - ?b - ?z)"
  proof (cases "?b \<ge> ?e")
    case True
    then show ?thesis using h g(2) by (simp add: used_def)
  next
    case False
    then have "?e + ?n - ?b - ?z = ?n + (?e - ?b - ?z)" using g by simp
    then have "used p = (?e - ?b - ?z) mod ?n" unfolding used_def by (simp only: mod_add_self1)
    also have "\<dots> = ?e - ?b - ?z" using h by simp
    finally show ?thesis using False by simp
  qed
  show "bytes_in_use (make_snapshot p) = used p"
    using u h g by (auto simp: bytes_in_use_def make_snapshot_def wraps_around_def pipe_elem_size_def usz_small)
  show "used p \<le> ?n - ?z" using u h g by auto
  show "?z dvd used p" using u h by (auto intro!: dvd_diff_nat dvd_add)
qed

text \<open>On a well-formed ring the assertions reduce to the bounds of the capacity.\<close>

lemma check_invariants_iff:
  assumes "pipe_ring_ok p d"
  shows "check_invariants p = (consumer_refcount p \<noteq> 0 \<and> usz (int (DEFAULT_MINCAP * elem_size p)) \<le> min_cap p \<and>
     min_cap p \<le> max_cap p \<and> min_cap p \<le> bufend p \<and> bufend p \<le> max_cap p)"
proof -
  have h: "buffer p = Some d" "0 < elem_size p" "elem_size p < bufend p" "bufend p < 2 ^ 63" "begin_ptr p < bufend p" "end_ptr p < bufend p"
    using assms by (simp_all add: pipe_ring_ok_def)
  have "elem_size p \<le> bufend p - begin_ptr p"
    using dvd_gap[of "elem_size p" "begin_ptr p" "bufend p"] assms by (auto simp: pipe_ring_ok_def)
  then have full: "begin_ptr p = end_ptr p \<Longrightarrow> used p = bufend p - elem_size p" using h by (simp add: used_def)
  have c: "usz (int (capacity (make_snapshot p) + elem_size p)) = bufend p"
    using capacity_eq[OF assms] h by (simp only:) (rule trans[OF usz_nat], simp_all)
  have s: "s_begin (make_snapshot p) = begin_ptr p" "s_end (make_snapshot p) = end_ptr p" "s_bufend (make_snapshot p) = bufend p"
    by (simp_all add: make_snapshot_def)
  show ?thesis unfolding check_invariants_def h(1) option.case Let_def in_bounds_def c s
    using h full bytes_in_use_eq(1,2)[OF assms] capacity_eq[OF assms] by auto
qed

section \<open>Push\<close>

text \<open>\<open>d'\<close> is \<open>d\<close> with the bytes \<open>xs\<close> written from slot \<open>e\<close> on, around the end of the ring.\<close>

definition written :: "'a list \<Rightarrow> nat \<Rightarrow> nat \<Rightarrow> 'a list \<Rightarrow> 'a list \<Rightarrow> bool" where
  "written d n e xs d' =
     (length d' = n \<and> (\<forall>i < length xs. d' ! ((e + i) mod n) = xs ! i) \<and>
      (\<forall>j < n. (\<forall>i < length xs. j \<noteq> (e + i) mod n) \<longrightarrow> d' ! j = d ! j))"

lemma written_flat:
  assumes "length d = n" "e + length xs \<le> n" "e < n"
  shows "written d n e xs (take e d @ xs @ drop (e + length xs) d)"
proof -
  let ?d = "take e d @ xs @ drop (e + length xs) d"
  have nth: "?d ! j = (if e \<le> j \<and> j < e + length xs then xs ! (j - e) else d ! j)" if "j < n" for j
    using assms that by (auto simp: nth_append)
  have "?d ! j = d ! j" if "j < n" "\<forall>i < length xs. j \<noteq> (e + i) mod n" for j
  proof -
    have "\<not> (e \<le> j \<and> j < e + length xs)"
    proof
      assume "e \<le> j \<and> j < e + length xs"
      then have "j - e < length xs" "j = (e + (j - e)) mod n" using that(1) by (simp_all add: less_diff_conv2)
      with that(2) show False by blast
    qed
    with nth[OF that(1)] show ?thesis by auto
  qed
  moreover have "?d ! ((e + i) mod n) = xs ! i" if "i < length xs" for i
    using nth[of "e + i"] that assms by simp
  ultimately show ?thesis using assms(1,2) by (auto simp: written_def)
qed

lemma written_append:
  assumes "written d n e xs d1" "written d1 n ((e + length xs) mod n) ys d2" "length xs + length ys \<le> n" "e < n"
  shows "written d n e (xs @ ys) d2"
proof -
  have s: "((e + length xs) mod n + i) mod n = (e + (length xs + i)) mod n" for i by (simp add: mod_simps add.assoc)
  have "d2 ! ((e + i) mod n) = (xs @ ys) ! i" if i: "i < length xs + length ys" for i
  proof (cases "i < length xs")
    case True
    have "(e + i) mod n \<noteq> (e + (length xs + j)) mod n" if "j < length ys" for j
      using ring_slots_differ[of i "length xs + j" n e] True that assms(3,4) by simp
    then have "d2 ! ((e + i) mod n) = d1 ! ((e + i) mod n)" using assms(2,4) unfolding written_def s by simp
    then show ?thesis using assms(1) True by (simp add: written_def nth_append)
  next
    case False
    then have "i - length xs < length ys" "length xs + (i - length xs) = i" using i by simp_all
    then have "d2 ! ((e + i) mod n) = ys ! (i - length xs)" using assms(2) s[of "i - length xs"] unfolding written_def by metis
    then show ?thesis using False by (simp add: nth_append)
  qed
  moreover have "d2 ! j = d ! j" if j: "j < n" "\<forall>i < length xs + length ys. j \<noteq> (e + i) mod n" for j
  proof -
    have "\<forall>i < length ys. j \<noteq> ((e + length xs) mod n + i) mod n" using j(2) unfolding s by simp
    then have "d2 ! j = d1 ! j" using assms(2) j(1) by (simp add: written_def)
    also have "\<dots> = d ! j" using assms(1) j by (simp add: written_def)
    finally show ?thesis .
  qed
  ultimately show ?thesis using assms(2) by (simp add: written_def)
qed

lemma written_ring:
  assumes "written d n ((a + u) mod n) xs d'" "u + length xs \<le> n" "a < n"
  shows "ring d' n a (u + length xs) = ring d n a u @ xs"
proof -
  let ?e = "(a + u) mod n"
  have "(a + i) mod n \<noteq> (?e + j) mod n" if "i < u" "j < length xs" for i j
    using ring_slots_differ[of i "u + j" n a] that assms(2,3) by (simp add: mod_simps add.assoc)
  then have "ring d' n a u = ring d n a u"
    using assms(1,3) by (intro ring_cong) (simp add: written_def)
  moreover have "ring d' n ?e (length xs) = xs"
    using assms(1) by (intro nth_equalityI) (simp_all add: ring_def written_def)
  ultimately show ?thesis by (simp only: ring_add)
qed

lemma memcpy_written:
  assumes "k \<le> length src" "dest + k \<le> length d" "dest < length d"
  shows "\<exists>d'. offset_memcpy dest src k d = Some (dest + k, d') \<and> written d (length d) dest (take k src) d'"
  using written_flat[of d "length d" dest "take k src"] assms by (simp add: offset_memcpy_def min_absorb2)

lemma process_push_spec:
  assumes d: "length d = s_bufend s" and e: "s_end s < s_bufend s" and k: "0 < k" "k \<le> length elems" and n: "s_bufend s < 2 ^ 64"
    and room: "if wraps_around s then s_end s + k \<le> s_bufend s else k \<le> s_bufend s"
  shows "\<exists>d'. process_push nd s elems k d = Some ((s_end s + k) mod s_bufend s, d') \<and>
     written d (s_bufend s) (s_end s) (take k elems) d'"
proof -
  let ?n = "s_bufend s" and ?e = "s_end s"
  have u: "usz (int ?n - int ?e) = ?n - ?e" using e n by (simp add: usz_small)
  show ?thesis
  proof (cases "?e + k \<le> ?n")
    case True
    obtain d' where d': "offset_memcpy ?e elems k d = Some (?e + k, d')" "written d ?n ?e (take k elems) d'"
      using memcpy_written[of k elems ?e d] k(2) True d e by auto
    have w: "wrap_ptr_if_necessary (?e + k) ?n = (?e + k) mod ?n" "wrap_ptr_if_necessary ?e ?n = ?e" "min k (?n - ?e) = k"
      using True e by (auto simp: wrap_ptr_if_necessary_def)
    have "process_push nd s elems k d = Some ((?e + k) mod ?n, d')"
      using k(1) e by (cases "wraps_around s") (simp_all add: process_push_def assertume_def u w d'(1) Let_def)
    with d'(2) show ?thesis by blast
  next
    case False
    then have nw: "\<not> wraps_around s" "k \<le> ?n" using room by (auto split: if_splits)
    define m r where "m = ?n - ?e" and "r = k - m"
    have mr: "?e + m = ?n" "m + r = k" "m \<le> length elems" "r \<le> length (drop m elems)" "0 < r" "r \<le> ?e"
      using False e k(2) nw(2) by (simp_all add: m_def r_def)
    obtain d1 where d1: "offset_memcpy ?e elems m d = Some (?n, d1)" "written d ?n ?e (take m elems) d1"
      using memcpy_written[of m elems ?e d] mr(1,3) d e by auto
    have l1: "length d1 = ?n" using d1(2) by (simp add: written_def)
    obtain d2 where d2: "offset_memcpy 0 (drop m elems) r d1 = Some (r, d2)" "written d1 ?n 0 (take r (drop m elems)) d2"
      using memcpy_written[of r "drop m elems" 0 d1] mr(4,6) l1 e by auto
    have w: "min k (?n - ?e) = m" "wrap_ptr_if_necessary ?n ?n = 0" "wrap_ptr_if_necessary r ?n = r" "k - m = r"
      using mr e by (simp_all add: wrap_ptr_if_necessary_def m_def r_def)
    have ek: "(?e + k) mod ?n = r" using mr e by (metis add.assoc mod_add_self1 mod_less order_le_less_trans)
    have "process_push nd s elems k d = Some (r, d2)"
      using k(1) e nw(1) mr(5) by (simp add: process_push_def assertume_def u w d1(1) d2(1) Let_def)
    moreover have "(?e + length (take m elems)) mod ?n = 0" using mr(1,3) by simp
    then have "written d ?n ?e (take m elems @ take r (drop m elems)) d2"
      using written_append[of d ?n ?e "take m elems" d1 "take r (drop m elems)" d2] d1(2) d2(2) mr nw(2) e by simp
    moreover have "take m elems @ take r (drop m elems) = take k elems" using mr(2) by (metis take_add)
    ultimately show ?thesis using ek by auto
  qed
qed

text \<open>How \<open>begin\<close>, \<open>end\<close> and the number of bytes in use determine each other.\<close>

lemma ring_distance:
  assumes "e < n" "a \<le> n" "u < (n :: nat)"
  shows "(e + n - a) mod n = u \<longleftrightarrow> e = (a + u) mod n"
proof
  assume "(e + n - a) mod n = u"
  then have "(a + u) mod n = (a + (e + n - a)) mod n" by (metis mod_add_right_eq)
  also have "\<dots> = e" using assms(1,2) by simp
  finally show "e = (a + u) mod n" ..
next
  assume e: "e = (a + u) mod n"
  have "(e + n - a) mod n = ((a + u) mod n + (n - a)) mod n" using assms(2) e by simp
  also have "\<dots> = (a + u + (n - a)) mod n" by (rule mod_add_left_eq)
  also have "\<dots> = u" using assms(2,3) by simp
  finally show "(e + n - a) mod n = u" .
qed

lemma ring_okD:
  assumes "pipe_ring_ok p d"
  shows "buffer p = Some d" "length d = bufend p" "0 < elem_size p" "elem_size p < bufend p" "bufend p < 2 ^ 63"
    "begin_ptr p < bufend p" "end_ptr p < bufend p" "begin_ptr p + elem_size p \<le> bufend p" "used p < bufend p"
    "end_ptr p = (begin_ptr p + elem_size p + used p) mod bufend p"
    "elem_size p dvd bufend p" "elem_size p dvd begin_ptr p" "elem_size p dvd end_ptr p"
proof -
  show h: "buffer p = Some d" "length d = bufend p" "0 < elem_size p" "elem_size p < bufend p" "bufend p < 2 ^ 63"
    "begin_ptr p < bufend p" "end_ptr p < bufend p" "elem_size p dvd bufend p" "elem_size p dvd begin_ptr p" "elem_size p dvd end_ptr p"
    using assms by (simp_all add: pipe_ring_ok_def)
  show b: "begin_ptr p + elem_size p \<le> bufend p" using dvd_gap h by blast
  show u: "used p < bufend p" using h(4) unfolding used_def by (intro mod_less_divisor) simp
  show "end_ptr p = (begin_ptr p + elem_size p + used p) mod bufend p"
    using ring_distance[OF h(7) b u] by (simp add: used_def)
qed

lemma used_eqI:
  assumes "pipe_ring_ok p d" "u < bufend p" "end_ptr p = (begin_ptr p + elem_size p + u) mod bufend p"
  shows "used p = u"
  using ring_distance[OF ring_okD(7,8)[OF assms(1)] assms(2)] assms(3) by (simp add: used_def)

lemma push_bytes:
  assumes ok: "pipe_ring_ok p d" and k: "0 < k" "elem_size p dvd k" "k \<le> length elems" and room: "used p + k \<le> bufend p - elem_size p"
  shows "\<exists>e' d'. process_push nd (make_snapshot p) elems k d = Some (e', d') \<and>
     pipe_ring_ok (p\<lparr>end_ptr := e', buffer := Some d'\<rparr>) d' \<and>
     pipe_bytes (p\<lparr>end_ptr := e', buffer := Some d'\<rparr>) = pipe_bytes p @ take k elems"
proof -
  let ?n = "bufend p" and ?z = "elem_size p" and ?b = "begin_ptr p" and ?s = "make_snapshot p"
  note h = ring_okD[OF ok]
  have s: "s_bufend ?s = ?n" "s_end ?s = end_ptr p" "s_begin ?s = ?b" by (simp_all add: make_snapshot_def)
  have rm: "if wraps_around ?s then s_end ?s + k \<le> s_bufend ?s else k \<le> s_bufend ?s"
  proof (cases "?b \<ge> end_ptr p")
    case True
    then have "used p = end_ptr p + ?n - (?b + ?z)" using h(3,8) by (simp add: used_def)
    then show ?thesis using True room h(8) by (simp add: wraps_around_def s)
  next
    case False
    then show ?thesis using room by (simp add: wraps_around_def s)
  qed
  obtain d' where d': "process_push nd ?s elems k d = Some ((end_ptr p + k) mod ?n, d')" "written d ?n (end_ptr p) (take k elems) d'"
    using process_push_spec[OF _ _ k(1,3) _ rm, of d nd] h(2,5,7) s by auto
  let ?p = "p\<lparr>end_ptr := (end_ptr p + k) mod ?n, buffer := Some d'\<rparr>"
  have ok': "pipe_ring_ok ?p d'"
    using ok d'(2) h k(2) by (auto simp: pipe_ring_ok_def written_def intro!: dvd_mod dvd_add)
  have e: "(end_ptr p + k) mod ?n = (?b + ?z + (used p + k)) mod ?n" using h(10) by (simp add: mod_simps add.assoc)
  then have u: "used ?p = used p + k" using used_eqI[OF ok', of "used p + k"] room h(3,4) by simp
  have "((?b + ?z) mod ?n + used p) mod ?n = end_ptr p" using h(10) by (simp add: mod_simps)
  then have "ring d' ?n ((?b + ?z) mod ?n) (used p + k) = ring d ?n ((?b + ?z) mod ?n) (used p) @ take k elems"
    using written_ring[of d ?n "(?b + ?z) mod ?n" "used p" "take k elems" d'] d'(2) k(3) room h(4) by simp
  then have "pipe_bytes ?p = pipe_bytes p @ take k elems" using u h(1) by (simp add: pipe_bytes_def)
  with d'(1) ok' show ?thesis by blast
qed

section \<open>Pop\<close>

text \<open>The copy out of the ring, in one piece or in two, is the first \<open>k\<close> bytes of the contents.\<close>

lemma pop_copies:
  assumes ok: "pipe_ring_ok p d" and k: "0 < k" "elem_size p dvd k" "k \<le> used p"
  shows "pop_without_locking nd (make_snapshot p) k d =
     Some (take k (pipe_bytes p), (make_snapshot p)\<lparr>s_begin := (begin_ptr p + k) mod bufend p\<rparr>)"
proof -
  let ?n = "bufend p" and ?z = "elem_size p" and ?b = "begin_ptr p" and ?s = "make_snapshot p"
  note h = ring_okD[OF ok]
  have s: "s_bufend ?s = ?n" "s_end ?s = end_ptr p" "s_begin ?s = ?b" "s_elem_size ?s = ?z"
    by (simp_all add: make_snapshot_def pipe_elem_size_def)
  have r: "usz (int ?n - int ?b - int ?z) = ?n - ?b - ?z" using h(5,8) by (simp add: usz_small)
  have kn: "k \<le> ?n - ?z" using k(3) bytes_in_use_eq(2)[OF ok] by simp
  have bytes: "take k (pipe_bytes p) = ring d ?n ((?b + ?z) mod ?n) k"
    using k(3) h(1) by (simp add: pipe_bytes_def ring_take)
  show ?thesis
  proof (cases "k \<le> ?n - ?b - ?z")
    case True
    then have bz: "?b + ?z < ?n" "?b + ?z + k \<le> ?n" using k(1) h(8) by auto
    then have "take k (drop (?b + ?z) d) = take k (pipe_bytes p)" using bytes ring_flat[of d ?n "?b + ?z" k] h(2) by simp
    moreover have "?b + k < ?n" using bz h(3) by simp
    ultimately show ?thesis using True bz h(2,6)
      by (simp add: pop_without_locking_def assertume_def s r read_bytes_def wrap_ptr_if_necessary_def Let_def min_absorb1)
  next
    case False
    define m t where "m = ?n - ?b - ?z" and "t = k - m"
    have mt: "?b + ?z + m = ?n" "m + t = k" "0 < t" "min k m = m" using False h(8) by (auto simp: m_def t_def)
    have r': "usz (int ?n - int ?b - int ?z) = m" using r by (simp add: m_def)
    have tz: "?z \<le> t" using mt(2,3) k(2) h(8,11,12) by (intro dvd_imp_le) (auto simp: t_def m_def intro!: dvd_diff_nat)
    have tn: "t \<le> ?n" "t < ?n" using kn mt(2) h(3,4) by auto
    have x: "read_bytes (?b + ?z) m d = Some (drop (?b + ?z) d)" "read_bytes 0 t d = Some (take t d)"
      using mt(1) h(2) tn by (simp_all add: read_bytes_def)
    have e: "(?b + k) mod ?n = t - ?z"
    proof -
      have "?b + k = ?n + (t - ?z)" using mt tz by simp
      then show ?thesis using tn by simp
    qed
    have w: "wrap_ptr_if_necessary (?b + m) ?n = ?n - ?z" "wrap_ptr_if_necessary (?n - ?z + ?z) ?n = 0"
      "wrap_ptr_if_necessary (0 + t) ?n = t" "rev_wrap_ptr_if_necessary (int t - int ?z) ?n = t - ?z" "k - m = t"
      using mt tz tn h(3,4) by (auto simp: wrap_ptr_if_necessary_def rev_wrap_ptr_if_necessary_def t_def)
    have "drop (?b + ?z) d @ take t d = take k (pipe_bytes p)"
    proof (cases "?b + ?z = ?n")
      case True
      then show ?thesis using bytes ring_flat[of d ?n 0 k] h(2) mt kn by simp
    next
      case ne: False
      moreover have "?b + ?z + k - ?n = t" using mt(1,2) by simp
      ultimately show ?thesis using bytes ring_wrap[of d ?n "?b + ?z" k] h(2,8) mt kn by simp
    qed
    moreover have "m < k" using mt(2,3) by simp
    ultimately show ?thesis using h(6) mt(3) w(2,3)
      by (simp add: pop_without_locking_def assertume_def s r' mt(4) x w(1,4,5) e Let_def)
  qed
qed

lemma pop_bytes:
  assumes ok: "pipe_ring_ok p d" and k: "0 < k" "elem_size p dvd k" "k \<le> used p"
  shows "\<exists>b'. pop_without_locking nd (make_snapshot p) k d = Some (take k (pipe_bytes p), (make_snapshot p)\<lparr>s_begin := b'\<rparr>) \<and>
     pipe_ring_ok (p\<lparr>begin_ptr := b'\<rparr>) d \<and> pipe_bytes (p\<lparr>begin_ptr := b'\<rparr>) = drop k (pipe_bytes p)"
proof -
  let ?n = "bufend p" and ?z = "elem_size p" and ?b = "begin_ptr p"
  note h = ring_okD[OF ok]
  let ?p = "p\<lparr>begin_ptr := (?b + k) mod ?n\<rparr>"
  have ok': "pipe_ring_ok ?p d" using ok h k(2) by (auto simp: pipe_ring_ok_def intro!: dvd_mod dvd_add)
  have "((?b + k) mod ?n + ?z + (used p - k)) mod ?n = (?b + ?z + used p) mod ?n"
  proof -
    have "((?b + k) mod ?n + ?z + (used p - k)) mod ?n = (?b + k + ?z + (used p - k)) mod ?n" by (simp add: mod_simps add.assoc)
    then show ?thesis using k(3) by (simp add: add.commute add.left_commute)
  qed
  then have u: "used ?p = used p - k" using used_eqI[OF ok', of "used p - k"] h(9,10) by simp
  have "pipe_bytes ?p = drop k (pipe_bytes p)"
    using u h(1) k(3) by (simp add: pipe_bytes_def ring_drop mod_simps add.commute add.left_commute)
  with pop_copies[OF ok k] ok' show ?thesis by blast
qed

section \<open>Resizing\<close>

text \<open>What is documented of the allocator: a block it returns has the size asked for.\<close>

definition allocates :: "(nat \<Rightarrow> 'a list option) \<Rightarrow> bool" where
  "allocates malloc = (\<forall>n b. malloc n = Some b \<longrightarrow> length b = n)"

lemma copy_spec:
  assumes ok: "pipe_ring_ok p d" and l: "used p + elem_size p \<le> length new"
  shows "\<exists>rest. copy_pipe_into_new_buf (make_snapshot p) d new =
     Some (used p + elem_size p, ring d (bufend p) (begin_ptr p) (used p + elem_size p) @ rest) \<and>
     length new = used p + elem_size p + length rest"
proof -
  let ?n = "bufend p" and ?z = "elem_size p" and ?b = "begin_ptr p" and ?e = "end_ptr p"
  let ?k = "used p + ?z"
  note h = ring_okD[OF ok]
  have s: "s_bufend (make_snapshot p) = ?n" "s_end (make_snapshot p) = ?e" "s_begin (make_snapshot p) = ?b"
    by (simp_all add: make_snapshot_def)
  have "copy_pipe_into_new_buf (make_snapshot p) d new = Some (?k, ring d ?n ?b ?k @ drop ?k new)"
  proof (cases "?b \<ge> ?e")
    case True
    then have k: "?k = ?n - ?b + ?e" using h(3,6,8) by (simp add: used_def)
    have kn: "?k \<le> ?n" using bytes_in_use_eq(2)[OF ok] h(4) by simp
    have r: "ring d ?n ?b ?k = drop ?b d @ take ?e d" using ring_wrap[of d ?n ?b ?k] h(2,6) k kn by simp
    have u: "usz (int ?n - int ?b) = ?n - ?b" using h(5,6) by (simp add: usz_small)
    have "read_bytes ?b (?n - ?b) d = Some (drop ?b d)" "read_bytes 0 ?e d = Some (take ?e d)"
      using h(2,6,7) by (simp_all add: read_bytes_def)
    moreover have "?n - ?b \<le> length new" "?n - ?b + ?e \<le> length new" "?n - ?b + ?e = ?k" using l k by simp_all
    ultimately show ?thesis using True h(2,6,7) unfolding r
      by (simp add: copy_pipe_into_new_buf_def wraps_around_def s u offset_memcpy_def del: add_diff_assoc2 diff_add_assoc2)
  next
    case False
    have e: "?e = ?b + ?k"
    proof -
      have "?b + ?z \<le> ?e" using False dvd_gap[of ?z ?b ?e] h(12,13) by simp
      then have "?e + ?n - ?b - ?z = ?n + (?e - ?b - ?z)" by simp
      then have "used p = (?e - ?b - ?z) mod ?n" unfolding used_def by (simp only: mod_add_self1)
      then show ?thesis using h(7) \<open>?b + ?z \<le> ?e\<close> by simp
    qed
    have r: "ring d ?n ?b ?k = take ?k (drop ?b d)" using ring_flat[of d ?n ?b ?k] h(2,7) e by simp
    have u: "usz (int ?e - int ?b) = ?k" using h(5,7) e by (simp add: usz_small)
    have "read_bytes ?b ?k d = Some (take ?k (drop ?b d))" using h(2,7) e by (simp add: read_bytes_def)
    moreover have "length (take ?k (drop ?b d)) = ?k" using h(2,7) e by simp
    ultimately show ?thesis using False l unfolding r
      by (simp add: copy_pipe_into_new_buf_def wraps_around_def s u offset_memcpy_def del: length_take)
  qed
  with l show ?thesis by (intro exI[of _ "drop ?k new"]) simp
qed

lemma resize_spec:
  assumes ok: "pipe_ring_ok p d" and al: "allocates malloc"
    and sz: "m = min new_size (max_cap p)" "min_cap p < m" "elem_size p dvd m" "m + elem_size p < 2 ^ 63" "used p < m"
    and mem: "malloc (m + elem_size p) = Some nb"
    and as: "nd \<or> check_invariants p \<and> m + elem_size p \<le> max_cap p"
  shows "\<exists>p' d'. resize_buffer nd malloc new_size p = Some p' \<and> pipe_ring_ok p' d' \<and> pipe_bytes p' = pipe_bytes p \<and>
     bufend p' = m + elem_size p \<and> p' = p\<lparr>end_ptr := end_ptr p', begin_ptr := 0, buffer := buffer p', bufend := bufend p'\<rparr> \<and>
     (check_invariants p \<and> m + elem_size p \<le> max_cap p \<longrightarrow> check_invariants p')"
proof -
  let ?z = "elem_size p" and ?n = "bufend p" and ?u = "used p"
  note h = ring_okD[OF ok]
  have len: "length nb = m + ?z" using al mem by (simp add: allocates_def)
  have uz: "?u + ?z \<le> m" using dvd_gap[OF bytes_in_use_eq(3)[OF ok] sz(3,5)] .
  obtain rest where c: "copy_pipe_into_new_buf (make_snapshot p) d nb = Some (?u + ?z, ring d ?n (begin_ptr p) (?u + ?z) @ rest)"
    "length nb = ?u + ?z + length rest" using copy_spec[OF ok, of nb] len uz by auto
  let ?d = "ring d ?n (begin_ptr p) (?u + ?z) @ rest"
  let ?p = "p\<lparr>end_ptr := ?u + ?z, begin_ptr := 0, buffer := Some ?d, bufend := m + ?z\<rparr>"
  have ok': "pipe_ring_ok ?p ?d"
    using h sz(3,4) len c(2) uz bytes_in_use_eq(3)[OF ok] by (simp add: pipe_ring_ok_def)
  have u': "used ?p = ?u" using used_eqI[OF ok', of ?u] uz h(3) by (simp add: add.commute)
  have z: "?z mod (m + ?z) = ?z" using uz h(3) by simp
  have "pipe_bytes ?p = take ?u (drop ?z ?d)"
    using ring_flat[of ?d "m + ?z" ?z ?u] len c(2) uz u' z by (simp add: pipe_bytes_def)
  also have "\<dots> = drop ?z (ring d ?n (begin_ptr p) (?u + ?z))" by simp
  also have "\<dots> = pipe_bytes p" using ring_drop[of ?z "?u + ?z" d ?n "begin_ptr p"] h(1) by (simp add: pipe_bytes_def)
  finally have bytes: "pipe_bytes ?p = pipe_bytes p" .
  have ci: "check_invariants ?p" if "check_invariants p" "m + ?z \<le> max_cap p"
  proof -
    have "bytes_in_use (make_snapshot ?p) = ?u" "capacity (make_snapshot ?p) = m"
      using bytes_in_use_eq(1)[OF ok'] u' capacity_eq[OF ok'] by simp_all
    moreover have "usz (int m + int ?z) = m + ?z" using sz(4) by (simp add: usz_small nat_add_distrib)
    ultimately show ?thesis using that h(1,3) sz(2,4) uz
      by (simp add: check_invariants_def in_bounds_def Let_def usz_nat) (simp add: make_snapshot_def)
  qed
  have mn: "(if new_size \<ge> max_cap p then max_cap p else new_size) = m" "used p \<le> new_size" using sz(1,5) by auto
  have u64: "usz (int (m + ?z)) = m + ?z" by (rule usz_nat) (use sz(4) in simp)
  have "resize_buffer nd malloc new_size p = Some ?p"
    using as ci h(1) sz(2) mem c(1) bytes_in_use_eq(1)[OF ok] mn(2) u64
    by (simp only: resize_buffer_def mn(1) Let_def) (auto simp: assertume_def)
  then show ?thesis using ok' bytes ci by (intro exI[of _ ?p] exI[of _ ?d]) simp
qed

text \<open>
  Growing for \<open>k\<close> more bytes.  Far from the limit the buffer afterwards has room for them.  Close to
  the limit this holds up to the limit itself, provided assertions are compiled out and the limit is
  a multiple of the element size that exceeds \<open>min_cap\<close>.
\<close>

definition far_from_limit :: "'a pipe \<Rightarrow> nat \<Rightarrow> bool" where
  "far_from_limit p k = (2 * (used p + k + elem_size p) + elem_size p \<le> max_cap p)"

definition sane_limit :: "'a pipe \<Rightarrow> bool" where
  "sane_limit p = (elem_size p dvd max_cap p \<and> min_cap p < max_cap p \<and> used p < max_cap p)"

lemma pow2_elems:
  assumes "0 < z" "z dvd need" "0 < need" "2 * (need + z) < 2 ^ 62"
  shows "\<exists>w. next_pow2 nd (of_nat (need div z + 1)) = Some w \<and> need + z \<le> unat w * z \<and> unat w * z < 2 * (need + z)"
proof -
  obtain q where q: "need = z * q" using assms(2) by auto
  then have qz: "0 < q" "need div z = q" using assms(1,3) by auto
  have "q + 1 \<le> (q + 1) * z" using assms(1) by (cases z) auto
  also have "\<dots> = need + z" using q by (simp add: algebra_simps)
  finally have lt: "q + 1 < 2 ^ 63" using assms(4) by simp
  obtain j where j: "j \<le> 63" "next_pow2 nd (of_nat (q + 1)) = Some (of_nat (2 ^ j))" "q + 1 \<le> 2 ^ j" "\<forall>i. q + 1 \<le> 2 ^ i \<longrightarrow> j \<le> i"
    using next_pow2_spec[of "q + 1" nd] lt by auto
  have w: "unat (of_nat (2 ^ j) :: 64 word) = 2 ^ j"
    using j(1) by (simp add: unsigned_of_nat take_bit_nat_eq_self del: of_nat_power)
  obtain i where i: "j = Suc i" using j(3) qz(1) by (cases j) auto
  then have "\<not> q + 1 \<le> 2 ^ i" using j(4) by force
  then have "(2 :: nat) ^ j < 2 * (q + 1)" using i by simp
  then have "2 ^ j * z < 2 * (q + 1) * z" using assms(1) by (rule mult_less_mono1)
  moreover have "(q + 1) * z \<le> 2 ^ j * z" using j(3) by (rule mult_le_mono1)
  ultimately have "need + z \<le> 2 ^ j * z" "2 ^ j * z < 2 * (need + z)" using q by (simp_all add: algebra_simps)
  with j(2) w qz(2) show ?thesis by (intro exI[of _ "of_nat (2 ^ j)"]) simp
qed

lemma grow_spec:
  assumes ok: "pipe_ring_ok p d" and al: "allocates malloc" "\<And>n. malloc n \<noteq> None"
    and k: "0 < k" "elem_size p dvd k" "2 * (used p + k + elem_size p) < 2 ^ 62" and mc: "min_cap p \<le> bufend p"
    and lim: "far_from_limit p k \<and> (nd \<or> check_invariants p) \<or> nd \<and> sane_limit p"
  shows "\<exists>p' d'. grow nd malloc (bufend p - elem_size p) k p = Some p' \<and> pipe_ring_ok p' d' \<and> pipe_bytes p' = pipe_bytes p \<and>
     min (used p + k) (max_cap p) \<le> bufend p' - elem_size p \<and> min_cap p \<le> bufend p' \<and>
     p' = p\<lparr>end_ptr := end_ptr p', begin_ptr := begin_ptr p', buffer := buffer p', bufend := bufend p'\<rparr> \<and>
     (far_from_limit p k \<and> check_invariants p \<longrightarrow> check_invariants p')"
proof -
  let ?z = "elem_size p" and ?need = "used p + k"
  note h = ring_okD[OF ok]
  have u: "usz (int (bytes_in_use (make_snapshot p) + k)) = ?need"
    using bytes_in_use_eq(1)[OF ok] k(3) by (simp only:) (rule usz_nat, simp)
  show ?thesis
  proof (cases "?need \<le> bufend p - ?z")
    case True
    then have "grow nd malloc (bufend p - ?z) k p = Some p" using u by (simp add: grow_def Let_def)
    with ok mc True show ?thesis by (intro exI[of _ p] exI[of _ d]) simp
  next
    case False
    have "?z dvd ?need" using bytes_in_use_eq(3)[OF ok] k(2) by simp
    then obtain w where w: "next_pow2 nd (of_nat (?need div ?z + 1)) = Some w" "?need + ?z \<le> unat w * ?z" "unat w * ?z < 2 * (?need + ?z)"
      using pow2_elems[of ?z ?need nd] h(3) k(1,3) by auto
    define new m where "new = unat w * ?z" and "m = min new (max_cap p)"
    have mp: "min_cap p < m" "?z dvd m" "m + ?z < 2 ^ 63" "used p < m" "min ?need (max_cap p) \<le> m"
      "far_from_limit p k \<Longrightarrow> m + ?z \<le> max_cap p"
      using lim w(2,3) mc False h(3,4) k(1,3)
      by (auto simp: m_def new_def sane_limit_def far_from_limit_def min_def)
    obtain nb where nb: "malloc (m + ?z) = Some nb" using al(2)[of "m + ?z"] by auto
    have as: "nd \<or> check_invariants p \<and> m + ?z \<le> max_cap p" using lim mp(6) by auto
    have us: "usz (int (unat w * ?z)) = new" unfolding new_def by (rule usz_nat) (use w(3) k(3) in simp)
    obtain p' d' where p': "resize_buffer nd malloc new p = Some p'" "pipe_ring_ok p' d'" "pipe_bytes p' = pipe_bytes p"
      "bufend p' = m + ?z" "p' = p\<lparr>end_ptr := end_ptr p', begin_ptr := 0, buffer := buffer p', bufend := bufend p'\<rparr>"
      "check_invariants p \<and> m + ?z \<le> max_cap p \<longrightarrow> check_invariants p'"
      using resize_spec[OF ok al(1) m_def mp(1-4) nb as] by blast
    have "grow nd malloc (bufend p - ?z) k p = Some p'"
      using False w(1) p'(1) by (simp only: grow_def u Let_def us bind.bind_lunit if_True not_le)
    moreover have "p' = p\<lparr>end_ptr := end_ptr p', begin_ptr := begin_ptr p', buffer := buffer p', bufend := bufend p'\<rparr>"
      using p'(5) by (metis pipe.select_convs pipe.surjective pipe.update_convs)
    ultimately show ?thesis using p' mp(1,5,6) by (intro exI[of _ p'] exI[of _ d']) simp
  qed
qed

section \<open>A new pipe\<close>

lemma pipe_new_spec:
  assumes z: "0 < z" "DEFAULT_MINCAP * z < 2 ^ 63" "(limit + 1) * z < 2 ^ 63"
    and mem: "allocates malloc" "malloc (DEFAULT_MINCAP * z) \<noteq> None"
  shows "\<exists>p d. pipe_new nd True malloc (bl, el, cpush, cpop) z limit = Some (Some p) \<and> pipe_ring_ok p d \<and> pipe_bytes p = [] \<and>
     check_invariants p \<and> elem_size p = z \<and> bufend p = DEFAULT_MINCAP * z \<and> min_cap p = DEFAULT_MINCAP * z \<and>
     producer_refcount p = 1 \<and> consumer_refcount p = 1 \<and> begin_lock p = bl \<and> end_lock p = el \<and> just_pushed p = cpush \<and> just_popped p = cpop \<and>
     (if limit = 0 then max_cap p = 2 ^ 64 - 1
      else \<exists>k. max_cap p = 2 ^ k \<and> (\<forall>j. max ((limit + 1) * z) (DEFAULT_MINCAP * z) \<le> 2 ^ j \<longleftrightarrow> k \<le> j))"
proof -
  let ?cap = "DEFAULT_MINCAP * z" and ?lim = "(limit + 1) * z"
  have u: "usz (int ?cap) = ?cap" "usz (int ?lim) = ?lim"
    by (rule usz_nat[OF less_trans[OF z(2)]], simp, rule usz_nat[OF less_trans[OF z(3)]], simp)
  obtain buf where buf: "malloc ?cap = Some buf" "length buf = ?cap" using mem by (auto simp: allocates_def)
  have m: "0 < max ?lim ?cap" "max ?lim ?cap < 2 ^ 63" using z by (simp_all add: DEFAULT_MINCAP_def)
  obtain k where k: "k \<le> 63" "next_pow2 nd (of_nat (max ?lim ?cap)) = Some (of_nat (2 ^ k))" "max ?lim ?cap \<le> 2 ^ k"
    "\<And>j. max ?lim ?cap \<le> 2 ^ j \<Longrightarrow> k \<le> j" using next_pow2_spec[OF m, of nd] by blast
  have "(2 :: nat) ^ k < 2 ^ 64" by (rule power_strict_increasing) (use k(1) in simp_all)
  then have uk: "unat (of_nat (2 ^ k) :: 64 word) = 2 ^ k" unfolding unat_of_nat by (intro mod_less) simp
  have iff: "max ?lim ?cap \<le> 2 ^ j \<longleftrightarrow> k \<le> j" for j
    by (metis k(3,4) le_trans one_le_numeral power_increasing)
  define mc where "mc = (if limit = 0 then 2 ^ 64 - 1 else 2 ^ k :: nat)"
  have mc: "(if limit \<noteq> 0 then map_option unat (next_pow2 nd (of_nat (max ?lim ?cap))) else Some (2 ^ 64 - 1)) = Some mc"
    "?cap \<le> mc" using k(2,3) uk z(2) by (simp_all add: mc_def)
  let ?p = "\<lparr>elem_size = z, min_cap = ?cap, max_cap = mc, buffer = Some buf, bufend = ?cap, begin_ptr = 0, end_ptr = z,
     producer_refcount = 1, consumer_refcount = 1, begin_lock = bl, end_lock = el, just_pushed = cpush, just_popped = cpop\<rparr>"
  have ok: "pipe_ring_ok ?p buf" using buf(2) z by (simp add: pipe_ring_ok_def DEFAULT_MINCAP_def)
  have inv: "check_invariants ?p" using check_invariants_iff[OF ok] u mc(2) by simp
  have "used ?p = 0" by (simp add: used_def)
  then have "pipe_bytes ?p = []" by (simp add: pipe_bytes_def)
  moreover have "pipe_new nd True malloc (bl, el, cpush, cpop) z limit = Some (Some ?p)"
    unfolding pipe_new_def u Let_def mc(1) using z(1) buf(1) inv by (simp add: assertume_def)
  ultimately show ?thesis using ok inv iff by (intro exI[of _ ?p] exI[of _ buf]) (auto simp: mc_def)
qed

end
