(* ===== verification/Pipe_Sync.thy ===== *)
theory Pipe_Sync
  imports Pipe Monitor
begin

text \<open>
  The calls of \<^verbatim>\<open>pipe.c\<close>, built for fibers: the byte ring of theory \<open>Pipe\<close> under its two
  mutexes and two condition variables.  A call that switches away ends the step with the rest of
  its work still to do; the functions whose names end in \<open>_again\<close>, \<open>_locked\<close>, \<open>_grown\<close> and so on
  are the points where it goes on.
\<close>

section \<open>The operations\<close>

text \<open>Sequencing: what follows a call runs when the call returns without switching away.\<close>

definition and_then ::
  "('r outcome \<times> sys \<times> 'q) option \<Rightarrow> ('r \<Rightarrow> sys \<Rightarrow> 'q \<Rightarrow> ('t outcome \<times> sys \<times> 'q) option) \<Rightarrow> ('t outcome \<times> sys \<times> 'q) option" where
  "and_then x f =
     (case x of None \<Rightarrow> None
      | Some (r, s, q) \<Rightarrow> (case r of Switched \<Rightarrow> Some (Switched, s, q) | Returns v \<Rightarrow> f v s q))"

definition locked :: "nat \<Rightarrow> nat \<Rightarrow> sys \<Rightarrow> 'q \<Rightarrow> (bool outcome \<times> sys \<times> 'q) option" where
  "locked th mtx s q = map_option (\<lambda>(r, s). (r, s, q)) (fiber_mutex_lock th mtx s)"

definition unlocked :: "nat \<Rightarrow> nat \<Rightarrow> sys \<Rightarrow> sys option" where
  "unlocked th mtx s = map_option snd (fiber_mutex_unlock th mtx s)"

definition broadcast :: "nat \<Rightarrow> nat \<Rightarrow> sys \<Rightarrow> sys option" where
  "broadcast th cv s = map_option snd (fiber_cond_broadcast th cv s)"

definition signal :: "nat \<Rightarrow> nat \<Rightarrow> sys \<Rightarrow> sys option" where
  "signal th cv s = map_option snd (fiber_cond_signal th cv s)"

partial_function (option) wait_while ::
  "nat \<Rightarrow> nat \<Rightarrow> nat \<Rightarrow> ('q \<Rightarrow> bool) \<Rightarrow> sys \<Rightarrow> 'q \<Rightarrow> (unit outcome \<times> sys \<times> 'q) option" where
  "wait_while th mtx cv blocked s q =
     (if blocked q then
        Option.bind (fiber_cond_wait th cv mtx s) (\<lambda>(r, s).
          case r of Switched \<Rightarrow> Some (Switched, s, q) | Returns _ \<Rightarrow> wait_while th mtx cv blocked s q)
      else Some (Returns (), s, q))"

subsection \<open>Handles\<close>

definition pipe_init_locks :: "'a pipe \<Rightarrow> sys \<Rightarrow> sys" where
  "pipe_init_locks p s =
     (let s = (if one_n_model s then s else snd (mutex_init (begin_lock p) s));
          s = (if one_n_model s then s else snd (mutex_init (end_lock p) s));
          s = snd (fiber_cond_init (just_pushed p) s)
      in snd (fiber_cond_init (just_popped p) s))"

definition pipe_producer_new :: "nat \<Rightarrow> sys \<Rightarrow> 'a pipe \<Rightarrow> (unit outcome \<times> sys \<times> 'a pipe) option" where
  "pipe_producer_new th s p = and_then (locked th (begin_lock p) s p) (\<lambda>_ s p. do {
     let p = p\<lparr>producer_refcount := usz (int (producer_refcount p) + 1)\<rparr>;
     s \<leftarrow> unlocked th (begin_lock p) s;
     Some (Returns (), s, p)
   })"

definition pipe_consumer_new :: "nat \<Rightarrow> sys \<Rightarrow> 'a pipe \<Rightarrow> (unit outcome \<times> sys \<times> 'a pipe) option" where
  "pipe_consumer_new th s p = and_then (locked th (end_lock p) s p) (\<lambda>_ s p. do {
     let p = p\<lparr>consumer_refcount := usz (int (consumer_refcount p) + 1)\<rparr>;
     s \<leftarrow> unlocked th (end_lock p) s;
     Some (Returns (), s, p)
   })"

text \<open>The last handle is gone: the objects are destroyed and the memory is freed.\<close>

definition deallocate :: "bool \<Rightarrow> sys \<Rightarrow> 'a pipe \<Rightarrow> (sys \<times> 'a pipe) option" where
  "deallocate nd s p = do {
     _ \<leftarrow> assertume nd (producer_refcount p = 0);
     _ \<leftarrow> assertume nd (consumer_refcount p = 0);
     let s = (if one_n_model s then s else snd (mutex_destroy (begin_lock p) s));
     let s = (if one_n_model s then s else snd (mutex_destroy (end_lock p) s));
     let s = snd (fiber_cond_destroy (just_pushed p) s);
     let s = snd (fiber_cond_destroy (just_popped p) s);
     Some (s, p\<lparr>buffer := None\<rparr>)
   }"

text \<open>The first half of the calls that give a handle back; each returns the new count.\<close>

definition drop_producer :: "bool \<Rightarrow> nat \<Rightarrow> sys \<Rightarrow> 'a pipe \<Rightarrow> (nat outcome \<times> sys \<times> 'a pipe) option" where
  "drop_producer nd th s p = and_then (locked th (begin_lock p) s p) (\<lambda>_ s p. do {
     _ \<leftarrow> assertume nd (producer_refcount p > 0);
     let p = p\<lparr>producer_refcount := usz (int (producer_refcount p) - 1)\<rparr>;
     s \<leftarrow> unlocked th (begin_lock p) s;
     Some (Returns (producer_refcount p), s, p)
   })"

definition drop_consumer :: "bool \<Rightarrow> nat \<Rightarrow> sys \<Rightarrow> 'a pipe \<Rightarrow> (nat outcome \<times> sys \<times> 'a pipe) option" where
  "drop_consumer nd th s p = and_then (locked th (end_lock p) s p) (\<lambda>_ s p. do {
     _ \<leftarrow> assertume nd (consumer_refcount p > 0);
     let p = p\<lparr>consumer_refcount := usz (int (consumer_refcount p) - 1)\<rparr>;
     s \<leftarrow> unlocked th (end_lock p) s;
     Some (Returns (consumer_refcount p), s, p)
   })"

text \<open>The calls below return whether the pipe has been deallocated.\<close>

definition pipe_free :: "bool \<Rightarrow> nat \<Rightarrow> sys \<Rightarrow> 'a pipe \<Rightarrow> (bool outcome \<times> sys \<times> 'a pipe) option" where
  "pipe_free nd th s p =
     and_then (drop_producer nd th s p) (\<lambda>np s p.
     and_then (drop_consumer nd th s p) (\<lambda>nc s p.
       if nc = 0 then do {
         let p = p\<lparr>buffer := None\<rparr>;
         if np > 0 then do { s \<leftarrow> broadcast th (just_popped p) s; Some (Returns False, s, p) }
         else do { (s, p) \<leftarrow> deallocate nd s p; Some (Returns True, s, p) }
       }
       else if np = 0 then do { s \<leftarrow> broadcast th (just_pushed p) s; Some (Returns False, s, p) }
       else Some (Returns False, s, p)))"

text \<open>Reading the other count, under its lock.\<close>

definition read_locked :: "nat \<Rightarrow> nat \<Rightarrow> ('a pipe \<Rightarrow> nat) \<Rightarrow> sys \<Rightarrow> 'a pipe \<Rightarrow> (nat outcome \<times> sys \<times> 'a pipe) option" where
  "read_locked th mtx f s p = and_then (locked th mtx s p) (\<lambda>_ s p. do {
     s \<leftarrow> unlocked th mtx s;
     Some (Returns (f p), s, p)
   })"

definition pipe_producer_free :: "bool \<Rightarrow> nat \<Rightarrow> sys \<Rightarrow> 'a pipe \<Rightarrow> (bool outcome \<times> sys \<times> 'a pipe) option" where
  "pipe_producer_free nd th s p =
     and_then (drop_producer nd th s p) (\<lambda>np s p.
       if np = 0 then
         and_then (read_locked th (end_lock p) consumer_refcount s p) (\<lambda>nc s p.
           if nc > 0 then do { s \<leftarrow> broadcast th (just_pushed p) s; Some (Returns False, s, p) }
           else do { (s, p) \<leftarrow> deallocate nd s p; Some (Returns True, s, p) })
       else Some (Returns False, s, p))"

text \<open>Giving back a consumer handle does not check the count before it goes down.\<close>

definition pipe_consumer_free :: "bool \<Rightarrow> nat \<Rightarrow> sys \<Rightarrow> 'a pipe \<Rightarrow> (bool outcome \<times> sys \<times> 'a pipe) option" where
  "pipe_consumer_free nd th s p =
     and_then (drop_consumer True th s p) (\<lambda>nc s p.
       if nc = 0 then
         and_then (read_locked th (begin_lock p) producer_refcount s p) (\<lambda>np s p.
           if np > 0 then do { s \<leftarrow> broadcast th (just_popped p) s; Some (Returns False, s, p) }
           else do { (s, p) \<leftarrow> deallocate nd s p; Some (Returns True, s, p) })
       else Some (Returns False, s, p))"

subsection \<open>Push\<close>

definition no_room :: "'a pipe \<Rightarrow> bool" where
  "no_room p = (bytes_in_use (make_snapshot p) = max_cap p \<and> consumer_refcount p > 0)"

abbreviation wait_for_room :: "nat \<Rightarrow> sys \<Rightarrow> 'a pipe \<Rightarrow> (unit outcome \<times> sys \<times> 'a pipe) option" where
  "wait_for_room th s p \<equiv> wait_while th (end_lock p) (just_popped p) no_room s p"

text \<open>Copy what fits, release the end of the pipe, notify; the result is the number of bytes left.\<close>

definition push_copy :: "bool \<Rightarrow> nat \<Rightarrow> 'a list \<Rightarrow> nat \<Rightarrow> sys \<Rightarrow> 'a pipe \<Rightarrow> (nat outcome \<times> sys \<times> 'a pipe) option" where
  "push_copy nd th elems bytes s p = do {
     let snap = make_snapshot p;
     let pushed = min bytes (usz (int (max_cap p) - int (bytes_in_use snap)));
     d \<leftarrow> buffer p;
     (e, d) \<leftarrow> process_push nd snap elems pushed d;
     let p = p\<lparr>end_ptr := e, buffer := Some d\<rparr>;
     s \<leftarrow> unlocked th (end_lock p) s;
     _ \<leftarrow> assertume nd (pushed > 0);
     s \<leftarrow> (if pushed = elem_size p then signal th (just_pushed p) s else broadcast th (just_pushed p) s);
     Some (Returns (bytes - pushed), s, p)
   }"

definition push_grown :: "bool \<Rightarrow> (nat \<Rightarrow> 'a list option) \<Rightarrow> nat \<Rightarrow> nat \<Rightarrow> 'a list \<Rightarrow> nat \<Rightarrow> sys \<Rightarrow> 'a pipe \<Rightarrow> (nat outcome \<times> sys \<times> 'a pipe) option" where
  "push_grown nd malloc th cap elems bytes s p = do {
     p \<leftarrow> grow nd malloc cap bytes p;
     s \<leftarrow> unlocked th (begin_lock p) s;
     push_copy nd th elems bytes s p
   }"

definition push_locked :: "bool \<Rightarrow> (nat \<Rightarrow> 'a list option) \<Rightarrow> nat \<Rightarrow> 'a list \<Rightarrow> nat \<Rightarrow> sys \<Rightarrow> 'a pipe \<Rightarrow> (nat outcome \<times> sys \<times> 'a pipe) option" where
  "push_locked nd malloc th elems bytes s p =
     (if consumer_refcount p = 0 then do {
        s \<leftarrow> unlocked th (end_lock p) s;
        Some (Returns 0, s, p)
      }
      else if usz (int (bytes_in_use (make_snapshot p) + bytes)) > capacity (make_snapshot p)
      then and_then (locked th (begin_lock p) s p) (\<lambda>_ s p'. push_grown nd malloc th (capacity (make_snapshot p)) elems bytes s p')
      else push_copy nd th elems bytes s p)"

definition push_again :: "bool \<Rightarrow> (nat \<Rightarrow> 'a list option) \<Rightarrow> nat \<Rightarrow> 'a list \<Rightarrow> nat \<Rightarrow> sys \<Rightarrow> 'a pipe \<Rightarrow> (nat outcome \<times> sys \<times> 'a pipe) option" where
  "push_again nd malloc th elems bytes s p =
     and_then (wait_for_room th s p) (\<lambda>_ s p. push_locked nd malloc th elems bytes s p)"

definition push_once :: "bool \<Rightarrow> (nat \<Rightarrow> 'a list option) \<Rightarrow> nat \<Rightarrow> 'a list \<Rightarrow> nat \<Rightarrow> sys \<Rightarrow> 'a pipe \<Rightarrow> (nat outcome \<times> sys \<times> 'a pipe) option" where
  "push_once nd malloc th elems bytes s p =
     and_then (locked th (end_lock p) s p) (\<lambda>_ s p. push_again nd malloc th elems bytes s p)"

partial_function (option) pipe_push_bytes ::
  "bool \<Rightarrow> (nat \<Rightarrow> 'a list option) \<Rightarrow> nat \<Rightarrow> 'a list \<Rightarrow> nat \<Rightarrow> sys \<Rightarrow> 'a pipe \<Rightarrow> (unit outcome \<times> sys \<times> 'a pipe) option" where
  "pipe_push_bytes nd malloc th elems bytes s p =
     (if bytes = 0 then Some (Returns (), s, p)
      else case push_once nd malloc th elems bytes s p of
        None \<Rightarrow> None
      | Some (r, s, p) \<Rightarrow>
         (case r of Switched \<Rightarrow> Some (Switched, s, p)
          | Returns rest \<Rightarrow> pipe_push_bytes nd malloc th (drop (bytes - rest) elems) rest s p))"

definition pipe_push :: "bool \<Rightarrow> (nat \<Rightarrow> 'a list option) \<Rightarrow> nat \<Rightarrow> 'a list \<Rightarrow> nat \<Rightarrow> sys \<Rightarrow> 'a pipe \<Rightarrow> (unit outcome \<times> sys \<times> 'a pipe) option" where
  "pipe_push nd malloc th elems n s p = pipe_push_bytes nd malloc th elems (usz (int (n * pipe_elem_size p))) s p"

subsection \<open>Pop\<close>

definition no_elements :: "'a pipe \<Rightarrow> bool" where
  "no_elements p = (bytes_in_use (make_snapshot p) = 0 \<and> producer_refcount p > 0)"

abbreviation wait_for_elements :: "nat \<Rightarrow> sys \<Rightarrow> 'a pipe \<Rightarrow> (unit outcome \<times> sys \<times> 'a pipe) option" where
  "wait_for_elements th s p \<equiv> wait_while th (begin_lock p) (just_pushed p) no_elements s p"

text \<open>The end of \<open>trim_buffer\<close>, with both locks held.\<close>

definition trim_locked :: "bool \<Rightarrow> (nat \<Rightarrow> 'a list option) \<Rightarrow> nat \<Rightarrow> sys \<Rightarrow> 'a pipe \<Rightarrow> (unit outcome \<times> sys \<times> 'a pipe) option" where
  "trim_locked nd malloc th s p = do {
     let cap = capacity (make_snapshot p);
     p \<leftarrow> (if bytes_in_use (make_snapshot p) \<le> cap div 4 then resize_buffer nd malloc (cap div 2) p else Some p);
     s \<leftarrow> unlocked th (begin_lock p) s;
     s \<leftarrow> unlocked th (end_lock p) s;
     Some (Returns (), s, p)
   }"

definition trim_buffer :: "bool \<Rightarrow> (nat \<Rightarrow> 'a list option) \<Rightarrow> nat \<Rightarrow> snapshot \<Rightarrow> sys \<Rightarrow> 'a pipe \<Rightarrow> (unit outcome \<times> sys \<times> 'a pipe) option" where
  "trim_buffer nd malloc th snap s p =
     (if bytes_in_use snap > capacity snap div 4 then do {
        s \<leftarrow> unlocked th (begin_lock p) s;
        Some (Returns (), s, p)
      }
      else do {
        s \<leftarrow> unlocked th (begin_lock p) s;
        and_then (locked th (end_lock p) s p) (\<lambda>_ s p.
        and_then (locked th (begin_lock p) s p) (\<lambda>_ s p. trim_locked nd malloc th s p))
      })"

definition pop_notify :: "bool \<Rightarrow> nat \<Rightarrow> 'a list \<Rightarrow> sys \<Rightarrow> 'a pipe \<Rightarrow> ('a list outcome \<times> sys \<times> 'a pipe) option" where
  "pop_notify nd th popped s p = do {
     _ \<leftarrow> assertume nd (popped \<noteq> []);
     s \<leftarrow> (if length popped = elem_size p then signal th (just_popped p) s else broadcast th (just_popped p) s);
     Some (Returns popped, s, p)
   }"

definition pop_locked :: "bool \<Rightarrow> (nat \<Rightarrow> 'a list option) \<Rightarrow> nat \<Rightarrow> nat \<Rightarrow> sys \<Rightarrow> 'a pipe \<Rightarrow> ('a list outcome \<times> sys \<times> 'a pipe) option" where
  "pop_locked nd malloc th requested s p =
     (let snap = make_snapshot p; bytes_used = bytes_in_use snap in
      if bytes_used = 0 then do {
        s \<leftarrow> unlocked th (begin_lock p) s;
        Some (Returns [], s, p)
      }
      else do {
        _ \<leftarrow> assertume nd (check_invariants p);
        d \<leftarrow> buffer p;
        (popped, snap) \<leftarrow> pop_without_locking nd snap (min requested bytes_used) d;
        let p = p\<lparr>begin_ptr := s_begin snap\<rparr>;
        _ \<leftarrow> assertume nd (check_invariants p);
        and_then (trim_buffer nd malloc th snap s p) (\<lambda>_ s p. pop_notify nd th popped s p)
      })"

definition pop_again :: "bool \<Rightarrow> (nat \<Rightarrow> 'a list option) \<Rightarrow> nat \<Rightarrow> nat \<Rightarrow> sys \<Rightarrow> 'a pipe \<Rightarrow> ('a list outcome \<times> sys \<times> 'a pipe) option" where
  "pop_again nd malloc th requested s p =
     and_then (wait_for_elements th s p) (\<lambda>_ s p. pop_locked nd malloc th requested s p)"

definition pipe_pop_bytes :: "bool \<Rightarrow> (nat \<Rightarrow> 'a list option) \<Rightarrow> nat \<Rightarrow> nat \<Rightarrow> sys \<Rightarrow> 'a pipe \<Rightarrow> ('a list outcome \<times> sys \<times> 'a pipe) option" where
  "pipe_pop_bytes nd malloc th requested s p =
     (if requested = 0 then Some (Returns [], s, p)
      else and_then (locked th (begin_lock p) s p) (\<lambda>_ s p. pop_again nd malloc th requested s p))"

text \<open>The loop of \<open>pipe_pop\<close>: it collects bytes until none is left to ask for or none comes.\<close>

partial_function (option) pop_all ::
  "bool \<Rightarrow> (nat \<Rightarrow> 'a list option) \<Rightarrow> nat \<Rightarrow> 'a list \<Rightarrow> nat \<Rightarrow> sys \<Rightarrow> 'a pipe \<Rightarrow> ('a list outcome \<times> sys \<times> 'a pipe) option" where
  "pop_all nd malloc th got bytes_left s p =
     (case pipe_pop_bytes nd malloc th bytes_left s p of
        None \<Rightarrow> None
      | Some (r, s, p) \<Rightarrow>
         (case r of Switched \<Rightarrow> Some (Switched, s, p)
          | Returns x \<Rightarrow>
              if x \<noteq> [] \<and> bytes_left - length x \<noteq> 0 then pop_all nd malloc th (got @ x) (bytes_left - length x) s p
              else Some (Returns (got @ x), s, p)))"

text \<open>Both calls return the bytes they have copied and the number of elements.\<close>

definition pipe_pop :: "bool \<Rightarrow> (nat \<Rightarrow> 'a list option) \<Rightarrow> nat \<Rightarrow> nat \<Rightarrow> sys \<Rightarrow> 'a pipe \<Rightarrow> (('a list \<times> nat) outcome \<times> sys \<times> 'a pipe) option" where
  "pipe_pop nd malloc th n s p =
     and_then (pop_all nd malloc th [] (usz (int (n * pipe_elem_size p))) s p)
       (\<lambda>x s p. Some (Returns (x, length x div pipe_elem_size p), s, p))"

definition pipe_pop_eager :: "bool \<Rightarrow> (nat \<Rightarrow> 'a list option) \<Rightarrow> nat \<Rightarrow> nat \<Rightarrow> sys \<Rightarrow> 'a pipe \<Rightarrow> (('a list \<times> nat) outcome \<times> sys \<times> 'a pipe) option" where
  "pipe_pop_eager nd malloc th n s p =
     and_then (pipe_pop_bytes nd malloc th (usz (int (n * pipe_elem_size p))) s p)
       (\<lambda>x s p. Some (Returns (x, length x div pipe_elem_size p), s, p))"

subsection \<open>Reserve\<close>

definition lock_pipe :: "bool \<Rightarrow> nat \<Rightarrow> sys \<Rightarrow> 'a pipe \<Rightarrow> (unit outcome \<times> sys \<times> 'a pipe) option" where
  "lock_pipe nd th s p =
     and_then (locked th (end_lock p) s p) (\<lambda>_ s p.
     and_then (locked th (begin_lock p) s p) (\<lambda>_ s p. do {
       _ \<leftarrow> assertume nd (check_invariants p);
       Some (Returns (), s, p)
     }))"

definition unlock_pipe :: "bool \<Rightarrow> nat \<Rightarrow> sys \<Rightarrow> 'a pipe \<Rightarrow> sys option" where
  "unlock_pipe nd th s p = do {
     _ \<leftarrow> assertume nd (check_invariants p);
     s \<leftarrow> unlocked th (begin_lock p) s;
     unlocked th (end_lock p) s
   }"

definition while_locked :: "bool \<Rightarrow> nat \<Rightarrow> ('a pipe \<Rightarrow> 'a pipe option) \<Rightarrow> sys \<Rightarrow> 'a pipe \<Rightarrow> (unit outcome \<times> sys \<times> 'a pipe) option" where
  "while_locked nd th stuff s p = and_then (lock_pipe nd th s p) (\<lambda>_ s p. do {
     p \<leftarrow> stuff p;
     s \<leftarrow> unlock_pipe nd th s p;
     Some (Returns (), s, p)
   })"

definition reserve_locked :: "bool \<Rightarrow> (nat \<Rightarrow> 'a list option) \<Rightarrow> nat \<Rightarrow> nat \<Rightarrow> 'a pipe \<Rightarrow> 'a pipe option" where
  "reserve_locked nd malloc bytes mcap p =
     (if bytes \<le> bytes_in_use (make_snapshot p) then Some p
      else resize_buffer nd malloc bytes (p\<lparr>min_cap := min bytes mcap\<rparr>))"

definition pipe_reserve :: "bool \<Rightarrow> (nat \<Rightarrow> 'a list option) \<Rightarrow> nat \<Rightarrow> nat \<Rightarrow> sys \<Rightarrow> 'a pipe \<Rightarrow> (unit outcome \<times> sys \<times> 'a pipe) option" where
  "pipe_reserve nd malloc th n s p =
     (let bytes = usz (int (n * pipe_elem_size p));
          bytes = (if bytes = 0 then DEFAULT_MINCAP else bytes);
          mcap = max_cap p
      in while_locked nd th (reserve_locked nd malloc bytes mcap) s p)"

section \<open>Calls that find both locks free\<close>

definition pipe_idle :: "sys \<Rightarrow> (chain_id \<rightharpoonup> nat list) \<Rightarrow> nat \<Rightarrow> nat \<Rightarrow> 'a pipe \<Rightarrow> bool" where
  "pipe_idle s Q th c p =
     (queues s Q \<and> quiet s \<and> current_task s th = Some c \<and> begin_lock p \<noteq> end_lock p \<and>
      unowned s (begin_lock p) \<and> unowned s (end_lock p) \<and>
      (\<not> one_n_model s \<longrightarrow> Q (MutexWaitq (begin_lock p)) = Some [] \<and> Q (MutexWaitq (end_lock p)) = Some []))"

text \<open>
  What the operations carry along while they hold locks: \<open>H\<close> are the mutexes the caller holds, the
  others stay as they are in \<open>s0\<close>.
\<close>

definition holding :: "sys \<Rightarrow> (chain_id \<rightharpoonup> nat list) \<Rightarrow> nat \<Rightarrow> nat \<Rightarrow> nat set \<Rightarrow> sys \<Rightarrow> bool" where
  "holding s0 Q th c H s =
     (queues s Q \<and> tcbs s = tcbs s0 \<and> current_task s = current_task s0 \<and> sems s = sems s0 \<and> frame s0 s \<and>
      quiet s0 \<and> current_task s0 th = Some c \<and>
      (\<not> one_n_model s0 \<longrightarrow>
         (\<forall>k. k \<in> H \<longrightarrow> holder (mutexes s k) = Some c \<and> reentries (mutexes s k) = 1) \<and>
         (\<forall>k. k \<notin> H \<longrightarrow> holder (mutexes s0 k) = None \<longrightarrow> holder (mutexes s k) = None)))"

lemma holding_refl: "queues s Q \<Longrightarrow> quiet s \<Longrightarrow> current_task s th = Some c \<Longrightarrow> holding s Q th c {} s"
  by (simp add: holding_def)

lemma holding_unowned: "holding s0 Q th c H s \<Longrightarrow> unowned s0 k \<Longrightarrow> k \<notin> H \<Longrightarrow> unowned s k"
  by (cases "one_n_model s0") (auto simp: holding_def unowned_def frame_def)

lemma holding_lock:
  assumes h: "holding s0 Q th c H s" and k: "unowned s0 k" "k \<notin> H"
  shows "locked th k s q = Some (Returns True, entered c k s, q)" "holding s0 Q th c (insert k H) (entered c k s)"
proof -
  have "current_task s th = Some c" "quiet s" using h by (auto simp: holding_def frame_def quiet_def)
  then show "locked th k s q = Some (Returns True, entered c k s, q)"
    using lock_enters[OF _ _ holding_unowned[OF h k]] by (simp add: locked_def)
  show "holding s0 Q th c (insert k H) (entered c k s)"
    using h by (auto simp: holding_def frame_def) (auto simp: entered_def unowned_def)
qed

lemma holding_unlock:
  assumes h: "holding s0 Q th c H s" and k: "k \<in> H" "\<not> one_n_model s0 \<longrightarrow> Q (MutexWaitq k) = Some []"
  shows "\<exists>s'. unlocked th k s = Some s' \<and> holding s0 Q th c (H - {k}) s'"
proof -
  have one: "one_n_model s = one_n_model s0" using h by (simp add: holding_def frame_def)
  have pre: "current_task s th = Some c" "quiet s" "queues s Q"
    "\<not> one_n_model s \<longrightarrow> holder (mutexes s k) = Some c \<and> reentries (mutexes s k) = 1"
    using h k(1) one by (auto simp: holding_def frame_def quiet_def split: if_splits)
  obtain s' where s': "fiber_mutex_unlock th k s = Some (True, s')" "queues s' Q" "tcbs s' = tcbs s" "unowned s' k"
    "\<And>j. j \<noteq> k \<Longrightarrow> mutexes s' j = mutexes s j" "current_task s' = current_task s" "sems s' = sems s" "frame s s'"
    using unlock_leaves[OF pre(1-3) _ pre(4)] k(2) one by metis
  have "frame s0 s'" using h frame_trans[OF _ s'(8)] by (auto simp: holding_def)
  moreover have "(j \<in> H - {k} \<longrightarrow> holder (mutexes s' j) = Some c \<and> reentries (mutexes s' j) = 1) \<and>
      (j \<notin> H - {k} \<longrightarrow> holder (mutexes s0 j) = None \<longrightarrow> holder (mutexes s' j) = None)"
    if "\<not> one_n_model s0" for j
    using h s'(4,5,8) that unfolding holding_def by (cases "j = k") (auto simp: unowned_def frame_def)
  ultimately have "holding s0 Q th c (H - {k}) s'" using h s' by (simp add: holding_def)
  with s'(1) show ?thesis by (simp add: unlocked_def)
qed

lemma holding_notify:
  assumes h: "holding s0 Q th c {} s" and w: "Q (CondWaitq cv) = Some ws" and ok: "waiters_ok s0 Q c (CondWaitq cv)"
    and lc: "Q (LocalChain th) = Some []" and cw: "c \<notin> set ws"
  shows "\<exists>s' Q'. (if one then signal th cv s else broadcast th cv s) = Some s' \<and> queues s' Q' \<and> frame s0 s' \<and>
     Q' (CondWaitq cv) = Some (if one then tl ws else []) \<and> (\<forall>k. unowned s0 k \<longrightarrow> unowned s' k) \<and> current_task s' = current_task s0"
proof -
  have pre: "current_task s th = Some c" "quiet s" "queues s Q" "frame s0 s" using h by (auto simp: holding_def frame_def quiet_def)
  have ok': "waiters_ok s Q c (CondWaitq cv)"
    using ok h by (simp add: waiters_ok_def wakeable_def homed_def flags_def holding_def frame_def)
  have c: "\<exists>Q'. calm (\<lambda>_. if one then signal th cv else broadcast th cv) () 0 Q s Q' \<and>
      Q' (CondWaitq cv) = Some (if one then tl ws else [])"
    using calm_signal[OF pre(1-3) w ok', of "()" 0] calm_broadcast[OF pre(1-3) w ok' lc cw, of "\<lambda>_. True" "()" 0]
    by (auto simp: calm_def notify_one_def notify_all_def signal_def broadcast_def)
  then obtain s' Q' where s': "(if one then signal th cv s else broadcast th cv s) = Some s'" "queues s' Q'"
    "mutexes s' = mutexes s" "current_task s' = current_task s" "frame s s'" "Q' (CondWaitq cv) = Some (if one then tl ws else [])"
    by (auto simp: calm_def split: if_splits)
  have "unowned s' k" if "unowned s0 k" for k
    using holding_unowned[OF h that] s'(3,5) by (auto simp: unowned_def frame_def)
  moreover have "frame s0 s'" using frame_trans[OF pre(4) s'(5)] .
  moreover have "current_task s = current_task s0" using h by (simp add: holding_def)
  ultimately show ?thesis using s' by (intro exI[of _ s'] exI[of _ Q']) simp
qed

section \<open>Push\<close>

text \<open>The state of the waiting consumers or producers that a call may wake.\<close>

definition wakes :: "sys \<Rightarrow> (chain_id \<rightharpoonup> nat list) \<Rightarrow> nat \<Rightarrow> nat \<Rightarrow> nat \<Rightarrow> nat list \<Rightarrow> bool" where
  "wakes s Q th c cv ws =
     (Q (CondWaitq cv) = Some ws \<and> waiters_ok s Q c (CondWaitq cv) \<and> Q (LocalChain th) = Some [] \<and> c \<notin> set ws)"

lemma push_copy_spec:
  assumes h: "holding s0 Q th c {end_lock p} s" and ok: "pipe_ring_ok p d"
    and mq: "\<not> one_n_model s0 \<longrightarrow> Q (MutexWaitq (end_lock p)) = Some []" and w: "wakes s0 Q th c (just_pushed p) ws"
    and k: "0 < k" "elem_size p dvd k" "k \<le> length elems" "used p + k \<le> bufend p - elem_size p" "used p + k \<le> max_cap p" "max_cap p < 2 ^ 64"
  shows "\<exists>s' e' d' Q'. push_copy nd th elems k s p = Some (Returns 0, s', p\<lparr>end_ptr := e', buffer := Some d'\<rparr>) \<and>
     pipe_ring_ok (p\<lparr>end_ptr := e', buffer := Some d'\<rparr>) d' \<and> pipe_bytes (p\<lparr>end_ptr := e', buffer := Some d'\<rparr>) = pipe_bytes p @ take k elems \<and>
     queues s' Q' \<and> Q' (CondWaitq (just_pushed p)) = Some (if k = elem_size p then tl ws else []) \<and>
     (\<forall>x. unowned s0 x \<longrightarrow> unowned s' x) \<and> current_task s' = current_task s0 \<and> frame s0 s'"
proof -
  have u: "min k (usz (int (max_cap p) - int (bytes_in_use (make_snapshot p)))) = k"
    using bytes_in_use_eq(1)[OF ok] k(5,6) by (simp add: usz_small)
  obtain e' d' where e: "process_push nd (make_snapshot p) elems k d = Some (e', d')"
    "pipe_ring_ok (p\<lparr>end_ptr := e', buffer := Some d'\<rparr>) d'"
    "pipe_bytes (p\<lparr>end_ptr := e', buffer := Some d'\<rparr>) = pipe_bytes p @ take k elems"
    using push_bytes[OF ok k(1-4)] by blast
  obtain s1 where s1: "unlocked th (end_lock p) s = Some s1" "holding s0 Q th c {} s1"
    using holding_unlock[OF h _ mq] by auto
  have w': "Q (CondWaitq (just_pushed p)) = Some ws" "waiters_ok s0 Q c (CondWaitq (just_pushed p))" "Q (LocalChain th) = Some []" "c \<notin> set ws"
    using w by (simp_all add: wakes_def)
  obtain s' Q' where s': "(if k = elem_size p then signal th (just_pushed p) s1 else broadcast th (just_pushed p) s1) = Some s'"
    "queues s' Q'" "frame s0 s'" "Q' (CondWaitq (just_pushed p)) = Some (if k = elem_size p then tl ws else [])"
    "\<forall>x. unowned s0 x \<longrightarrow> unowned s' x" "current_task s' = current_task s0"
    using holding_notify[OF s1(2) w', of "k = elem_size p"] by blast
  have "push_copy nd th elems k s p = Some (Returns 0, s', p\<lparr>end_ptr := e', buffer := Some d'\<rparr>)"
    unfolding push_copy_def Let_def u
    using ring_okD(1)[OF ok] e(1) s1(1) s'(1) k(1) by (cases "k = elem_size p") (simp_all add: assertume_def)
  with e(2,3) s'(2-6) show ?thesis by blast
qed

text \<open>With the end lock held, the push has room for its bytes: it grows the buffer under both locks when it is too small.\<close>

lemma push_locked_room:
  assumes h: "holding s Q th c {end_lock p} t" and b: "unowned s (begin_lock p)" "begin_lock p \<noteq> end_lock p"
      "\<not> one_n_model s \<longrightarrow> Q (MutexWaitq (begin_lock p)) = Some []"
    and ok: "pipe_ring_ok p d" and al: "allocates malloc" "\<And>n. malloc n \<noteq> None" and cons: "0 < consumer_refcount p"
    and k: "0 < k" "elem_size p dvd k" "2 * (used p + k + elem_size p) < 2 ^ 62" and mc: "min_cap p \<le> bufend p"
    and lim: "far_from_limit p k" "nd \<or> check_invariants p"
  shows "\<exists>s1 p1 d1. push_locked nd malloc th elems k t p = push_copy nd th elems k s1 p1 \<and>
    holding s Q th c {end_lock p} s1 \<and> pipe_ring_ok p1 d1 \<and> pipe_bytes p1 = pipe_bytes p \<and>
    used p + k \<le> bufend p1 - elem_size p \<and> min_cap p \<le> bufend p1 \<and>
    p1 = p\<lparr>end_ptr := end_ptr p1, begin_ptr := begin_ptr p1, buffer := buffer p1, bufend := bufend p1\<rparr> \<and>
    (check_invariants p \<longrightarrow> check_invariants p1)"
proof -
  let ?b = "begin_lock p" and ?e = "end_lock p"
  have cap: "capacity (make_snapshot p) = bufend p - elem_size p" using capacity_eq[OF ok] .
  have need: "usz (int (bytes_in_use (make_snapshot p) + k)) = used p + k"
    using bytes_in_use_eq(1)[OF ok] k(3) by (simp only:) (rule usz_nat, simp)
  show ?thesis
  proof (cases "used p + k > bufend p - elem_size p")
    case True
    have l2: "locked th ?b t p = Some (Returns True, entered c ?b t, p)" "holding s Q th c {?b, ?e} (entered c ?b t)"
      using holding_lock[OF h b(1)] b(2) by auto
    obtain p1 d1 where p1: "grow nd malloc (bufend p - elem_size p) k p = Some p1" "pipe_ring_ok p1 d1" "pipe_bytes p1 = pipe_bytes p"
      "min (used p + k) (max_cap p) \<le> bufend p1 - elem_size p" "min_cap p \<le> bufend p1"
      "p1 = p\<lparr>end_ptr := end_ptr p1, begin_ptr := begin_ptr p1, buffer := buffer p1, bufend := bufend p1\<rparr>"
      "far_from_limit p k \<and> check_invariants p \<longrightarrow> check_invariants p1"
      using grow_spec[OF ok al k mc, of nd] lim by blast
    have b1: "begin_lock p1 = ?b" using p1(6) by (metis pipe.select_convs(10) pipe.surjective pipe.update_convs(4-7))
    obtain s1 where s1: "unlocked th ?b (entered c ?b t) = Some s1" "holding s Q th c ({?b, ?e} - {?b}) s1"
      using holding_unlock[OF l2(2) _ b(3)] by auto
    have "{?b, ?e} - {?b} = {?e}" using b(2) by auto
    moreover have "push_locked nd malloc th elems k t p = push_copy nd th elems k s1 p1"
      using cons True need cap l2(1) p1(1) s1(1) b1 by (simp add: push_locked_def and_then_def push_grown_def)
    ultimately show ?thesis using s1(2) p1 lim(1)
      by (intro exI[of _ s1] exI[of _ p1] exI[of _ d1]) (simp add: far_from_limit_def)
  next
    case False
    then have "push_locked nd malloc th elems k t p = push_copy nd th elems k t p"
      using cons need cap by (simp add: push_locked_def)
    with h ok mc False show ?thesis by (intro exI[of _ t] exI[of _ p] exI[of _ d]) simp
  qed
qed

lemma push_once_spec:
  assumes i: "pipe_idle s Q th c p" and ok: "pipe_ring_ok p d" and w: "wakes s Q th c (just_pushed p) ws"
    and al: "allocates malloc" "\<And>n. malloc n \<noteq> None" and cons: "0 < consumer_refcount p"
    and k: "0 < k" "elem_size p dvd k" "k \<le> length elems" "2 * (used p + k + elem_size p) < 2 ^ 62" and mc: "min_cap p \<le> bufend p"
    and lim: "far_from_limit p k" "nd \<or> check_invariants p" "max_cap p < 2 ^ 64"
  shows "\<exists>s' p' d' Q'. push_once nd malloc th elems k s p = Some (Returns 0, s', p') \<and>
     pipe_ring_ok p' d' \<and> pipe_bytes p' = pipe_bytes p @ take k elems \<and> min_cap p' \<le> bufend p' \<and>
     queues s' Q' \<and> Q' (CondWaitq (just_pushed p)) = Some (if k = elem_size p then tl ws else []) \<and>
     begin_lock p' = begin_lock p \<and> end_lock p' = end_lock p \<and> elem_size p' = elem_size p \<and>
     unowned s' (begin_lock p) \<and> unowned s' (end_lock p) \<and> current_task s' = current_task s \<and> frame s s' \<and>
     (check_invariants p \<longrightarrow> check_invariants p')"
proof -
  let ?b = "begin_lock p" and ?e = "end_lock p"
  have q: "holding s Q th c {} s" "unowned s ?b" "unowned s ?e" "?b \<noteq> ?e"
    "\<not> one_n_model s \<longrightarrow> Q (MutexWaitq ?b) = Some []" "\<not> one_n_model s \<longrightarrow> Q (MutexWaitq ?e) = Some []"
    using i holding_refl by (auto simp: pipe_idle_def)
  have l1: "locked th ?e s p = Some (Returns True, entered c ?e s, p)" "holding s Q th c {?e} (entered c ?e s)"
    using holding_lock[OF q(1,3)] by auto
  have lk: "used p + k \<le> max_cap p" "used p \<noteq> max_cap p" using lim(1) k(1) by (simp_all add: far_from_limit_def)
  have nr: "\<not> no_room p" using lk(2) bytes_in_use_eq(1)[OF ok] by (simp add: no_room_def)
  have once: "push_once nd malloc th elems k s p = push_locked nd malloc th elems k (entered c ?e s) p"
    using l1(1) nr by (simp add: push_once_def push_again_def and_then_def, subst wait_while.simps) simp
  from push_locked_room[OF l1(2) q(2,4,5) ok al cons k(1,2,4) mc lim(1,2)]
  obtain s1 p1 d1 where p1: "push_locked nd malloc th elems k (entered c ?e s) p = push_copy nd th elems k s1 p1" "holding s Q th c {?e} s1"
    "pipe_ring_ok p1 d1" "pipe_bytes p1 = pipe_bytes p" "used p + k \<le> bufend p1 - elem_size p" "min_cap p \<le> bufend p1"
    "p1 = p\<lparr>end_ptr := end_ptr p1, begin_ptr := begin_ptr p1, buffer := buffer p1, bufend := bufend p1\<rparr>"
    "check_invariants p \<longrightarrow> check_invariants p1" by blast
  have f: "elem_size p1 = elem_size p" "max_cap p1 = max_cap p" "end_lock p1 = ?e" "begin_lock p1 = ?b" "just_pushed p1 = just_pushed p" "min_cap p1 = min_cap p"
    by (subst p1(7), simp)+
  have u1: "used p1 = used p" using p1(4) pipe_bytes_length by metis
  obtain s' e' d' Q' where r: "push_copy nd th elems k s1 p1 = Some (Returns 0, s', p1\<lparr>end_ptr := e', buffer := Some d'\<rparr>)"
    "pipe_ring_ok (p1\<lparr>end_ptr := e', buffer := Some d'\<rparr>) d'" "pipe_bytes (p1\<lparr>end_ptr := e', buffer := Some d'\<rparr>) = pipe_bytes p1 @ take k elems"
    "queues s' Q'" "Q' (CondWaitq (just_pushed p)) = Some (if k = elem_size p then tl ws else [])"
    "\<forall>x. unowned s x \<longrightarrow> unowned s' x" "current_task s' = current_task s" "frame s s'"
    using push_copy_spec[of s Q th c p1 s1 d1 ws k elems nd] p1(2,3) q(6) w k p1(5) lk(1) lim(3) u1 f by auto
  have "check_invariants p \<longrightarrow> check_invariants (p1\<lparr>end_ptr := e', buffer := Some d'\<rparr>)"
    using p1(8) check_invariants_iff[OF p1(3)] check_invariants_iff[OF r(2)] by simp
  then show ?thesis using once p1(1,4,6) r q(2,3) f
    by (intro exI[of _ s'] exI[of _ "p1\<lparr>end_ptr := e', buffer := Some d'\<rparr>"] exI[of _ d'] exI[of _ Q']) simp
qed

lemma pipe_push_spec:
  assumes i: "pipe_idle s Q th c p" and ok: "pipe_ring_ok p d" and w: "wakes s Q th c (just_pushed p) ws"
    and al: "allocates malloc" "\<And>n. malloc n \<noteq> None" and cons: "0 < consumer_refcount p"
    and n: "0 < n" "n * elem_size p \<le> length elems" "2 * (used p + n * elem_size p + elem_size p) < 2 ^ 62" and mc: "min_cap p \<le> bufend p"
    and lim: "far_from_limit p (n * elem_size p)" "nd \<or> check_invariants p" "max_cap p < 2 ^ 64"
  shows "\<exists>s' p' d' Q'. pipe_push nd malloc th elems n s p = Some (Returns (), s', p') \<and>
     pipe_ring_ok p' d' \<and> pipe_bytes p' = pipe_bytes p @ take (n * elem_size p) elems \<and> (check_invariants p \<longrightarrow> check_invariants p') \<and>
     queues s' Q' \<and> Q' (CondWaitq (just_pushed p)) = Some (if n = 1 then tl ws else []) \<and>
     unowned s' (begin_lock p) \<and> unowned s' (end_lock p) \<and> current_task s' = current_task s \<and> frame s s'"
proof -
  note z = ring_okD(3)[OF ok]
  let ?k = "n * elem_size p"
  have k: "0 < ?k" "elem_size p dvd ?k" using n(1) z by simp_all
  have u: "usz (int (n * pipe_elem_size p)) = ?k" unfolding pipe_elem_size_def by (rule usz_nat) (use n(3) in simp)
  obtain s' p' d' Q' where p': "push_once nd malloc th elems ?k s p = Some (Returns 0, s', p')"
    "pipe_ring_ok p' d'" "pipe_bytes p' = pipe_bytes p @ take ?k elems" "check_invariants p \<longrightarrow> check_invariants p'"
    "queues s' Q'" "Q' (CondWaitq (just_pushed p)) = Some (if ?k = elem_size p then tl ws else [])"
    "unowned s' (begin_lock p)" "unowned s' (end_lock p)" "current_task s' = current_task s" "frame s s'"
    using push_once_spec[OF i ok w al cons k n(2,3) mc lim] by blast
  have "pipe_push nd malloc th elems n s p = Some (Returns (), s', p')"
    unfolding pipe_push_def u using p'(1) k(1) by (simp add: pipe_push_bytes.simps[of _ _ _ _ "?k"] pipe_push_bytes.simps[of _ _ _ _ 0])
  moreover have "(?k = elem_size p) = (n = 1)" using z by simp
  ultimately show ?thesis using p'(2-) by (intro exI[of _ s'] exI[of _ p'] exI[of _ d'] exI[of _ Q']) simp
qed

text \<open>Without consumers a push is dropped; at the limit it waits for a pop.\<close>

lemma pipe_push_closed:
  assumes i: "pipe_idle s Q th c p" and cons: "consumer_refcount p = 0" and n: "0 < usz (int (n * elem_size p))"
  shows "\<exists>s'. pipe_push nd malloc th elems n s p = Some (Returns (), s', p) \<and> queues s' Q \<and> frame s s' \<and>
     unowned s' (begin_lock p) \<and> unowned s' (end_lock p) \<and> current_task s' = current_task s"
proof -
  let ?e = "end_lock p" and ?k = "usz (int (n * elem_size p))"
  have q: "holding s Q th c {} s" "unowned s ?e" "unowned s (begin_lock p)" "\<not> one_n_model s \<longrightarrow> Q (MutexWaitq ?e) = Some []"
    using i holding_refl by (auto simp: pipe_idle_def)
  have l1: "locked th ?e s p = Some (Returns True, entered c ?e s, p)" "holding s Q th c {?e} (entered c ?e s)"
    using holding_lock[OF q(1,2)] by auto
  obtain s' where s': "unlocked th ?e (entered c ?e s) = Some s'" "holding s Q th c {} s'"
    using holding_unlock[OF l1(2) _ q(4)] by auto
  have "push_once nd malloc th elems ?k s p = Some (Returns 0, s', p)"
    using l1(1) s'(1) cons
    by (simp add: push_once_def push_again_def and_then_def, subst wait_while.simps) (simp add: no_room_def push_locked_def)
  then have "pipe_push nd malloc th elems n s p = Some (Returns (), s', p)"
    unfolding pipe_push_def pipe_elem_size_def using n
    by (simp add: pipe_push_bytes.simps[of _ _ _ _ ?k] pipe_push_bytes.simps[of _ _ _ _ 0] del: of_nat_mult)
  then show ?thesis using s'(2) holding_unowned[OF s'(2) q(2)] holding_unowned[OF s'(2) q(3)] by (auto simp: holding_def)
qed

lemma pipe_push_waits:
  assumes i: "pipe_idle s Q th c p" and ok: "pipe_ring_ok p d" and e: "running s Q th dd m us c" "c \<noteq> m"
    and w: "Q (CondWaitq (just_popped p)) = Some ws" and full: "used p = max_cap p" "0 < consumer_refcount p"
    and n: "0 < usz (int (n * elem_size p))"
  shows "\<exists>s' Q'. pipe_push nd malloc th elems n s p = Some (Switched, s', p) \<and> queues s' Q' \<and> frame s s' \<and>
     Q' (CondWaitq (just_popped p)) = Some (ws @ [c]) \<and> unowned s' (end_lock p) \<and> current_task s' th \<noteq> Some c"
proof -
  let ?e = "end_lock p" and ?k = "usz (int (n * elem_size p))"
  have en: "enterable s Q th dd m us c ?e" using i e by (auto simp: enterable_def pipe_idle_def)
  have l1: "locked th ?e s p = Some (Returns True, entered c ?e s, p)"
    using i lock_enters[of s th c ?e] by (simp add: locked_def pipe_idle_def)
  have "no_room p" using full bytes_in_use_eq(1)[OF ok] by (simp add: no_room_def)
  moreover obtain s' Q' where s': "fiber_cond_wait th (just_popped p) ?e (entered c ?e s) = Some (Switched, s')" "queues s' Q'" "frame s s'"
    "Q' (CondWaitq (just_popped p)) = Some (ws @ [c])" "unowned s' ?e" "current_task s' th \<noteq> Some c"
    using entered_waits[OF en w] by blast
  ultimately have "push_once nd malloc th elems ?k s p = Some (Switched, s', p)"
    using l1 by (simp add: push_once_def push_again_def and_then_def, subst wait_while.simps) simp
  then have "pipe_push nd malloc th elems n s p = Some (Switched, s', p)"
    unfolding pipe_push_def pipe_elem_size_def using n by (simp add: pipe_push_bytes.simps[of _ _ _ _ ?k] del: of_nat_mult)
  with s' show ?thesis by blast
qed

section \<open>Pop\<close>

text \<open>
  When the pipe is shrunk, half the capacity is a whole number of elements.  It holds for the sizes
  the pipe grows to, a power of two elements plus the sentinel.
\<close>

definition even_half :: "'a pipe \<Rightarrow> bool" where
  "even_half p = ((bufend p - elem_size p) div 2 \<le> min_cap p \<or> elem_size p dvd (bufend p - elem_size p) div 2)"

lemma trim_resize:
  assumes ok: "pipe_ring_ok p d" and al: "allocates malloc" "\<And>n. malloc n \<noteq> None" and ev: "even_half p"
    and inv: "check_invariants p" and low: "used p \<le> (bufend p - elem_size p) div 4"
  shows "\<exists>p' d'. resize_buffer nd malloc ((bufend p - elem_size p) div 2) p = Some p' \<and> pipe_ring_ok p' d' \<and>
     pipe_bytes p' = pipe_bytes p \<and> check_invariants p' \<and>
     p' = p\<lparr>end_ptr := end_ptr p', begin_ptr := begin_ptr p', buffer := buffer p', bufend := bufend p'\<rparr>"
proof -
  let ?z = "elem_size p" and ?n = "bufend p"
  let ?h = "(?n - ?z) div 2"
  note h = ring_okD[OF ok]
  have ci: "min_cap p \<le> max_cap p" "?n \<le> max_cap p" using inv check_invariants_iff[OF ok] by auto
  have hn: "?h + ?z \<le> ?n" using h(4) by simp
  have uh: "used p \<le> ?h" using low by simp
  show ?thesis
  proof (cases "?h \<le> min_cap p")
    case True
    then have "(if ?h \<ge> max_cap p then max_cap p else ?h) \<le> min_cap p" by auto
    then have "resize_buffer nd malloc ?h p = Some p"
      using inv uh bytes_in_use_eq(1)[OF ok] by (simp only: resize_buffer_def Let_def assertume_def) simp
    with ok inv show ?thesis by (intro exI[of _ p] exI[of _ d]) simp
  next
    case False
    have m: "?h = min ?h (max_cap p)" "min_cap p < ?h" "?z dvd ?h" "?h + ?z < 2 ^ 63" "used p < ?h"
      using False ev hn ci h(3,5) low by (auto simp: even_half_def)
    obtain nb where nb: "malloc (?h + ?z) = Some nb" using al(2)[of "?h + ?z"] by auto
    have as: "nd \<or> check_invariants p \<and> ?h + ?z \<le> max_cap p" using inv hn ci by simp
    obtain p' d' where p': "resize_buffer nd malloc ?h p = Some p'" "pipe_ring_ok p' d'" "pipe_bytes p' = pipe_bytes p"
      "p' = p\<lparr>end_ptr := end_ptr p', begin_ptr := 0, buffer := buffer p', bufend := bufend p'\<rparr>" "check_invariants p'"
      using resize_spec[OF ok al(1) m nb as] as inv hn ci(2) by (metis order_trans)
    have "p' = p\<lparr>end_ptr := end_ptr p', begin_ptr := begin_ptr p', buffer := buffer p', bufend := bufend p'\<rparr>"
      using p'(4) by (metis pipe.select_convs pipe.surjective pipe.update_convs)
    with p' show ?thesis by blast
  qed
qed

lemma trim_spec:
  assumes h: "holding s0 Q th c {begin_lock p} s" and i: "pipe_idle s0 Q th c p" and ok: "pipe_ring_ok p d"
    and al: "allocates malloc" "\<And>n. malloc n \<noteq> None" and ev: "even_half p" and inv: "check_invariants p"
  shows "\<exists>s' p' d'. trim_buffer nd malloc th (make_snapshot p) s p = Some (Returns (), s', p') \<and> holding s0 Q th c {} s' \<and>
     pipe_ring_ok p' d' \<and> pipe_bytes p' = pipe_bytes p \<and> check_invariants p' \<and>
     p' = p\<lparr>end_ptr := end_ptr p', begin_ptr := begin_ptr p', buffer := buffer p', bufend := bufend p'\<rparr>"
proof -
  let ?b = "begin_lock p" and ?e = "end_lock p"
  have q: "unowned s0 ?b" "unowned s0 ?e" "?b \<noteq> ?e"
    "\<not> one_n_model s0 \<longrightarrow> Q (MutexWaitq ?b) = Some []" "\<not> one_n_model s0 \<longrightarrow> Q (MutexWaitq ?e) = Some []"
    using i by (auto simp: pipe_idle_def)
  obtain s1 where s1: "unlocked th ?b s = Some s1" "holding s0 Q th c {} s1" using holding_unlock[OF h _ q(4)] by auto
  have e: "bytes_in_use (make_snapshot p) = used p" "capacity (make_snapshot p) = bufend p - elem_size p"
    using bytes_in_use_eq(1)[OF ok] capacity_eq[OF ok] by simp_all
  show ?thesis
  proof (cases "used p > (bufend p - elem_size p) div 4")
    case True
    then have "trim_buffer nd malloc th (make_snapshot p) s p = Some (Returns (), s1, p)"
      using s1(1) e by (simp add: trim_buffer_def)
    with s1(2) ok inv show ?thesis by (intro exI[of _ s1] exI[of _ p] exI[of _ d]) simp
  next
    case False
    have l2: "locked th ?e s1 p = Some (Returns True, entered c ?e s1, p)" "holding s0 Q th c {?e} (entered c ?e s1)"
      using holding_lock[OF s1(2) q(2)] by auto
    have l3: "locked th ?b (entered c ?e s1) p = Some (Returns True, entered c ?b (entered c ?e s1), p)"
      "holding s0 Q th c {?b, ?e} (entered c ?b (entered c ?e s1))"
      using holding_lock[OF l2(2) q(1)] q(3) by auto
    obtain p' d' where p': "resize_buffer nd malloc ((bufend p - elem_size p) div 2) p = Some p'" "pipe_ring_ok p' d'"
      "pipe_bytes p' = pipe_bytes p" "check_invariants p'"
      "p' = p\<lparr>end_ptr := end_ptr p', begin_ptr := begin_ptr p', buffer := buffer p', bufend := bufend p'\<rparr>"
      using trim_resize[OF ok al ev inv, of nd] False by auto
    have f: "begin_lock p' = ?b" "end_lock p' = ?e" by (subst p'(5), simp)+
    obtain s4 where s4: "unlocked th ?b (entered c ?b (entered c ?e s1)) = Some s4" "holding s0 Q th c {?e} s4"
      using holding_unlock[OF l3(2) _ q(4)] q(3) by (auto simp: insert_Diff_if)
    obtain s5 where s5: "unlocked th ?e s4 = Some s5" "holding s0 Q th c {} s5" using holding_unlock[OF s4(2) _ q(5)] by auto
    have "trim_buffer nd malloc th (make_snapshot p) s p = Some (Returns (), s5, p')"
      using False s1(1) e l2(1) l3(1) p'(1) s4(1) s5(1) f by (simp add: trim_buffer_def and_then_def trim_locked_def Let_def)
    with s5(2) p' show ?thesis by blast
  qed
qed

lemma pop_spec:
  assumes i: "pipe_idle s Q th c p" and ok: "pipe_ring_ok p d" and w: "wakes s Q th c (just_popped p) ws"
    and al: "allocates malloc" "\<And>n. malloc n \<noteq> None" and ev: "even_half p" and inv: "check_invariants p"
    and k: "0 < k" "elem_size p dvd k" and ne: "pipe_bytes p \<noteq> []"
  shows "\<exists>s' p' d' Q'. pipe_pop_bytes nd malloc th k s p = Some (Returns (take k (pipe_bytes p)), s', p') \<and>
     pipe_ring_ok p' d' \<and> pipe_bytes p' = drop k (pipe_bytes p) \<and> check_invariants p' \<and>
     queues s' Q' \<and> Q' (CondWaitq (just_popped p)) = Some (if min k (used p) = elem_size p then tl ws else []) \<and>
     unowned s' (begin_lock p) \<and> unowned s' (end_lock p) \<and> current_task s' = current_task s \<and> frame s s' \<and>
     elem_size p' = elem_size p"
proof -
  let ?b = "begin_lock p" and ?k = "min k (used p)"
  have q: "holding s Q th c {} s" "unowned s ?b" "unowned s (end_lock p)"
    using i holding_refl by (auto simp: pipe_idle_def)
  have l1: "locked th ?b s p = Some (Returns True, entered c ?b s, p)" "holding s Q th c {?b} (entered c ?b s)"
    using holding_lock[OF q(1,2)] by auto
  have u: "0 < used p" "bytes_in_use (make_snapshot p) = used p"
    using ne bytes_in_use_eq(1)[OF ok] by (metis length_greater_0_conv pipe_bytes_length, simp)
  have kk: "0 < ?k" "elem_size p dvd ?k" "?k \<le> used p" using k u(1) bytes_in_use_eq(3)[OF ok] by (auto simp: min_def)
  obtain b' where b': "pop_without_locking nd (make_snapshot p) ?k d = Some (take ?k (pipe_bytes p), (make_snapshot p)\<lparr>s_begin := b'\<rparr>)"
    "pipe_ring_ok (p\<lparr>begin_ptr := b'\<rparr>) d" "pipe_bytes (p\<lparr>begin_ptr := b'\<rparr>) = drop ?k (pipe_bytes p)"
    using pop_bytes[OF ok kk] by blast
  let ?p = "p\<lparr>begin_ptr := b'\<rparr>"
  have tk: "take ?k (pipe_bytes p) = take k (pipe_bytes p)" "drop ?k (pipe_bytes p) = drop k (pipe_bytes p)"
    by (auto simp: min_def)
  have sn: "(make_snapshot p)\<lparr>s_begin := b'\<rparr> = make_snapshot ?p" by (simp add: make_snapshot_def pipe_elem_size_def)
  have inv': "check_invariants ?p" using inv check_invariants_iff[OF ok] check_invariants_iff[OF b'(2)] by simp
  have pre: "holding s Q th c {begin_lock ?p} (entered c ?b s)" "pipe_idle s Q th c ?p" "even_half ?p"
    using l1(2) i ev by (simp_all add: pipe_idle_def even_half_def)
  obtain s2 p2 d2 where t: "trim_buffer nd malloc th (make_snapshot ?p) (entered c ?b s) ?p = Some (Returns (), s2, p2)"
    "holding s Q th c {} s2" "pipe_ring_ok p2 d2" "pipe_bytes p2 = pipe_bytes ?p" "check_invariants p2"
    "p2 = ?p\<lparr>end_ptr := end_ptr p2, begin_ptr := begin_ptr p2, buffer := buffer p2, bufend := bufend p2\<rparr>"
    using trim_spec[OF pre(1,2) b'(2) al pre(3) inv', of nd] by blast
  have f: "elem_size p2 = elem_size p" "just_popped p2 = just_popped p" by (subst t(6), simp)+
  have w': "Q (CondWaitq (just_popped p)) = Some ws" "waiters_ok s Q c (CondWaitq (just_popped p))" "Q (LocalChain th) = Some []" "c \<notin> set ws"
    using w by (simp_all add: wakes_def)
  obtain s' Q' where s': "(if ?k = elem_size p then signal th (just_popped p) s2 else broadcast th (just_popped p) s2) = Some s'"
    "queues s' Q'" "frame s s'" "Q' (CondWaitq (just_popped p)) = Some (if ?k = elem_size p then tl ws else [])"
    "\<forall>x. unowned s x \<longrightarrow> unowned s' x" "current_task s' = current_task s"
    using holding_notify[OF t(2) w', of "?k = elem_size p"] by blast
  have len: "length (take k (pipe_bytes p)) = ?k" "take k (pipe_bytes p) \<noteq> []" using ne k(1) by (simp_all add: min.commute)
  have nt: "pop_notify nd th (take k (pipe_bytes p)) s2 p2 = Some (Returns (take k (pipe_bytes p)), s', p2)"
    using s'(1) len f unfolding pop_notify_def by (cases "?k = elem_size p") (simp_all add: assertume_def)
  have "pop_locked nd malloc th k (entered c ?b s) p = Some (Returns (take k (pipe_bytes p)), s', p2)"
    using u ring_okD(1)[OF ok] inv inv' b'(1) t(1) nt
    by (cases nd; simp add: pop_locked_def Let_def assertume_def sn tk and_then_def del: snapshot.update_convs)
      (simp_all add: make_snapshot_def)
  moreover have "\<not> no_elements p" using u by (simp add: no_elements_def)
  ultimately have "pipe_pop_bytes nd malloc th k s p = Some (Returns (take k (pipe_bytes p)), s', p2)"
    using l1(1) k(1) by (simp add: pipe_pop_bytes_def pop_again_def and_then_def, subst wait_while.simps) simp
  then show ?thesis using t(3-5) b'(3) tk(2) s' q(2,3) f(1)
    by (intro exI[of _ s'] exI[of _ p2] exI[of _ d2] exI[of _ Q']) simp
qed

lemma pipe_pop_eager_spec:
  assumes i: "pipe_idle s Q th c p" and ok: "pipe_ring_ok p d" and w: "wakes s Q th c (just_popped p) ws"
    and al: "allocates malloc" "\<And>n. malloc n \<noteq> None" and ev: "even_half p" and inv: "check_invariants p"
    and n: "0 < n" "n * elem_size p < 2 ^ 64" and ne: "pipe_bytes p \<noteq> []"
  shows "\<exists>s' p' d' Q'. pipe_pop_eager nd malloc th n s p =
       Some (Returns (take (n * elem_size p) (pipe_bytes p), min n (used p div elem_size p)), s', p') \<and>
     pipe_ring_ok p' d' \<and> pipe_bytes p' = drop (n * elem_size p) (pipe_bytes p) \<and> check_invariants p' \<and>
     queues s' Q' \<and> Q' (CondWaitq (just_popped p)) = Some (if min n (used p div elem_size p) = 1 then tl ws else []) \<and>
     unowned s' (begin_lock p) \<and> unowned s' (end_lock p) \<and> current_task s' = current_task s \<and> frame s s'"
proof -
  note z = ring_okD(3)[OF ok]
  let ?k = "n * elem_size p"
  have k: "0 < ?k" "elem_size p dvd ?k" using n(1) z by simp_all
  have u: "usz (int (n * pipe_elem_size p)) = ?k" unfolding pipe_elem_size_def by (rule usz_nat[OF n(2)])
  obtain q where q: "used p = q * elem_size p" using bytes_in_use_eq(3)[OF ok] by (auto simp: dvd_def mult.commute)
  have m: "min ?k (used p) = min n q * elem_size p" by (simp add: q min_def)
  obtain s' p' d' Q' where p': "pipe_pop_bytes nd malloc th ?k s p = Some (Returns (take ?k (pipe_bytes p)), s', p')"
    "pipe_ring_ok p' d'" "pipe_bytes p' = drop ?k (pipe_bytes p)" "check_invariants p'"
    "queues s' Q'" "Q' (CondWaitq (just_popped p)) = Some (if min ?k (used p) = elem_size p then tl ws else [])"
    "unowned s' (begin_lock p)" "unowned s' (end_lock p)" "current_task s' = current_task s" "frame s s'" "elem_size p' = elem_size p"
    using pop_spec[OF i ok w al ev inv k ne, of nd] by blast
  have "length (take ?k (pipe_bytes p)) div elem_size p = min n q" using m z by (simp add: min.commute)
  then have "pipe_pop_eager nd malloc th n s p = Some (Returns (take ?k (pipe_bytes p), min n q), s', p')"
    unfolding pipe_pop_eager_def u using p'(1,11) by (simp add: and_then_def pipe_elem_size_def)
  moreover have "(min ?k (used p) = elem_size p) = (min n q = 1)" using z unfolding m by simp
  moreover have "used p div elem_size p = q" using z q by simp
  ultimately show ?thesis using p'(2-) by (intro exI[of _ s'] exI[of _ p'] exI[of _ d'] exI[of _ Q']) simp
qed

text \<open>An empty pipe: the consumer waits, or learns that there are no producers any more.\<close>

lemma pop_waits:
  assumes i: "pipe_idle s Q th c p" and ok: "pipe_ring_ok p d" and e: "running s Q th dd m us c" "c \<noteq> m"
    and w: "Q (CondWaitq (just_pushed p)) = Some ws" and k: "0 < k" and em: "pipe_bytes p = []" "0 < producer_refcount p"
  shows "\<exists>s' Q'. pipe_pop_bytes nd malloc th k s p = Some (Switched, s', p) \<and> queues s' Q' \<and> frame s s' \<and>
     Q' (CondWaitq (just_pushed p)) = Some (ws @ [c]) \<and> unowned s' (begin_lock p) \<and> current_task s' th \<noteq> Some c"
proof -
  let ?b = "begin_lock p"
  have en: "enterable s Q th dd m us c ?b" using i e by (auto simp: enterable_def pipe_idle_def)
  have l1: "locked th ?b s p = Some (Returns True, entered c ?b s, p)"
    using i lock_enters[of s th c ?b] by (simp add: locked_def pipe_idle_def)
  have "no_elements p" using em bytes_in_use_eq(1)[OF ok] pipe_bytes_length[of p] by (simp add: no_elements_def)
  moreover obtain s' Q' where s': "fiber_cond_wait th (just_pushed p) ?b (entered c ?b s) = Some (Switched, s')" "queues s' Q'" "frame s s'"
    "Q' (CondWaitq (just_pushed p)) = Some (ws @ [c])" "unowned s' ?b" "current_task s' th \<noteq> Some c"
    using entered_waits[OF en w] by blast
  ultimately have "pipe_pop_bytes nd malloc th k s p = Some (Switched, s', p)"
    using l1 k by (simp add: pipe_pop_bytes_def pop_again_def and_then_def, subst wait_while.simps) simp
  with s' show ?thesis by blast
qed

lemma pop_ends:
  assumes i: "pipe_idle s Q th c p" and ok: "pipe_ring_ok p d" and k: "0 < k" and em: "pipe_bytes p = []" "producer_refcount p = 0"
  shows "\<exists>s'. pipe_pop_bytes nd malloc th k s p = Some (Returns [], s', p) \<and> queues s' Q \<and> frame s s' \<and>
     unowned s' (begin_lock p) \<and> unowned s' (end_lock p) \<and> current_task s' = current_task s"
proof -
  let ?b = "begin_lock p"
  have q: "holding s Q th c {} s" "unowned s ?b" "unowned s (end_lock p)" "\<not> one_n_model s \<longrightarrow> Q (MutexWaitq ?b) = Some []"
    using i holding_refl by (auto simp: pipe_idle_def)
  have l1: "locked th ?b s p = Some (Returns True, entered c ?b s, p)" "holding s Q th c {?b} (entered c ?b s)"
    using holding_lock[OF q(1,2)] by auto
  obtain s' where s': "unlocked th ?b (entered c ?b s) = Some s'" "holding s Q th c {} s'"
    using holding_unlock[OF l1(2) _ q(4)] by auto
  have z: "bytes_in_use (make_snapshot p) = 0" using em bytes_in_use_eq(1)[OF ok] pipe_bytes_length[of p] by simp
  then have "pop_locked nd malloc th k (entered c ?b s) p = Some (Returns [], s', p)" "\<not> no_elements p"
    using s'(1) em(2) by (simp_all add: pop_locked_def no_elements_def)
  then have "pipe_pop_bytes nd malloc th k s p = Some (Returns [], s', p)"
    using l1(1) k by (simp add: pipe_pop_bytes_def pop_again_def and_then_def, subst wait_while.simps) simp
  then show ?thesis using s'(2) holding_unowned[OF s'(2) q(2)] holding_unowned[OF s'(2) q(3)] by (auto simp: holding_def)
qed

lemma pipe_pop_empty:
  assumes i: "pipe_idle s Q th c p" and ok: "pipe_ring_ok p d" and e: "running s Q th dd m us c" "c \<noteq> m"
    and w: "Q (CondWaitq (just_pushed p)) = Some ws" and n: "0 < n" "n * elem_size p < 2 ^ 64" and em: "pipe_bytes p = []"
  shows "\<exists>s' Q'. pipe_pop_eager nd malloc th n s p = Some (if producer_refcount p = 0 then Returns ([], 0) else Switched, s', p) \<and>
     queues s' Q' \<and> frame s s' \<and> unowned s' (begin_lock p) \<and>
     Q' (CondWaitq (just_pushed p)) = Some (if producer_refcount p = 0 then ws else ws @ [c])"
proof -
  let ?k = "n * elem_size p"
  have u: "usz (int (n * pipe_elem_size p)) = ?k" unfolding pipe_elem_size_def by (rule usz_nat[OF n(2)])
  have k: "0 < ?k" using n(1) ring_okD(3)[OF ok] by simp
  show ?thesis
  proof (cases "producer_refcount p = 0")
    case True
    then obtain s' where "pipe_pop_bytes nd malloc th ?k s p = Some (Returns [], s', p)" "queues s' Q" "frame s s'" "unowned s' (begin_lock p)"
      using pop_ends[OF i ok k em] by blast
    with True w show ?thesis unfolding pipe_pop_eager_def u by (intro exI[of _ s'] exI[of _ Q]) (simp add: and_then_def)
  next
    case False
    then obtain s' Q' where "pipe_pop_bytes nd malloc th ?k s p = Some (Switched, s', p)" "queues s' Q'" "frame s s'"
      "Q' (CondWaitq (just_pushed p)) = Some (ws @ [c])" "unowned s' (begin_lock p)"
      using pop_waits[OF i ok e w k em] by blast
    with False show ?thesis unfolding pipe_pop_eager_def u by (intro exI[of _ s'] exI[of _ Q']) (simp add: and_then_def)
  qed
qed

section \<open>A full pipe whose limit is its initial size\<close>

text \<open>
  \<open>pipe_new\<close> with a small limit and elements whose size is a power of two makes \<open>min_cap\<close>, \<open>max_cap\<close>
  and the size of the buffer equal.  The test for room compares the bytes in use with \<open>max_cap\<close>,
  not with the capacity, which is one element less: a push into the full pipe does not wait, does
  not grow the buffer and overwrites the sentinel.
\<close>

lemma full_ring: "pipe_ring_ok p d \<Longrightarrow> used p = bufend p - elem_size p \<Longrightarrow> begin_ptr p = end_ptr p"
proof -
  assume ok: "pipe_ring_ok p d" and f: "used p = bufend p - elem_size p"
  note h = ring_okD[OF ok]
  have "end_ptr p = (begin_ptr p + bufend p) mod bufend p" using h(4,10) f by simp
  then show ?thesis using h(6) by simp
qed

lemma push_when_full:
  assumes i: "pipe_idle s Q th c p" and ok: "pipe_ring_ok p d" and w: "wakes s Q th c (just_pushed p) ws"
    and cons: "0 < consumer_refcount p" and full: "used p = bufend p - elem_size p"
    and lim: "min_cap p = bufend p" "max_cap p = bufend p" "usz (int (DEFAULT_MINCAP * elem_size p)) \<le> min_cap p"
    and k: "elem_size p \<le> length elems" "2 * (bufend p + elem_size p) < 2 ^ 62"
  shows "\<exists>s' p'. push_once nd malloc th elems (elem_size p) s p = Some (Returns 0, s', p') \<and> pipe_bytes p' = [] \<and> check_invariants p'"
proof -
  let ?b = "begin_lock p" and ?e = "end_lock p" and ?z = "elem_size p" and ?n = "bufend p"
  note h = ring_okD[OF ok]
  have q: "holding s Q th c {} s" "unowned s ?b" "unowned s ?e" "?b \<noteq> ?e"
    "\<not> one_n_model s \<longrightarrow> Q (MutexWaitq ?b) = Some []" "\<not> one_n_model s \<longrightarrow> Q (MutexWaitq ?e) = Some []"
    using i holding_refl by (auto simp: pipe_idle_def)
  have l1: "locked th ?e s p = Some (Returns True, entered c ?e s, p)" "holding s Q th c {?e} (entered c ?e s)"
    using holding_lock[OF q(1,3)] by auto
  have l2: "locked th ?b (entered c ?e s) p = Some (Returns True, entered c ?b (entered c ?e s), p)"
    "holding s Q th c {?b, ?e} (entered c ?b (entered c ?e s))"
    using holding_lock[OF l1(2) q(2)] q(4) by auto
  obtain s3 where s3: "unlocked th ?b (entered c ?b (entered c ?e s)) = Some s3" "holding s Q th c {?e} s3"
    using holding_unlock[OF l2(2) _ q(5)] q(4) by (auto simp: insert_Diff_if)
  obtain s4 where s4: "unlocked th ?e s3 = Some s4" "holding s Q th c {} s4" using holding_unlock[OF s3(2) _ q(6)] by auto
  have w': "Q (CondWaitq (just_pushed p)) = Some ws" "waiters_ok s Q c (CondWaitq (just_pushed p))" "Q (LocalChain th) = Some []" "c \<notin> set ws"
    using w by (simp_all add: wakes_def)
  obtain s5 where s5: "signal th (just_pushed p) s4 = Some s5" using holding_notify[OF s4(2) w', of True] by auto
  have e: "bytes_in_use (make_snapshot p) = ?n - ?z" "capacity (make_snapshot p) = ?n - ?z" "used p + ?z = ?n"
    using bytes_in_use_eq(1)[OF ok] capacity_eq[OF ok] full h(4) by simp_all
  have need: "usz (int (bytes_in_use (make_snapshot p) + ?z)) = ?n" using e h(4,5) by (simp only:) (rule trans[OF usz_nat], simp_all)
  have ci: "check_invariants p" using check_invariants_iff[OF ok] lim cons by simp
  obtain wd where wd: "next_pow2 nd (of_nat (?n div ?z + 1)) = Some wd" "?n + ?z \<le> unat wd * ?z" "unat wd * ?z < 2 * (?n + ?z)"
    using pow2_elems[of ?z ?n nd] h(3,4,11) k(2) by auto
  have us: "usz (int (unat wd * ?z)) = unat wd * ?z" by (rule usz_nat) (use wd(3) k(2) in simp)
  have us': "?n - ?z \<le> usz (int (unat wd * ?z))" unfolding us using wd(2) by simp
  have gr: "grow nd malloc (?n - ?z) ?z p = Some p"
    unfolding grow_def need Let_def using wd h(3,4) ci e(1) lim(1,2) us' by (simp add: resize_buffer_def assertume_def)
  have wr: "wraps_around (make_snapshot p)" "s_bufend (make_snapshot p) = ?n" "s_end (make_snapshot p) = end_ptr p"
    using full_ring[OF ok full] by (simp_all add: wraps_around_def make_snapshot_def)
  have ez: "end_ptr p + ?z \<le> ?n" using dvd_gap[OF h(13,11,7)] .
  obtain d' where pp: "process_push nd (make_snapshot p) elems ?z d = Some ((end_ptr p + ?z) mod ?n, d')" "length d' = ?n"
    using process_push_spec[of d "make_snapshot p" ?z elems nd] wr h(2,3,5,7) k(1) ez by (auto simp: written_def)
  let ?p = "p\<lparr>end_ptr := (end_ptr p + ?z) mod ?n, buffer := Some d'\<rparr>"
  have mn: "min ?z (usz (int (max_cap p) - int (bytes_in_use (make_snapshot p)))) = ?z" using e(1) lim(2) h(4,5) by (simp add: usz_small)
  have "push_copy nd th elems ?z s3 p = Some (Returns 0, s5, ?p)"
    unfolding push_copy_def Let_def mn using h(1,3) pp(1) s4(1) s5 by (simp add: assertume_def)
  moreover have "?n - ?z \<noteq> ?n" using h(3,4) by linarith
  then have "\<not> no_room p" using e(1) lim(2) by (simp add: no_room_def)
  ultimately have op: "push_once nd malloc th elems ?z s p = Some (Returns 0, s5, ?p)"
    using l1(1) l2(1) s3(1) gr cons need e(2) h(3,4)
    by (simp add: push_once_def push_again_def and_then_def, subst wait_while.simps) (simp add: push_locked_def push_grown_def and_then_def)
  have ok': "pipe_ring_ok ?p d'" using ok h pp(2) by (auto simp: pipe_ring_ok_def intro!: dvd_mod dvd_add)
  have "used ?p = 0" using used_eqI[OF ok', of 0] full_ring[OF ok full] h(4) by simp
  then have "pipe_bytes ?p = []" by (metis length_0_conv pipe_bytes_length)
  moreover have "check_invariants ?p" using check_invariants_iff[OF ok'] check_invariants_iff[OF ok] ci by simp
  ultimately show ?thesis using op by blast
qed

section \<open>Reserving\<close>

text \<open>
  \<open>pipe_reserve\<close> raises \<open>min_cap\<close> before it asks for the new size, so that \<open>resize_buffer\<close> finds the
  size not above the minimum and returns without allocating; with assertions the program ends, since
  the buffer is now below its minimum.
\<close>

lemma reserve_spec:
  assumes i: "pipe_idle s Q th c p" and ok: "pipe_ring_ok p d" and inv: "check_invariants p"
    and n: "bufend p < n * elem_size p" "n * elem_size p \<le> max_cap p" "n * elem_size p < 2 ^ 64"
  shows "pipe_reserve False malloc th n s p = None"
    and "\<exists>s'. pipe_reserve True malloc th n s p = Some (Returns (), s', p\<lparr>min_cap := n * elem_size p\<rparr>)"
proof -
  let ?b = "begin_lock p" and ?e = "end_lock p" and ?p = "p\<lparr>min_cap := n * elem_size p\<rparr>"
  note h = ring_okD[OF ok]
  have q: "holding s Q th c {} s" "unowned s ?b" "unowned s ?e" "?b \<noteq> ?e"
    "\<not> one_n_model s \<longrightarrow> Q (MutexWaitq ?b) = Some []" "\<not> one_n_model s \<longrightarrow> Q (MutexWaitq ?e) = Some []"
    using i holding_refl by (auto simp: pipe_idle_def)
  have l1: "locked th ?e s p = Some (Returns True, entered c ?e s, p)" "holding s Q th c {?e} (entered c ?e s)"
    using holding_lock[OF q(1,3)] by auto
  have l2: "locked th ?b (entered c ?e s) p = Some (Returns True, entered c ?b (entered c ?e s), p)"
    "holding s Q th c {?b, ?e} (entered c ?b (entered c ?e s))"
    using holding_lock[OF l1(2) q(2)] q(4) by auto
  obtain s3 where s3: "unlocked th ?b (entered c ?b (entered c ?e s)) = Some s3" "holding s Q th c {?e} s3"
    using holding_unlock[OF l2(2) _ q(5)] q(4) by (auto simp: insert_Diff_if)
  obtain s4 where s4: "unlocked th ?e s3 = Some s4" using holding_unlock[OF s3(2) _ q(6)] by auto
  have u: "usz (int (n * pipe_elem_size p)) = n * elem_size p" unfolding pipe_elem_size_def by (rule usz_nat[OF n(3)])
  have "n * elem_size p \<noteq> 0" using n(1) by linarith
  moreover have "\<not> n * elem_size p \<le> bytes_in_use (make_snapshot p)" using n(1) bytes_in_use_eq(1,2)[OF ok] by linarith
  ultimately have nz: "n * elem_size p \<noteq> 0" "\<not> n * elem_size p \<le> bytes_in_use (make_snapshot p)"
    "min (n * elem_size p) (max_cap p) = n * elem_size p" using n(2) by (blast, blast, simp)
  have ok': "pipe_ring_ok ?p d" using ok by (simp add: pipe_ring_ok_def)
  have "\<not> check_invariants ?p" using check_invariants_iff[OF ok'] n(1) by simp
  then have r: "reserve_locked False malloc (n * elem_size p) (max_cap p) p = None"
    using nz by (simp add: reserve_locked_def resize_buffer_def assertume_def)
  have "reserve_locked True malloc (n * elem_size p) (max_cap p) p = Some ?p"
    using nz n(2) by (simp add: reserve_locked_def resize_buffer_def assertume_def Let_def)
  with l1(1) l2(1) s3(1) s4 nz(1) u
  show "\<exists>s'. pipe_reserve True malloc th n s p = Some (Returns (), s', ?p)"
    by (simp add: pipe_reserve_def while_locked_def lock_pipe_def unlock_pipe_def and_then_def assertume_def Let_def)
  from r l1(1) l2(1) nz(1) u inv show "pipe_reserve False malloc th n s p = None"
    by (simp add: pipe_reserve_def while_locked_def lock_pipe_def unlock_pipe_def and_then_def assertume_def Let_def)
qed

text \<open>\<open>pipe_reserve\<close> of more than the buffer holds never allocates.\<close>

lemma pipe_reserve_never_allocates:
  assumes "pipe_idle s Q th c p" "pipe_ring_ok p d" "check_invariants p"
    and "bufend p < n * elem_size p" "n * elem_size p \<le> max_cap p" "n * elem_size p < 2 ^ 64"
  shows "pipe_reserve False malloc th n s p = None \<and>
     (\<exists>s'. pipe_reserve True malloc th n s p = Some (Returns (), s', p\<lparr>min_cap := n * elem_size p\<rparr>))"
  using reserve_spec[OF assms] by blast

end
