(* ===== verification/Spinlock.thy ===== *)
theory Spinlock
  imports Task_State
begin

text \<open>
  The atomic instructions of \<^verbatim>\<open>include/sysdef.h\<close> and the spin locks of
  \<^verbatim>\<open>include/spinlock.h\<close>, with any number of threads that call, spin, enter and leave in any
  order.  What a spin lock needs of its atomic instruction is a locale; the byte lock of the M:N
  build (\<open>__testandset\<close>) and the \<open>CAS32\<close> lock of the 1:N build are its instances.
\<close>

section \<open>Atomic instructions\<close>

text \<open>Each takes the value of the memory cell and returns a result and the new value.\<close>

definition CAS32 :: "32 word \<Rightarrow> 32 word \<Rightarrow> 32 word \<Rightarrow> bool \<times> 32 word" where
  "CAS32 oldval newval x = (if x = oldval then (True, newval) else (False, x))"

definition CAS64 :: "64 word \<Rightarrow> 64 word \<Rightarrow> 64 word \<Rightarrow> bool \<times> 64 word" where
  "CAS64 oldval newval x = (if x = oldval then (True, newval) else (False, x))"

definition CAS32V :: "32 word \<Rightarrow> 32 word \<Rightarrow> 32 word \<Rightarrow> 32 word \<times> 32 word" where
  "CAS32V oldval newval x = (x, if x = oldval then newval else x)"

definition CAS64V :: "64 word \<Rightarrow> 64 word \<Rightarrow> 64 word \<Rightarrow> 64 word \<times> 64 word" where
  "CAS64V oldval newval x = (x, if x = oldval then newval else x)"

definition CAS2 :: "64 word \<times> 64 word \<Rightarrow> 64 word \<times> 64 word \<Rightarrow> 64 word \<times> 64 word \<Rightarrow> bool \<times> 64 word \<times> 64 word" where
  "CAS2 oldval newval x = (if x = oldval then (True, newval) else (False, x))"

definition FAA :: "64 word \<Rightarrow> 64 word \<times> 64 word" where
  "FAA x = (x, x + 1)"

definition FAS :: "64 word \<Rightarrow> 64 word \<times> 64 word" where
  "FAS x = (x, x - 1)"

text \<open>The Windows build uses instructions that return the new value.\<close>

definition FAA_win32 :: "64 word \<Rightarrow> 64 word \<times> 64 word" where
  "FAA_win32 x = (x + 1, x + 1)"

definition FAS_win32 :: "64 word \<Rightarrow> 64 word \<times> 64 word" where
  "FAS_win32 x = (x - 1, x - 1)"

text \<open>
  Its exchanges return what was there, and the macros compare that; the double one also stores it in the second
  operand, the value that was expected.
\<close>

definition CAS64_win32 :: "64 word \<Rightarrow> 64 word \<Rightarrow> 64 word \<Rightarrow> bool \<times> 64 word" where
  "CAS64_win32 oldval newval x = (let (r, x) = CAS64V oldval newval x in (r = oldval, x))"

definition CAS32_win32 :: "32 word \<Rightarrow> 32 word \<Rightarrow> 32 word \<Rightarrow> bool \<times> 32 word" where
  "CAS32_win32 oldval newval x = (let (r, x) = CAS32V oldval newval x in (r = oldval, x))"

definition CAS2_win32 :: "64 word \<times> 64 word \<Rightarrow> 64 word \<times> 64 word \<Rightarrow> 64 word \<times> 64 word \<Rightarrow> bool \<times> (64 word \<times> 64 word) \<times> (64 word \<times> 64 word)" where
  "CAS2_win32 oldval newval x = (if x = oldval then (True, oldval, newval) else (False, x, x))"

text \<open>The two builds agree on success and memory; after a failure the expected value differs.\<close>

lemma windows_exchanges:
  "CAS64_win32 a b x = CAS64 a b x" "CAS32_win32 a' b' x' = CAS32 a' b' x'"
  "(let (r, _, y) = CAS2_win32 p q z in (r, y)) = CAS2 p q z" "z \<noteq> p \<Longrightarrow> fst (snd (CAS2_win32 p q z)) = z"
  by (simp_all add: CAS64_win32_def CAS32_win32_def CAS2_win32_def CAS64_def CAS32_def CAS2_def CAS64V_def CAS32V_def)

text \<open>\<open>lock; cmpxchgb\<close> with 0 in \<open>al\<close> and 1 as the new value; the result is what \<open>al\<close> holds.\<close>

definition testandset :: "8 word \<Rightarrow> 8 word \<times> 8 word" where
  "testandset x = (let readval = 0 in if x = readval then (readval, 1) else (x, x))"

text \<open>One round of the loop of \<open>spin_lock\<close>: whether the loop ends, and the lock.\<close>

definition spin_try_byte :: "8 word \<Rightarrow> bool \<times> 8 word" where
  "spin_try_byte x = (let (r, x) = testandset x in (r = 0, x))"

definition spin_try_cas :: "32 word \<Rightarrow> bool \<times> 32 word" where
  "spin_try_cas x = CAS32 0 1 x"

section \<open>Threads\<close>

datatype place = Outside | Spinning | Inside

record 'w spin_state =
  lock_word :: 'w
  place_of :: "nat \<Rightarrow> place"

text \<open>\<open>attempt\<close> is one round of the loop, \<open>free\<close> what \<open>spin_init\<close> and \<open>spin_unlock\<close> write.\<close>

inductive spin_step :: "('w \<Rightarrow> bool \<times> 'w) \<Rightarrow> 'w \<Rightarrow> 'w spin_state \<Rightarrow> 'w spin_state \<Rightarrow> bool"
  for attempt free where
  call: "place_of z t = Outside \<Longrightarrow> spin_step attempt free z (z\<lparr>place_of := (place_of z)(t := Spinning)\<rparr>)"
| enter: "place_of z t = Spinning \<Longrightarrow> attempt (lock_word z) = (True, w) \<Longrightarrow>
    spin_step attempt free z (z\<lparr>lock_word := w, place_of := (place_of z)(t := Inside)\<rparr>)"
| spin: "place_of z t = Spinning \<Longrightarrow> attempt (lock_word z) = (False, w) \<Longrightarrow>
    spin_step attempt free z (z\<lparr>lock_word := w\<rparr>)"
| leave: "place_of z t = Inside \<Longrightarrow> spin_step attempt free z (z\<lparr>lock_word := free, place_of := (place_of z)(t := Outside)\<rparr>)"

inductive spin_reachable :: "('w \<Rightarrow> bool \<times> 'w) \<Rightarrow> 'w \<Rightarrow> 'w spin_state \<Rightarrow> bool" for attempt free where
  init: "spin_reachable attempt free \<lparr>lock_word = free, place_of = (\<lambda>_. Outside)\<rparr>"
| step: "spin_reachable attempt free z \<Longrightarrow> spin_step attempt free z z' \<Longrightarrow> spin_reachable attempt free z'"

inductive_cases spin_stepE: "spin_step attempt free z z'"

section \<open>Mutual exclusion\<close>

locale test_and_set =
  fixes attempt :: "'w \<Rightarrow> bool \<times> 'w"
    and free :: 'w
  assumes succeeds: "fst (attempt x) \<longleftrightarrow> x = free"
    and takes: "attempt free = (True, x) \<Longrightarrow> x \<noteq> free"
    and keeps: "attempt x = (False, y) \<Longrightarrow> y = x"
begin

definition exclusive :: "'w spin_state \<Rightarrow> bool" where
  "exclusive z \<longleftrightarrow> (\<forall>t u. place_of z t = Inside \<longrightarrow> place_of z u = Inside \<longrightarrow> t = u) \<and>
     ((\<exists>t. place_of z t = Inside) \<longleftrightarrow> lock_word z \<noteq> free)"

lemma step_exclusive:
  assumes "spin_step attempt free z z'" "exclusive z"
  shows "exclusive z'"
  using assms(1)
proof cases
  case (call t)
  then have "place_of z' u = Inside \<longleftrightarrow> place_of z u = Inside" for u by auto
  then show ?thesis using assms(2) call(1) by (simp add: exclusive_def)
next
  case (enter t w)
  then have "lock_word z = free" "w \<noteq> free" using succeeds[of "lock_word z"] takes by auto
  then show ?thesis using assms(2) enter by (auto simp: exclusive_def)
next
  case (spin t w)
  then show ?thesis using assms(2) keeps by (auto simp: exclusive_def)
next
  case (leave t)
  then show ?thesis using assms(2) by (auto simp: exclusive_def split: if_splits)
qed

lemma reachable_exclusive: "spin_reachable attempt free z \<Longrightarrow> exclusive z"
  by (induction rule: spin_reachable.induct) (simp add: exclusive_def, rule step_exclusive)

text \<open>Whoever tries while nobody is inside gets in, and nobody gets in while somebody is.\<close>

lemma attempt_succeeds_iff_free:
  assumes "spin_reachable attempt free z"
  shows "fst (attempt (lock_word z)) \<longleftrightarrow> (\<forall>t. place_of z t \<noteq> Inside)"
  using reachable_exclusive[OF assms] succeeds by (auto simp: exclusive_def)

end

interpretation byte_lock: test_and_set spin_try_byte 0
  by unfold_locales (auto simp: spin_try_byte_def testandset_def Let_def split: if_splits)

interpretation cas_lock: test_and_set spin_try_cas 0
  by unfold_locales (auto simp: spin_try_cas_def CAS32_def split: if_splits)

section \<open>The lock as one operation sees it\<close>

text \<open>
  \<open>Task_State\<close> keeps whether a lock is taken.  When no other thread is about, its \<open>spin_lock\<close> is one
  round of the loop: the first round succeeds, or no round ever will.
\<close>

lemma spin_lock_one_round:
  assumes "\<not> one_n_model s" "locks s l \<longleftrightarrow> x \<noteq> 0"
  shows "spin_lock l s = (if fst (spin_try_byte x) then Some (s\<lparr>locks := (locks s)(l := snd (spin_try_byte x) \<noteq> 0)\<rparr>) else None)"
  using assms by (auto simp: spin_lock_def spin_try_byte_def testandset_def)

lemma spin_lock2_one_round:
  assumes "locks s l \<longleftrightarrow> x \<noteq> 0"
  shows "spin_lock2 l s = (if fst (spin_try_cas x) then Some (s\<lparr>locks := (locks s)(l := snd (spin_try_cas x) \<noteq> 0)\<rparr>) else None)"
  using assms by (auto simp: spin_lock2_def spin_try_cas_def CAS32_def)

end
