(* ===== verification/Context.thy ===== *)
theory Context
  imports Lifecycle
begin

text \<open>
  The context switch (\<^verbatim>\<open>src/context.S\<close>) on a machine with the registers it uses and a memory
  of 8-byte cells, and the first frame that \<open>fiber_create\<close> builds for it.  An instruction sequence
  runs until it jumps; the result is the machine and the address it jumps to.  An access that is not
  aligned to 8 bytes is outside the model: a fault.
\<close>

section \<open>The machine\<close>

datatype reg = RAX | RDI | RSI | RSP | RBX | RBP | R12 | R13 | R14 | R15

record machine =
  reg :: "reg \<Rightarrow> 64 word"
  cell :: "64 word \<Rightarrow> 64 word"

datatype instr =
    Mov reg reg
  | Store reg "64 word" reg
  | Load "64 word" reg reg
  | Lea "64 word" reg reg
  | LeaLabel "64 word" reg
  | Push reg
  | Pop reg
  | Jmp reg
  | Ret

definition aligned :: "64 word \<Rightarrow> bool" where
  "aligned a = (a AND 7 = 0)"

definition load :: "64 word \<Rightarrow> machine \<Rightarrow> 64 word option" where
  "load a M = (if aligned a then Some (cell M a) else None)"

definition store :: "64 word \<Rightarrow> 64 word \<Rightarrow> machine \<Rightarrow> machine option" where
  "store a v M = (if aligned a then Some (M\<lparr>cell := (cell M)(a := v)\<rparr>) else None)"

definition set_reg :: "reg \<Rightarrow> 64 word \<Rightarrow> machine \<Rightarrow> machine" where
  "set_reg r v M = M\<lparr>reg := (reg M)(r := v)\<rparr>"

fun exec :: "instr list \<Rightarrow> machine \<Rightarrow> (machine \<times> 64 word) option" where
  "exec [] M = None"
| "exec (Mov r1 r2 # is) M = exec is (set_reg r2 (reg M r1) M)"
| "exec (Store r d b # is) M = do { M \<leftarrow> store (reg M b + d) (reg M r) M; exec is M }"
| "exec (Load d b r # is) M = do { v \<leftarrow> load (reg M b + d) M; exec is (set_reg r v M) }"
| "exec (Lea d b r # is) M = exec is (set_reg r (reg M b + d) M)"
| "exec (LeaLabel a r # is) M = exec is (set_reg r a M)"
| "exec (Push r # is) M = do {
     let sp = reg M RSP - 8;
     M \<leftarrow> store sp (reg M r) M;
     exec is (set_reg RSP sp M)
   }"
| "exec (Pop r # is) M = do {
     v \<leftarrow> load (reg M RSP) M;
     exec is (set_reg r v (set_reg RSP (reg M RSP + 8) M))
   }"
| "exec (Jmp r # is) M = Some (M, reg M r)"
| "exec (Ret # is) M = do {
     v \<leftarrow> load (reg M RSP) M;
     Some (set_reg RSP (reg M RSP + 8) M, v)
   }"

section \<open>The code\<close>

definition asm_taskmain :: "instr list" where
  "asm_taskmain = [Mov R12 RDI, Jmp R15]"

definition swap_context_code :: "instr list" where
  "swap_context_code =
     [Store RSP 0x28 RDI, Load 0x28 RSI RSP,
      Pop RAX,
      Store R12 0x00 RDI, Store R13 0x08 RDI, Store R14 0x10 RDI, Store R15 0x18 RDI,
      Store RBX 0x30 RDI, Store RBP 0x38 RDI,
      Load 0x00 RSI R12, Load 0x08 RSI R13, Load 0x10 RSI R14, Load 0x18 RSI R15,
      Load 0x30 RSI RBX, Load 0x38 RSI RBP,
      Jmp RAX]"

text \<open>\<open>goto_contxt2\<close>, with the address of its label \<open>ret_here\<close>, and the code at the label.\<close>

definition goto_contxt2 :: "64 word \<Rightarrow> instr list" where
  "goto_contxt2 ret_here =
     [LeaLabel ret_here RAX, Push RAX,
      Lea 0x00 RSP RAX, Store RAX 0x28 RDI,
      Load 0x18 RDI RAX, Load 0x00 RDI RDI,
      Jmp RAX]"

definition ret_here_code :: "instr list" where
  "ret_here_code = [Ret]"

section \<open>Contexts in memory\<close>

text \<open>A \<open>FibCTX\<close> at address \<open>a\<close>, with the offsets of \<^verbatim>\<open>task.h\<close>.\<close>

definition ctx_at :: "machine \<Rightarrow> 64 word \<Rightarrow> FibCTX" where
  "ctx_at M a = \<lparr>reg_r12 = cell M a, reg_r13 = cell M (a + 0x08), reg_r14 = cell M (a + 0x10),
     reg_r15 = cell M (a + 0x18), reg_rip = cell M (a + 0x20), reg_rsp = cell M (a + 0x28),
     reg_rbx = cell M (a + 0x30), reg_rbp = cell M (a + 0x38)\<rparr>"

definition ctx_cells :: "64 word \<Rightarrow> 64 word set" where
  "ctx_cells a = {a, a + 0x08, a + 0x10, a + 0x18, a + 0x20, a + 0x28, a + 0x30, a + 0x38}"

text \<open>What a function call keeps by convention, and where the call returns to.\<close>

definition saved_regs :: "machine \<Rightarrow> 64 word list" where
  "saved_regs M = [reg M RBX, reg M RBP, reg M R12, reg M R13, reg M R14, reg M R15]"

definition ctx_regs :: "FibCTX \<Rightarrow> 64 word list" where
  "ctx_regs c = [reg_rbx c, reg_rbp c, reg_r12 c, reg_r13 c, reg_r14 c, reg_r15 c]"

lemma aligned_add: "aligned a \<Longrightarrow> aligned b \<Longrightarrow> aligned (a + b)"
proof -
  have "aligned x \<longleftrightarrow> 8 dvd unat x" for x :: "64 word"
  proof -
    have "x AND 7 = take_bit 3 x" by (simp add: take_bit_eq_mask mask_numeral)
    then have "(x AND 7 = 0) = (take_bit 3 (unat x) = 0)"
      by (metis unat_0 unsigned_take_bit_eq word_unat_eq_iff)
    then show ?thesis by (simp add: aligned_def take_bit_eq_mod mod_eq_0_iff_dvd)
  qed
  moreover assume "aligned a" "aligned b"
  moreover have "8 dvd (unat a + unat b) mod 2 ^ 64" if "8 dvd unat a" "8 dvd unat b"
    using that by (intro dvd_mod) simp_all
  ultimately show ?thesis by (simp add: unat_word_ariths)
qed

lemma aligned_offsets:
  "aligned a \<Longrightarrow> aligned (a + 0x08)" "aligned a \<Longrightarrow> aligned (a + 0x10)" "aligned a \<Longrightarrow> aligned (a + 0x18)"
  "aligned a \<Longrightarrow> aligned (a + 0x20)" "aligned a \<Longrightarrow> aligned (a + 0x28)" "aligned a \<Longrightarrow> aligned (a + 0x30)"
  "aligned a \<Longrightarrow> aligned (a + 0x38)" "aligned a \<Longrightarrow> aligned (a + - 8)"
  by (erule aligned_add, simp add: aligned_def)+

lemmas machine_defs = load_def store_def set_reg_def

section \<open>Switching\<close>

text \<open>
  The switch saves the caller in its context, continues the other task where it called the switch,
  with the registers of its context, and writes nothing but the caller's context.
\<close>

lemma swap_spec:
  assumes al: "aligned (reg M RDI)" "aligned (reg M RSI)" "aligned (reg_rsp (ctx_at M (reg M RSI)))"
    and dj: "ctx_cells (reg M RDI) \<inter> ctx_cells (reg M RSI) = {}" "reg_rsp (ctx_at M (reg M RSI)) \<notin> ctx_cells (reg M RDI)"
  shows "\<exists>M'. exec swap_context_code M = Some (M', cell M (reg_rsp (ctx_at M (reg M RSI)))) \<and>
     saved_regs M' = ctx_regs (ctx_at M (reg M RSI)) \<and> reg M' RSP = reg_rsp (ctx_at M (reg M RSI)) + 8 \<and>
     ctx_regs (ctx_at M' (reg M RDI)) = saved_regs M \<and> reg_rsp (ctx_at M' (reg M RDI)) = reg M RSP \<and>
     (\<forall>x. x \<notin> ctx_cells (reg M RDI) \<longrightarrow> cell M' x = cell M x)"
  using assms unfolding swap_context_code_def
  by (simp add: machine_defs aligned_offsets ctx_at_def ctx_cells_def saved_regs_def ctx_regs_def)

text \<open>
  Leaving a task and coming back: between the two switches anything may happen that leaves the
  saved context and the return address on the stack alone.
\<close>

lemma swap_back:
  assumes out: "aligned (reg M RDI)" "aligned (reg M RSI)" "aligned (reg_rsp (ctx_at M (reg M RSI)))" "aligned (reg M RSP)"
      "ctx_cells (reg M RDI) \<inter> ctx_cells (reg M RSI) = {}" "reg_rsp (ctx_at M (reg M RSI)) \<notin> ctx_cells (reg M RDI)"
      "reg M RSP \<notin> ctx_cells (reg M RDI)"
    and ex: "exec swap_context_code M = Some (M1, tgt)"
    and kept: "\<And>x. x \<in> ctx_cells (reg M RDI) \<union> {reg M RSP} \<Longrightarrow> cell M2 x = cell M1 x"
    and ret: "reg M2 RSI = reg M RDI" "aligned (reg M2 RDI)" "ctx_cells (reg M2 RDI) \<inter> ctx_cells (reg M RDI) = {}"
      "reg M RSP \<notin> ctx_cells (reg M2 RDI)"
  shows "\<exists>M3. exec swap_context_code M2 = Some (M3, cell M (reg M RSP)) \<and> saved_regs M3 = saved_regs M \<and> reg M3 RSP = reg M RSP + 8"
proof -
  from swap_spec[OF out(1-3,5,6)] ex
  have o: "ctx_regs (ctx_at M1 (reg M RDI)) = saved_regs M" "reg_rsp (ctx_at M1 (reg M RDI)) = reg M RSP"
    "cell M1 (reg M RSP) = cell M (reg M RSP)" using out(7) by auto
  have c: "ctx_at M2 (reg M2 RSI) = ctx_at M1 (reg M RDI)" using kept ret(1) by (simp add: ctx_at_def ctx_cells_def)
  have "aligned (reg_rsp (ctx_at M2 (reg M2 RSI)))" "reg_rsp (ctx_at M2 (reg M2 RSI)) \<notin> ctx_cells (reg M2 RDI)"
    using c o(2) out(4) ret(4) by simp_all
  from swap_spec[OF ret(2) _ this(1) _ this(2)] ret out(1) c o kept show ?thesis by fastforce
qed

section \<open>The first switch to a task\<close>

text \<open>The word that \<open>fiber_create\<close> writes on a stack that it has allocated.\<close>

definition first_frame :: "platform \<Rightarrow> nat \<Rightarrow> 32 word \<Rightarrow> machine \<Rightarrow> machine option" where
  "first_frame P stackbase ssize M =
     (if ssize AND MASK_SYSTEM_STACK \<noteq> 0
      then store (of_nat stackbase + ucast (ssize AND NOT 15) - 8) (asm_taskmain_addr P) M else Some M)"

definition stack_top :: "nat \<Rightarrow> 32 word \<Rightarrow> 64 word" where
  "stack_top stackbase ssize = of_nat stackbase + ucast (ssize AND NOT 15)"

lemma first_frame_spec:
  assumes "ssize AND MASK_SYSTEM_STACK \<noteq> 0" "aligned (stack_top stackbase ssize)"
  shows "first_frame P stackbase ssize M = Some (M\<lparr>cell := (cell M)(stack_top stackbase ssize - 8 := asm_taskmain_addr P)\<rparr>)"
    and "reg_rsp (regs (init_tcb P t func arg stackbase ssize b)) = stack_top stackbase ssize - 8"
  using assms aligned_offsets(8)[OF assms(2)]
  by (simp_all add: first_frame_def store_def stack_top_def init_tcb_def Let_def)

lemma first_switch:
  assumes sys: "ssize AND MASK_SYSTEM_STACK \<noteq> 0" and al: "aligned (stack_top stackbase ssize)" "aligned (reg M RDI)" "aligned (reg M RSI)"
    and ctx: "ctx_at M (reg M RSI) = regs (init_tcb P t func arg stackbase ssize b)"
    and frame: "cell M (stack_top stackbase ssize - 8) = asm_taskmain_addr P"
    and dj: "ctx_cells (reg M RDI) \<inter> ctx_cells (reg M RSI) = {}" "stack_top stackbase ssize - 8 \<notin> ctx_cells (reg M RDI)"
  shows "\<exists>M1 M2. exec swap_context_code M = Some (M1, asm_taskmain_addr P) \<and>
     exec asm_taskmain M1 = Some (M2, cpp_taskmain_addr P) \<and> reg M2 RDI = of_nat t \<and> reg M2 RSP = stack_top stackbase ssize"
proof -
  have r: "reg_rsp (ctx_at M (reg M RSI)) = stack_top stackbase ssize - 8" "reg_r12 (ctx_at M (reg M RSI)) = of_nat t"
    "reg_r15 (ctx_at M (reg M RSI)) = cpp_taskmain_addr P"
    unfolding ctx using first_frame_spec(2)[OF sys al(1)] by (simp_all add: init_tcb_def Let_def)
  have a: "aligned (reg_rsp (ctx_at M (reg M RSI)))" using r(1) aligned_offsets(8)[OF al(1)] by simp
  obtain M1 where M1: "exec swap_context_code M = Some (M1, asm_taskmain_addr P)"
    "saved_regs M1 = ctx_regs (ctx_at M (reg M RSI))" "reg M1 RSP = stack_top stackbase ssize"
    using swap_spec[OF al(2,3) a dj(1)] dj(2) r(1) frame by auto
  then have "reg M1 R12 = of_nat t" "reg M1 R15 = cpp_taskmain_addr P" using r(2,3) by (simp_all add: saved_regs_def ctx_regs_def)
  with M1 show ?thesis by (simp add: asm_taskmain_def set_reg_def)
qed

text \<open>The scheduler task runs on the stack of the thread and returns into \<open>pthread_scheduler\<close>.\<close>

lemma goto_spec:
  assumes "aligned (reg M RDI)" "aligned (reg M RSP)" "reg M RSP - 8 \<notin> ctx_cells (reg M RDI)"
  shows "\<exists>M'. exec (goto_contxt2 ret_here) M = Some (M', reg_r15 (ctx_at M (reg M RDI))) \<and>
     reg M' RDI = reg_r12 (ctx_at M (reg M RDI)) \<and> reg M' RSP = reg M RSP - 8 \<and> cell M' (reg M' RSP) = ret_here \<and>
     saved_regs M' = saved_regs M \<and> reg_rsp (ctx_at M' (reg M RDI)) = reg M RSP - 8 \<and>
     (\<forall>x. x \<noteq> reg M RSP - 8 \<and> x \<noteq> reg M RDI + 0x28 \<longrightarrow> cell M' x = cell M x)"
  using assms aligned_offsets(8)[OF assms(2)] unfolding goto_contxt2_def
  by (simp add: machine_defs aligned_offsets ctx_at_def ctx_cells_def saved_regs_def Let_def) auto

lemma goto_returns: "aligned (reg M RSP) \<Longrightarrow> exec ret_here_code M = Some (set_reg RSP (reg M RSP + 8) M, cell M (reg M RSP))"
  by (simp add: ret_here_code_def load_def)

text \<open>
  On a stack that the caller of \<open>fiber_create\<close> provides no word is written, and the first switch
  takes its target from the cell behind the stack.
\<close>

lemma user_stack_switch:
  assumes usr: "ssize AND MASK_SYSTEM_STACK = 0" and al: "aligned (stack_top stackbase ssize)" "aligned (reg M RDI)" "aligned (reg M RSI)"
    and ctx: "ctx_at M (reg M RSI) = regs (init_tcb P t func arg stackbase ssize b)"
    and dj: "ctx_cells (reg M RDI) \<inter> ctx_cells (reg M RSI) = {}" "stack_top stackbase ssize \<notin> ctx_cells (reg M RDI)"
  shows "first_frame P stackbase ssize M = Some M"
    and "\<exists>M1. exec swap_context_code M = Some (M1, cell M (stack_top stackbase ssize))"
proof -
  show "first_frame P stackbase ssize M = Some M" using usr by (simp add: first_frame_def)
  have r: "reg_rsp (ctx_at M (reg M RSI)) = stack_top stackbase ssize"
    unfolding ctx using usr by (simp add: init_tcb_def stack_top_def Let_def)
  with swap_spec[OF al(2,3) _ dj(1)] al(1) dj(2)
  show "\<exists>M1. exec swap_context_code M = Some (M1, cell M (stack_top stackbase ssize))" by fastforce
qed

text \<open>The first switch to a task, on a stack of the library and on one of the caller.\<close>

lemma first_switch_target:
  assumes "aligned (stack_top stackbase ssize)" "aligned (reg M RDI)" "aligned (reg M RSI)"
    and "ctx_at M (reg M RSI) = regs (init_tcb P t func arg stackbase ssize b)"
    and "ctx_cells (reg M RDI) \<inter> ctx_cells (reg M RSI) = {}"
    and "stack_top stackbase ssize - 8 \<notin> ctx_cells (reg M RDI)" "stack_top stackbase ssize \<notin> ctx_cells (reg M RDI)"
  shows "(if ssize AND MASK_SYSTEM_STACK \<noteq> 0
      then \<exists>m. first_frame P stackbase ssize M = Some m \<and> cell m (stack_top stackbase ssize - 8) = asm_taskmain_addr P \<and>
        (cell M (stack_top stackbase ssize - 8) = asm_taskmain_addr P \<longrightarrow>
          (\<exists>M1 M2. exec swap_context_code M = Some (M1, asm_taskmain_addr P) \<and> exec asm_taskmain M1 = Some (M2, cpp_taskmain_addr P) \<and>
             reg M2 RDI = of_nat t \<and> reg M2 RSP = stack_top stackbase ssize))
      else first_frame P stackbase ssize M = Some M \<and>
        (\<exists>M1. exec swap_context_code M = Some (M1, cell M (stack_top stackbase ssize))))"
proof (cases "ssize AND MASK_SYSTEM_STACK = 0")
  case True
  then show ?thesis using user_stack_switch[OF True assms(1-5,7)] by simp
next
  case False
  then show ?thesis using first_frame_spec(1)[OF False assms(1)] first_switch[OF False assms(1-4) _ assms(5,6)] by auto
qed

end
