(* ===== verification/Clock.thy ===== *)
theory Clock
  imports Lifecycle
begin

text \<open>
  The clock (\<^verbatim>\<open>include/timestamp.h\<close>) and the turn of the scheduler task that reads it
  (\<open>fiber_scheduler\<close> in \<^verbatim>\<open>src/task.c\<close>).  What \<open>gettimeofday\<close> and
  \<open>GetSystemTimeAsFileTime\<close> return are arguments.
\<close>

section \<open>Readings\<close>

definition TIMESTAMP_ONE_SECOND :: "64 word" where "TIMESTAMP_ONE_SECOND = 10000000"

text \<open>Seconds and microseconds are signed and are converted to \<open>uint64_t\<close>.\<close>

definition utime :: "int \<times> int \<Rightarrow> 64 word" where
  "utime tv = of_int (fst tv) * 1000000 + of_int (snd tv)"

definition mtime :: "int \<times> int \<Rightarrow> 64 word" where
  "mtime tv = utime tv div 1000"

definition ntime :: "int \<times> int \<Rightarrow> 64 word" where
  "ntime tv = utime tv * 10"

text \<open>The Windows build: the two halves of a \<open>FILETIME\<close>; \<open>long\<close> has 32 bits there.\<close>

definition DELTA_EPOCH_IN_MICROSECS :: "64 word" where
  "DELTA_EPOCH_IN_MICROSECS = 11644473600000000"

definition ntime_win :: "32 word \<Rightarrow> 32 word \<Rightarrow> 64 word" where
  "ntime_win high low = push_bit 32 (0 OR ucast high) OR ucast low"

definition utime_win :: "32 word \<Rightarrow> 32 word \<Rightarrow> 64 word" where
  "utime_win high low = ntime_win high low div 10 - DELTA_EPOCH_IN_MICROSECS"

definition mtime_win :: "32 word \<Rightarrow> 32 word \<Rightarrow> 64 word" where
  "mtime_win high low = (ntime_win high low div 10 - DELTA_EPOCH_IN_MICROSECS) div 1000"

definition gettimeofday_win :: "32 word \<Rightarrow> 32 word \<Rightarrow> int \<times> int" where
  "gettimeofday_win high low =
     (let tmpres = utime_win high low
      in (sint (ucast (tmpres div 1000000) :: 32 word), sint (ucast (tmpres mod 1000000) :: 32 word)))"

section \<open>A turn of the scheduler\<close>

text \<open>\<open>prev\<close> is \<open>prev_stmp\<close>; the result is its new value and the state before the inner loop.\<close>

definition scheduler_turn :: "nat \<Rightarrow> int \<times> int \<Rightarrow> 64 word \<Rightarrow> sys \<Rightarrow> (64 word \<times> sys) option" where
  "scheduler_turn th tv prev s = do {
     let curr_stmp = utime tv;
     let curr_gapp = curr_stmp - prev;
     s \<leftarrow> scheduler_poll th curr_gapp s;
     Some (if curr_gapp \<noteq> 0 then curr_stmp else prev, s)
   }"

section \<open>The scheduler task\<close>

text \<open>
  The callbacks of a thread: they run on thread \<open>th\<close> with their argument and may change the state.  The start-up
  callback says whether the thread goes on; the cleanup callback is never called.
\<close>

type_synonym thread_callback = "nat \<Rightarrow> nat \<Rightarrow> sys \<Rightarrow> (bool \<times> sys) option"

record fibthread_args =
  threadStartup :: "thread_callback option"
  threadCleanup :: "thread_callback option"
  threadMsgLoop :: "thread_callback option"
  thread_args :: nat

text \<open>\<open>fiber_scheduler\<close> up to its loop; the result tells whether the loop is entered, and then the first reading.\<close>

definition scheduler_start :: "fibthread_args option \<Rightarrow> nat \<Rightarrow> int \<times> int \<Rightarrow> sys \<Rightarrow> (64 word option \<times> sys) option" where
  "scheduler_start pargs th tv s = do {
     (go, s) \<leftarrow> (case pargs of None \<Rightarrow> Some (True, s)
        | Some a \<Rightarrow> (case threadStartup a of None \<Rightarrow> Some (True, s) | Some f \<Rightarrow> f th (thread_args a) s));
     if \<not> go then Some (None, s)
     else do {
       the_scheduler \<leftarrow> the_maintask s th;
       _ \<leftarrow> scheddata (tcbs s the_scheduler);
       Some (Some (utime tv), s)
     }
   }"

definition scheduler_msgloop :: "fibthread_args option \<Rightarrow> nat \<Rightarrow> sys \<Rightarrow> sys option" where
  "scheduler_msgloop pargs th s =
     (case pargs of None \<Rightarrow> Some s
      | Some a \<Rightarrow> (case threadMsgLoop a of None \<Rightarrow> Some s | Some f \<Rightarrow> map_option snd (f th (thread_args a) s)))"

text \<open>
  One pass of the loop, up to where the scheduler gives up the processor; it goes on with \<open>scheduler_drain\<close>.  The
  result is the new \<open>prev_stmp\<close> and what \<open>scheduler_drain\<close> says: the thread ends after \<open>Returns True\<close>.
\<close>

definition scheduler_pass :: "fibthread_args option \<Rightarrow> nat \<Rightarrow> int \<times> int \<Rightarrow> 64 word \<Rightarrow> sys \<Rightarrow> (bool outcome \<times> 64 word \<times> sys) option" where
  "scheduler_pass pargs th tv prev s = do {
     (prev, s) \<leftarrow> scheduler_turn th tv prev s;
     (r, s) \<leftarrow> scheduler_drain (scheduler_msgloop pargs) th s;
     Some (r, prev, s)
   }"

text \<open>A thread whose start-up refuses runs nothing.\<close>

lemma scheduler_refused:
  "threadStartup a = Some f \<Longrightarrow> f th (thread_args a) s = Some (False, s') \<Longrightarrow> scheduler_start (Some a) th tv s = Some (None, s')"
  by (simp add: scheduler_start_def)

text \<open>A pass in a build for one thread, when the clock has not moved: the first of the ready tasks runs, or the loop decides about the end.\<close>

lemma pass_same_time:
  assumes one: "one_n_model s" and r: "running s Q th d m us m"
  shows "if us \<noteq> [] then \<exists>s'. scheduler_pass pargs th tv (utime tv) s = Some (Switched, utime tv, s') \<and>
       running s' (Q(ReadyList d \<mapsto> rotate1 us @ [m])) th d m (rotate1 us) (hd us)
     else scheduler_pass None th tv (utime tv) s = Some (Returns (local_tasks d s = 1), utime tv, s)"
proof -
  note d = runningD(4,5)[OF r]
  have "scheduler_balance m s = Some s" using one d by (simp add: scheduler_balance_def)
  then have t: "scheduler_turn th tv (utime tv) s = Some (utime tv, s)"
    using d by (simp add: scheduler_turn_def scheduler_poll_def)
  have n: "scheduler_msgloop None = (\<lambda>_. Some)" by (intro ext) (simp add: scheduler_msgloop_def)
  show ?thesis
  proof (cases "us = []")
    case True
    then show ?thesis using drain_idle[of s Q th d m] r t n by (simp add: scheduler_pass_def)
  next
    case False
    then show ?thesis using drain_dispatches[OF r False, of "scheduler_msgloop pargs"] t by (auto simp: scheduler_pass_def)
  qed
qed

section \<open>Sleeping\<close>

text \<open>
  \<open>__usleep__\<close>: the moment the wait for the null semaphore ends, as seconds and nanoseconds.  The sum is taken
  modulo \<open>2 ^ 64\<close>, since \<open>1000ULL\<close> is unsigned.
\<close>

definition usleep_until :: "64 word \<Rightarrow> 64 word \<times> 64 word \<Rightarrow> 64 word \<times> 64 word" where
  "usleep_until us ts =
     (let tv_nsec = snd ts + us * 1000;
          tv_sec = fst ts + tv_nsec div 1000000000
      in (tv_sec, tv_nsec mod 1000000000))"

text \<open>The answers of \<open>sem_timedwait\<close>: it got the semaphore, was interrupted, timed out, or failed.\<close>

datatype sem_answer = Got | Eintr | Etimedout | Failed

fun usleep_wait :: "sem_answer list \<Rightarrow> int option" where
  "usleep_wait [] = None"
| "usleep_wait (Eintr # as) = usleep_wait as"
| "usleep_wait (Got # as) = Some 0"
| "usleep_wait (Etimedout # as) = Some 1"
| "usleep_wait (Failed # as) = Some (- 1)"

text \<open>The whole call; without a clock it returns 0, as it does when it got the semaphore.\<close>

definition usleep_call :: "64 word \<Rightarrow> (64 word \<times> 64 word) option \<Rightarrow> (64 word \<times> 64 word \<Rightarrow> sem_answer list) \<Rightarrow> int option" where
  "usleep_call us now sem_timedwait = (case now of None \<Rightarrow> Some 0 | Some ts \<Rightarrow> usleep_wait (sem_timedwait (usleep_until us ts)))"

lemma usleep_wait_restarts: "a \<noteq> Eintr \<Longrightarrow> usleep_wait (replicate n Eintr @ a # as) = Some (case a of Got \<Rightarrow> 0 | Etimedout \<Rightarrow> 1 | _ \<Rightarrow> - 1)"
  by (induction n) (cases a; simp)+

text \<open>A sleep of a length that does not overflow ends exactly that much later, at a well-formed time.\<close>

lemma usleep_until_exact:
  assumes "uint (snd ts) + uint us * 1000 < 2 ^ 64" "uint (fst ts) + 2 ^ 35 < 2 ^ 64"
  shows "uint (snd (usleep_until us ts)) < 1000000000"
    and "uint (fst (usleep_until us ts)) * 1000000000 + uint (snd (usleep_until us ts)) =
       uint (fst ts) * 1000000000 + uint (snd ts) + uint us * 1000"
proof -
  let ?n = "snd ts + us * 1000"
  have small: "0 \<le> uint us * 1000" "uint us * 1000 < 2 ^ 64" "0 \<le> uint (snd ts) + uint us * 1000"
    using assms(1) uint_ge_0[of "snd ts"] uint_ge_0[of us] by linarith+
  have "uint (us * 1000) = uint us * 1000 mod 2 ^ 64" by (simp add: uint_word_ariths)
  then have u: "uint (us * 1000) = uint us * 1000" using small(1,2) by (simp only: mod_pos_pos_trivial)
  have "uint ?n = (uint (snd ts) + uint us * 1000) mod 2 ^ 64" by (simp add: uint_word_ariths(1) u)
  then have n: "uint ?n = uint (snd ts) + uint us * 1000" using small(3) assms(1) by (simp only: mod_pos_pos_trivial)
  have q: "uint (?n div 1000000000) = uint ?n div 1000000000" "uint (?n mod 1000000000) = uint ?n mod 1000000000"
    by (simp_all add: uint_div uint_mod)
  have "uint ?n div 1000000000 < 2 ^ 35" using uint_bounded[of ?n] by simp
  moreover have "0 \<le> uint ?n div 1000000000" by (simp add: pos_imp_zdiv_nonneg_iff)
  ultimately have "0 \<le> uint (fst ts) + uint ?n div 1000000000" "uint (fst ts) + uint ?n div 1000000000 < 2 ^ 64"
    using assms(2) uint_ge_0[of "fst ts"] by linarith+
  moreover have "uint (fst ts + ?n div 1000000000) = (uint (fst ts) + uint ?n div 1000000000) mod 2 ^ 64"
    by (simp add: uint_word_ariths(1) q)
  ultimately have f: "uint (fst ts + ?n div 1000000000) = uint (fst ts) + uint ?n div 1000000000"
    by (simp only: mod_pos_pos_trivial)
  show "uint (snd (usleep_until us ts)) < 1000000000" by (simp add: usleep_until_def Let_def q)
  show "uint (fst (usleep_until us ts)) * 1000000000 + uint (snd (usleep_until us ts)) =
      uint (fst ts) * 1000000000 + uint (snd ts) + uint us * 1000"
    using n f q by (simp add: usleep_until_def Let_def distrib_right)
qed

section \<open>Their meaning\<close>

definition micros :: "int \<times> int \<Rightarrow> int" where
  "micros tv = fst tv * 1000000 + snd tv"

lemma utime_eq: "utime tv = of_int (micros tv)"
  by (simp add: utime_def micros_def)

lemma utime_exact: "0 \<le> micros tv \<Longrightarrow> micros tv < 2 ^ 64 \<Longrightarrow> uint (utime tv) = micros tv"
  by (simp add: utime_eq uint_word_of_int)

lemma gap_eq: "utime tv - utime tv0 = of_int (micros tv - micros tv0)"
  by (simp add: utime_eq)

lemma low_half: "sint (ucast (word_of_int x :: 64 word) :: 32 word) = signed_take_bit 31 x"
  by (transfer fixing: x) (simp add: signed_take_bit_take_bit)

text \<open>The elapsed time as the tick gets it: a 32-bit \<open>int\<close>.\<close>

lemma gap_as_int: "sint (ucast (utime tv - utime tv0) :: 32 word) = signed_take_bit 31 (micros tv - micros tv0)"
  unfolding gap_eq by (rule low_half)

lemma gap_exact:
  assumes "- (2 ^ 31) \<le> micros tv - micros tv0" "micros tv - micros tv0 < 2 ^ 31"
  shows "sint (ucast (utime tv - utime tv0) :: 32 word) = micros tv - micros tv0"
  unfolding gap_as_int using assms by (simp add: signed_take_bit_int_eq_self)

lemma gap_negative:
  assumes "2 ^ 31 \<le> micros tv - micros tv0" "micros tv - micros tv0 < 2 ^ 32"
  shows "sint (ucast (utime tv - utime tv0) :: 32 word) = micros tv - micros tv0 - 2 ^ 32"
proof -
  let ?e = "micros tv - micros tv0"
  have "(?e + 2 ^ 31) mod 2 ^ 32 = ((?e - 2 ^ 31) + 2 ^ 32) mod 2 ^ 32"
    by (rule arg_cong[of _ _ "\<lambda>x. x mod 2 ^ 32"]) simp
  also have "\<dots> = ?e - 2 ^ 31" unfolding mod_add_self2 using assms by (intro mod_pos_pos_trivial) simp_all
  finally show ?thesis unfolding gap_as_int by (simp add: signed_take_bit_eq_take_bit_shift take_bit_eq_mod)
qed

section \<open>What a turn does to the timers\<close>

text \<open>The tick of a turn, in a build for one thread, where nothing is balanced.\<close>

lemma turn_ticks:
  assumes one: "one_n_model s" and m: "the_maintask s th = Some b" and g: "utime tv \<noteq> utime tv0"
    and ex: "fiber_watchdog_tickle b (sint (ucast (utime tv - utime tv0) :: 32 word)) s = Some (0, s')"
    and d: "scheddata (tcbs s' b) \<noteq> None" and fr: "frame s s'"
  shows "scheduler_turn th tv (utime tv0) s = Some (utime tv, s')"
proof -
  have "scheduler_balance b s' = Some s'" using one d fr by (auto simp: scheduler_balance_def frame_def)
  with m g ex show ?thesis by (simp add: scheduler_turn_def scheduler_poll_def)
qed

lemma turn_spec:
  assumes one: "one_n_model s" and m: "the_maintask s th = Some b" and g: "utime tv \<noteq> utime tv0"
    and q: "queues s Q" "quiet s" and d: "scheddata (tcbs s b) = Some d"
    and L: "Q (WadogList d) = Some L" "Q (ReadyList d) = Some (us @ [b])" "\<forall>t \<in> set L. timed_ok s Q d b t"
    and gap: "gap = sint (ucast (utime tv - utime tv0) :: 32 word)"
    and F: "F = fst (delta_tick gap (timers s L))" and M: "M = drop (length F) L"
  shows "\<exists>s' Q'. scheduler_turn th tv (utime tv0) s = Some (utime tv, s') \<and> queues s' Q' \<and>
     Q' (WadogList d) = Some M \<and> Q' (ReadyList d) = Some (us @ F @ [b]) \<and> timers s' M = snd (delta_tick gap (timers s L))"
proof -
  obtain s' where s': "fiber_watchdog_tickle b gap s = Some (0, s')"
    "queues s' ((fold drop_node F Q)(WadogList d \<mapsto> M, ReadyList d \<mapsto> us @ F @ [b]))"
    "timers s' M = snd (delta_tick gap (timers s L))" "retimed (woken F (tcbs s)) (tcbs s') (set M)" "frame s s'"
    using watchdog_tickle_spec[OF q d L F M] by blast
  have "scheddata (tcbs s' b) \<noteq> None" using retimedD(2)[OF s'(4), of b] d by (simp add: woken_def)
  from turn_ticks[OF one m g _ this s'(5)] s'(1) gap have "scheduler_turn th tv (utime tv0) s = Some (utime tv, s')" by simp
  with s'(2,3) show ?thesis by fastforce
qed

end
