(* ===== verification/Generator.thy ===== *)
theory Generator
  imports Sched
begin

text \<open>
  The program of \<open>generator.c\<close>: a task that hands out the numbers below a thousand through
  \<open>fiber_yield\<close>, and a task that collects them through \<open>fiber_resume\<close> and prints them. A state of the
  program is the library state with the local variables of the two tasks; a step runs the current task
  up to the end of its next call of the library. The loops are shown to go round exactly as often as
  they are written, each number printed once and in order.
\<close>

section \<open>The two tasks\<close>

datatype main_pc = Main_yield | Main_resume | Main_return

record generator_prog =
  lib :: sys
  the_gen :: nat
  the_main :: nat
  gen_i :: int
  main_i :: int
  main_at :: main_pc
  printed :: "int list"

text \<open>
  One turn of \<open>generator\<close>: the call of \<open>fiber_yield\<close> in the body of the loop. The local \<open>i\<close> is
  incremented when the task runs again, which no other task can tell from now. After the loop the
  function is over and the state stays.
\<close>

definition generator :: "nat \<Rightarrow> generator_prog \<Rightarrow> generator_prog option" where
  "generator th p =
     (if gen_i p < 1000 then do {
        (_, s) \<leftarrow> fiber_yield th (word_of_int (gen_i p)) (lib p);
        Some (p\<lparr>lib := s, gen_i := gen_i p + 1\<rparr>)
      } else Some p)"

text \<open>
  One turn of \<open>generator_maintask\<close>: the loop calls \<open>fiber_sched_yield\<close>, and once it runs again
  \<open>fiber_resume\<close>, whose result goes through an \<open>int64_t\<close> to \<open>printf\<close>.
\<close>

definition generator_maintask :: "nat \<Rightarrow> generator_prog \<Rightarrow> generator_prog option" where
  "generator_maintask th p =
     (case main_at p of
        Main_yield \<Rightarrow>
          if main_i p < 1000 then do {
            (_, s) \<leftarrow> fiber_sched_yield th (lib p);
            Some (p\<lparr>lib := s, main_at := Main_resume\<rparr>)
          } else Some (p\<lparr>main_at := Main_return\<rparr>)
      | Main_resume \<Rightarrow> do {
          (code, s) \<leftarrow> fiber_resume (the_gen p) (lib p);
          Some (p\<lparr>lib := s, printed := printed p @ [sint code], main_i := main_i p + 1, main_at := Main_yield\<rparr>)
        }
      | Main_return \<Rightarrow> Some p)"

definition generator_turn :: "nat \<Rightarrow> generator_prog \<Rightarrow> generator_prog option" where
  "generator_turn th p = do {
     c \<leftarrow> current_task (lib p) th;
     if c = the_gen p then generator th p
     else if c = the_main p then generator_maintask th p
     else None
   }"

fun turns :: "nat \<Rightarrow> nat \<Rightarrow> generator_prog \<Rightarrow> generator_prog option" where
  "turns 0 th p = Some p"
| "turns (Suc k) th p = do { p \<leftarrow> generator_turn th p; turns k th p }"

lemma turns_add: "turns (j + k) th p = do { p \<leftarrow> turns j th p; turns k th p }"
  by (induction j arbitrary: p) (auto split: Option.bind_split)

section \<open>One round\<close>

text \<open>
  The state at the head of both loops: the main task runs, the generator waits behind it on the ready
  list of their thread, and \<open>k\<close> numbers have been printed.
\<close>

definition round_start :: "generator_prog \<Rightarrow> (chain_id \<rightharpoonup> nat list) \<Rightarrow> nat \<Rightarrow> nat \<Rightarrow> nat \<Rightarrow> nat \<Rightarrow> bool" where
  "round_start p Q th d m k =
     (queues (lib p) Q \<and> on_thread (lib p) Q th d m [the_main p, the_gen p] \<and>
      current_task (lib p) th = Some (the_main p) \<and> scheduler (tcbs (lib p) (the_gen p)) = Some m \<and>
      gen_i p = int k \<and> main_i p = int k \<and> main_at p = Main_yield \<and> printed p = map int [0 ..< k])"

lemma small_code: "k < 1000 \<Longrightarrow> sint (word_of_nat k :: 64 word) = int k"
  by (transfer fixing: k) (simp add: signed_take_bit_int_eq_self)

lemma main_yields:
  assumes "round_start p Q th d m k" "k < 1000"
  shows "\<exists>s. generator_turn th p = Some (p\<lparr>lib := s, main_at := Main_resume\<rparr>) \<and>
     running s Q th d m [the_main p, the_gen p] (the_gen p) \<and> scheduler (tcbs s (the_gen p)) = Some m"
proof -
  have dist: "distinct [the_main p, the_gen p, m]" and ql: "Q (ReadyList d) = Some [the_main p, the_gen p, m]"
    using assms queues_distinct[of "lib p" Q "ReadyList d"] by (auto simp: round_start_def on_thread_def)
  obtain s where "fiber_sched_yield th (lib p) = Some (Switched, s)"
    "running s (Q(ReadyList d \<mapsto> [the_main p, the_gen p, m])) th d m [the_main p, the_gen p] (the_gen p)"
    "tcbs s = (tcbs (lib p))(the_main p := (tcbs (lib p) (the_main p))\<lparr>resume_at := K_sched_yield\<rparr>)"
    using sched_yield_elsewhere[of "lib p" Q th d m "[]" "the_main p" "[the_gen p]"] assms
    by (auto simp: round_start_def)
  with assms dist ql show ?thesis
    by (auto simp: generator_turn_def generator_maintask_def round_start_def map_upd_triv)
qed

lemma generator_yields:
  assumes r: "running (lib p) Q th d m [the_main p, the_gen p] (the_gen p)"
    and "gen_i p < 1000" "scheduler (tcbs (lib p) (the_gen p)) = Some m"
  shows "\<exists>s. generator_turn th p = Some (p\<lparr>lib := s, gen_i := gen_i p + 1\<rparr>) \<and>
     queues s (Q(ReadyList d \<mapsto> [the_main p, m])) \<and> current_task s th = Some (the_main p) \<and>
     the_maintask s = the_maintask (lib p) \<and> node_free (Q(ReadyList d \<mapsto> [the_main p, m])) (the_gen p) \<and>
     tcbs s = (tcbs (lib p))(the_gen p := (tcbs (lib p) (the_gen p))\<lparr>yieldCode := word_of_int (gen_i p),
       state := state (tcbs (lib p) (the_gen p)) OR STATES_SUSPENDED, resume_at := K_yield\<rparr>)"
proof -
  have "distinct [the_main p, the_gen p, m]" using running_distinct[OF r] by simp
  moreover have "node_free (Q(ReadyList d \<mapsto> [the_main p, m])) (the_gen p)"
    using gone_spec[OF runningD(1)[OF r], of "ReadyList d" "[the_main p]" "the_gen p" "[m]"] runningD(6)[OF r] by simp
  ultimately show ?thesis
    using fiber_yield_spec[OF r, of "word_of_int (gen_i p)"] runningD(3)[OF r] assms
    by (auto simp: generator_turn_def generator_def next_up_def frame_def)
qed

lemma main_resumes:
  assumes "queues (lib p) (Q(ReadyList d \<mapsto> [the_main p, m]))" "current_task (lib p) th = Some (the_main p)"
    and "node_free (Q(ReadyList d \<mapsto> [the_main p, m])) (the_gen p)" "scheduler (tcbs (lib p) (the_gen p)) = Some m"
    and "the_main p \<noteq> the_gen p" "main_at p = Main_resume"
  shows "\<exists>s. generator_turn th p = Some (p\<lparr>lib := s, printed := printed p @ [sint (yieldCode (tcbs (lib p) (the_gen p)))],
       main_i := main_i p + 1, main_at := Main_yield\<rparr>) \<and>
     queues s (Q(ReadyList d \<mapsto> [the_main p, the_gen p, m])) \<and> current_task s = current_task (lib p) \<and>
     the_maintask s = the_maintask (lib p) \<and>
     (\<forall>t. scheduler (tcbs s t) = scheduler (tcbs (lib p) t) \<and> scheddata (tcbs s t) = scheddata (tcbs (lib p) t))"
  using fiber_resume_spec[OF assms(1,4), of d "[the_main p]"] assms
  by (auto simp: generator_turn_def generator_maintask_def frame_def)

text \<open>A round takes three turns, and leads from the head of the loops to the head of the loops.\<close>

lemma generator_round:
  assumes r: "round_start p Q th d m k" and k: "k < 1000"
  shows "\<exists>p'. turns 3 th p = Some p' \<and> round_start p' Q th d m (Suc k) \<and>
     the_gen p' = the_gen p \<and> the_main p' = the_main p"
proof -
  obtain s1 where s1: "generator_turn th p = Some (p\<lparr>lib := s1, main_at := Main_resume\<rparr>)"
    "running s1 Q th d m [the_main p, the_gen p] (the_gen p)" "scheduler (tcbs s1 (the_gen p)) = Some m"
    using main_yields[OF r k] by blast
  let ?p1 = "p\<lparr>lib := s1, main_at := Main_resume\<rparr>"
  have ki: "gen_i p = int k" "main_i p = int k" "printed p = map int [0 ..< k]" "main_at p = Main_yield"
    using r by (auto simp: round_start_def)
  have dist: "distinct [the_main p, the_gen p, m]" using running_distinct[OF s1(2)] by simp
  obtain s2 where s2: "generator_turn th ?p1 = Some (?p1\<lparr>lib := s2, gen_i := gen_i p + 1\<rparr>)"
    "queues s2 (Q(ReadyList d \<mapsto> [the_main p, m]))" "current_task s2 th = Some (the_main p)"
    "the_maintask s2 = the_maintask s1" "node_free (Q(ReadyList d \<mapsto> [the_main p, m])) (the_gen p)"
    "tcbs s2 = (tcbs s1)(the_gen p := (tcbs s1 (the_gen p))\<lparr>yieldCode := word_of_int (gen_i p),
       state := state (tcbs s1 (the_gen p)) OR STATES_SUSPENDED, resume_at := K_yield\<rparr>)"
    using generator_yields[of ?p1 Q th d m] s1 k ki by auto
  let ?p2 = "?p1\<lparr>lib := s2, gen_i := gen_i p + 1\<rparr>"
  obtain s3 where s3: "generator_turn th ?p2 = Some (?p2\<lparr>lib := s3,
       printed := printed p @ [sint (yieldCode (tcbs s2 (the_gen p)))], main_i := main_i p + 1, main_at := Main_yield\<rparr>)"
    "queues s3 (Q(ReadyList d \<mapsto> [the_main p, the_gen p, m]))" "current_task s3 = current_task s2"
    "the_maintask s3 = the_maintask s2"
    "\<forall>t. scheduler (tcbs s3 t) = scheduler (tcbs s2 t) \<and> scheddata (tcbs s3 t) = scheddata (tcbs s2 t)"
    using main_resumes[of ?p2 Q d m th] s2 s1 dist by auto
  have "Q(ReadyList d \<mapsto> [the_main p, the_gen p, m]) = Q"
    using runningD(6)[OF s1(2)] by (simp add: map_upd_triv)
  then show ?thesis
    using s1 s2 s3 ki k dist runningD(4,5,6)[OF s1(2)]
    by (auto simp: numeral_3_eq_3 round_start_def on_thread_def small_code)
qed

text \<open>\<open>k\<close> rounds print the first \<open>k\<close> numbers, up to the thousand of the loops.\<close>

lemma generator_rounds:
  assumes "round_start p Q th d m 0"
  shows "k \<le> 1000 \<Longrightarrow> \<exists>p'. turns (3 * k) th p = Some p' \<and> round_start p' Q th d m k \<and>
     the_gen p' = the_gen p \<and> the_main p' = the_main p"
proof (induction k)
  case 0
  then show ?case using assms by simp
next
  case (Suc k)
  then obtain p1 where p1: "turns (3 * k) th p = Some p1" "round_start p1 Q th d m k"
    "the_gen p1 = the_gen p" "the_main p1 = the_main p" by auto
  moreover have "3 * Suc k = 3 * k + 3" by simp
  ultimately show ?case
    using generator_round[OF p1(2)] Suc.prems turns_add[of "3 * k" 3] by (metis Suc_le_eq bind.bind_lunit)
qed

text \<open>The main task then leaves its loop.\<close>

lemma main_returns:
  assumes "round_start p Q th d m 1000"
  shows "generator_turn th p = Some (p\<lparr>main_at := Main_return\<rparr>)"
proof -
  have "the_main p \<noteq> the_gen p"
    using assms queues_distinct[of "lib p" Q "ReadyList d"] by (auto simp: round_start_def on_thread_def)
  with assms show ?thesis by (simp add: generator_turn_def generator_maintask_def round_start_def)
qed

end
