(* ===== verification/Reader_Writer.thy ===== *)
theory Reader_Writer
  imports Mutex Semaphore
begin

text \<open>
  The program of \<open>reader_writer.c\<close>: eight readers and a writer share a small database. The semaphore
  \<open>q\<close> lines them up at the entry, the mutex guards the counter \<open>nreaders\<close>, and the semaphore \<open>db\<close> is held
  by the writer or by the readers as a group. The program runs on the contracts of the semaphore and the
  mutex (\<open>asem\<close>, \<open>amutex\<close>), which the calls of the library refine; a turn is one statement of one
  task, and the tasks take turns in any order. A writer never works beside a reader, and the tasks
  never wait for each other in a circle.
\<close>

section \<open>The program\<close>

text \<open>The statement a task executes next, in the order of \<open>reader\<close> and of \<open>writer\<close>.\<close>

datatype rw_pc =
    R_q | R_lock | R_inc | R_first | R_unlock | R_read | R_post | R_lock2 | R_dec | R_last | R_unlock2
  | W_q | W_db | W_write nat | W_postq | W_postdb
  | Absent

record rw_prog =
  sem_q :: asem
  sem_db :: asem
  rw_mtx :: amutex
  nreaders :: int
  dbase :: "int list"
  reader_id :: "nat \<Rightarrow> nat"
  pc_of :: "nat \<Rightarrow> rw_pc"
  reads :: "(nat \<times> int) list"

definition MAXTHREAD :: nat where
  "MAXTHREAD = 8"

text \<open>
  \<open>initializeTasks\<close>: the objects are fresh, and the tasks that \<open>fiber_create\<close> returned stand at the
  start of their functions.
\<close>

definition initialize_rw :: "nat list \<Rightarrow> nat \<Rightarrow> rw_prog" where
  "initialize_rw rs wt = \<lparr>sem_q = asem_new 1, sem_db = asem_new 1, rw_mtx = amutex_new, nreaders = 0,
     dbase = replicate MAXTHREAD 0, reader_id = the \<circ> map_of (zip rs [1 ..< Suc MAXTHREAD]),
     pc_of = (\<lambda>t. if t = wt then W_q else if t \<in> set rs then R_q else Absent), reads = []\<rparr>"

text \<open>A task that called an object and was not let in yet stands in its queue, and does not run.\<close>

definition runnable :: "rw_prog \<Rightarrow> nat \<Rightarrow> bool" where
  "runnable s t = (t \<notin> set (pending (sem_q s)) \<and> t \<notin> set (pending (sem_db s)) \<and> t \<notin> set (waiters (rw_mtx s)))"

abbreviation goto :: "nat \<Rightarrow> rw_pc \<Rightarrow> rw_prog \<Rightarrow> rw_prog" where
  "goto t k s \<equiv> s\<lparr>pc_of := (pc_of s)(t := k)\<rparr>"

definition access_database :: "nat \<Rightarrow> rw_prog \<Rightarrow> int" where
  "access_database i s = dbase s ! i"

definition reader_turn :: "nat \<Rightarrow> rw_prog \<Rightarrow> rw_prog" where
  "reader_turn t s =
     (case pc_of s t of
        R_q \<Rightarrow> goto t R_lock (s\<lparr>sem_q := asem_wait t (sem_q s)\<rparr>)
      | R_lock \<Rightarrow> goto t R_inc (s\<lparr>rw_mtx := amutex_lock t (rw_mtx s)\<rparr>)
      | R_inc \<Rightarrow> goto t R_first (s\<lparr>nreaders := nreaders s + 1\<rparr>)
      | R_first \<Rightarrow> goto t R_unlock (s\<lparr>sem_db := (if nreaders s = 1 then asem_wait t (sem_db s) else sem_db s)\<rparr>)
      | R_unlock \<Rightarrow> goto t R_read (s\<lparr>rw_mtx := amutex_unlock t (rw_mtx s)\<rparr>)
      | R_read \<Rightarrow> goto t R_post (s\<lparr>reads := reads s @ [(t, access_database (reader_id s t - 1) s)]\<rparr>)
      | R_post \<Rightarrow> goto t R_lock2 (s\<lparr>sem_q := asem_post (sem_q s)\<rparr>)
      | R_lock2 \<Rightarrow> goto t R_dec (s\<lparr>rw_mtx := amutex_lock t (rw_mtx s)\<rparr>)
      | R_dec \<Rightarrow> goto t R_last (s\<lparr>nreaders := nreaders s - 1\<rparr>)
      | R_last \<Rightarrow> goto t R_unlock2 (s\<lparr>sem_db := (if nreaders s = 0 then asem_post (sem_db s) else sem_db s)\<rparr>)
      | R_unlock2 \<Rightarrow> goto t R_q (s\<lparr>rw_mtx := amutex_unlock t (rw_mtx s)\<rparr>)
      | _ \<Rightarrow> s)"

text \<open>
  \<open>writer\<close>, with \<open>write_database\<close> as its inner loop: one element is written per turn, and \<open>v\<close> stands
  for the number that \<open>rand () % 1000\<close> delivers.
\<close>

definition writer_turn :: "nat \<Rightarrow> int \<Rightarrow> rw_prog \<Rightarrow> rw_prog" where
  "writer_turn t v s =
     (case pc_of s t of
        W_q \<Rightarrow> goto t W_db (s\<lparr>sem_q := asem_wait t (sem_q s)\<rparr>)
      | W_db \<Rightarrow> goto t (W_write 0) (s\<lparr>sem_db := asem_wait t (sem_db s)\<rparr>)
      | W_write i \<Rightarrow> if i < MAXTHREAD then goto t (W_write (i + 1)) (s\<lparr>dbase := (dbase s)[i := v]\<rparr>)
                     else goto t W_postq s
      | W_postq \<Rightarrow> goto t W_postdb (s\<lparr>sem_q := asem_post (sem_q s)\<rparr>)
      | W_postdb \<Rightarrow> goto t W_q (s\<lparr>sem_db := asem_post (sem_db s)\<rparr>)
      | _ \<Rightarrow> s)"

inductive rw_demo_reachable :: "nat list \<Rightarrow> nat \<Rightarrow> rw_prog \<Rightarrow> bool" for rs and wt where
  start: "rw_demo_reachable rs wt (initialize_rw rs wt)"
| reads: "rw_demo_reachable rs wt s \<Longrightarrow> runnable s t \<Longrightarrow> rw_demo_reachable rs wt (reader_turn t s)"
| writes: "rw_demo_reachable rs wt s \<Longrightarrow> runnable s t \<Longrightarrow> rw_demo_reachable rs wt (writer_turn t v s)"

section \<open>Binary semaphores\<close>

text \<open>A semaphore with one token: free, or held with the later callers waiting.\<close>

definition binary :: "bool \<Rightarrow> asem \<Rightarrow> bool" where
  "binary free a = (if free then a = asem_new 1 else credit a = - int (length (pending a)) \<and> distinct (pending a))"

lemma binary_new [simp]: "binary free (asem_new 1) = free"
  by (simp add: binary_def asem_new_def)

lemma binary_free: "binary True a \<Longrightarrow> pending a = []"
  by (simp add: binary_def asem_new_def)

lemma binary_wait:
  assumes "binary free a" "t \<notin> set (pending a)"
  shows "binary False (asem_wait t a)" "pending (asem_wait t a) = (if free then [] else pending a @ [t])"
  using assms by (cases free; simp add: binary_def asem_wait_def asem_new_def)+

lemma binary_post:
  assumes "binary False a"
  shows "binary (pending a = []) (asem_post a)" "pending (asem_post a) = tl (pending a)"
  using assms by (cases "pending a"; simp add: binary_def asem_post_def asem_new_def)+

section \<open>Guarded sections\<close>

text \<open>
  A section of the program with a holder \<open>h\<close> and a queue \<open>ws\<close> at its entry: those who are inside are the
  holder and the ones in the queue. The same bookkeeping serves the mutex, the entry queue and the
  database, where the readers count as one party.
\<close>

definition guarded :: "('a \<Rightarrow> bool) \<Rightarrow> 'a option \<Rightarrow> 'a list \<Rightarrow> bool" where
  "guarded inside h ws = (distinct ws \<and> (h = None \<longrightarrow> ws = []) \<and> (\<forall>a. h = Some a \<longrightarrow> a \<notin> set ws) \<and>
     (\<forall>a. inside a = (h = Some a \<or> a \<in> set ws)))"

lemma guarded_empty: "(\<And>a. \<not> inside a) \<Longrightarrow> guarded inside None []"
  by (simp add: guarded_def)

lemma guarded_enter:
  assumes "guarded inside h ws" "\<not> inside a" "\<And>b. inside' b = (b = a \<or> inside b)"
  shows "guarded inside' (if h = None then Some a else h) (if h = None then [] else ws @ [a])"
  using assms by (auto simp: guarded_def)

lemma guarded_leave:
  assumes "guarded inside (Some a) ws" "\<And>b. inside' b = (b \<noteq> a \<and> inside b)"
  shows "guarded inside' (if ws = [] then None else Some (hd ws)) (tl ws)"
  using assms by (cases ws) (auto simp: guarded_def)

lemma guarded_holder: "guarded inside h ws \<Longrightarrow> inside a \<Longrightarrow> a \<notin> set ws \<Longrightarrow> h = Some a"
  by (auto simp: guarded_def)

lemma guarded_cong: "guarded inside h ws \<Longrightarrow> (\<And>a. inside' a = inside a) \<Longrightarrow> guarded inside' h ws"
  by (simp add: guarded_def)

section \<open>The mutex and the counter\<close>

definition in_mutex :: "rw_pc \<Rightarrow> bool" where
  "in_mutex k = (k \<in> {R_inc, R_first, R_unlock, R_dec, R_last, R_unlock2})"

definition counted :: "rw_pc \<Rightarrow> bool" where
  "counted k = (k \<in> {R_first, R_unlock, R_read, R_post, R_lock2, R_dec})"

definition at_lock :: "rw_pc \<Rightarrow> bool" where
  "at_lock k = (k \<in> {R_inc, R_dec})"

text \<open>
  The tasks between the calls of \<open>fiber_mutex_lock\<close> and \<open>fiber_mutex_unlock\<close> are the owner of the mutex and
  those waiting for it; the counter is the number of readers inside.
\<close>

definition mutex_part :: "amutex \<Rightarrow> (nat \<Rightarrow> rw_pc) \<Rightarrow> bool" where
  "mutex_part a pc = (guarded (\<lambda>t. in_mutex (pc t)) (owner a) (waiters a) \<and>
     depth a = (if owner a = None then 0 else 1) \<and> (\<forall>t \<in> set (waiters a). at_lock (pc t)))"

definition count_part :: "int \<Rightarrow> (nat \<Rightarrow> rw_pc) \<Rightarrow> bool" where
  "count_part n pc = (finite {t. counted (pc t)} \<and> n = int (card {t. counted (pc t)}))"

lemma mutex_move:
  assumes "mutex_part a pc" "in_mutex k = in_mutex (pc t)" "t \<notin> set (waiters a)"
  shows "mutex_part a (pc(t := k))"
  using assms by (auto simp: mutex_part_def elim: guarded_cong)

lemma mutex_enter:
  assumes m: "mutex_part a pc" and t: "\<not> in_mutex (pc t)" and k: "at_lock k" "in_mutex k"
  shows "mutex_part (amutex_lock t a) (pc(t := k))"
proof -
  have n: "owner a \<noteq> Some t" "t \<notin> set (waiters a)" using m t by (auto simp: mutex_part_def guarded_def)
  have "guarded (\<lambda>u. in_mutex ((pc(t := k)) u)) (if owner a = None then Some t else owner a)
      (if owner a = None then [] else waiters a @ [t])"
    by (rule guarded_enter[where inside = "\<lambda>u. in_mutex (pc u)"]) (use m t k in \<open>simp_all add: mutex_part_def\<close>)
  moreover have "owner a = None \<longrightarrow> waiters a = []" using m by (simp add: mutex_part_def guarded_def)
  ultimately show ?thesis
    using m n k by (cases "owner a") (simp_all add: mutex_part_def amutex_lock_def)
qed

lemma mutex_leave:
  assumes m: "mutex_part a pc" and t: "owner a = Some t" and k: "\<not> in_mutex k"
  shows "mutex_part (amutex_unlock t a) (pc(t := k))"
proof -
  have n: "t \<notin> set (waiters a)" using m t by (auto simp: mutex_part_def guarded_def)
  have "guarded (\<lambda>u. in_mutex ((pc(t := k)) u)) (if waiters a = [] then None else Some (hd (waiters a))) (tl (waiters a))"
    by (rule guarded_leave[where inside = "\<lambda>u. in_mutex (pc u)" and a = t]) (use m t k in \<open>simp_all add: mutex_part_def\<close>)
  with m t n show ?thesis
    by (cases "waiters a") (auto simp: mutex_part_def amutex_unlock_def)
qed

lemma mutex_owner: "mutex_part a pc \<Longrightarrow> in_mutex (pc t) \<Longrightarrow> t \<notin> set (waiters a) \<Longrightarrow> owner a = Some t"
  unfolding mutex_part_def by (blast dest: guarded_holder)

text \<open>Only the owner is past the call of \<open>fiber_mutex_lock\<close>.\<close>

lemma mutex_alone:
  assumes "mutex_part a pc" "owner a = Some t" "in_mutex (pc u)" "\<not> at_lock (pc u)"
  shows "u = t"
proof -
  have "u \<notin> set (waiters a)" using assms(1,4) unfolding mutex_part_def by blast
  then show ?thesis using mutex_owner[OF assms(1,3)] assms(2) by simp
qed

lemma count_keep: "count_part n pc \<Longrightarrow> counted k = counted (pc t) \<Longrightarrow> count_part n (pc(t := k))"
  unfolding count_part_def by (subst (1 2) members_keep[of counted]) simp_all

lemma count_up: "count_part n pc \<Longrightarrow> \<not> counted (pc t) \<Longrightarrow> counted k \<Longrightarrow> count_part (n + 1) (pc(t := k))"
  using members_gain[of counted pc t k] unfolding count_part_def by linarith

lemma count_down: "count_part n pc \<Longrightarrow> counted (pc t) \<Longrightarrow> \<not> counted k \<Longrightarrow> count_part (n - 1) (pc(t := k))"
  using members_lose[of counted pc t k] unfolding count_part_def by linarith

lemma count_two: "count_part n pc \<Longrightarrow> counted (pc t) \<Longrightarrow> counted (pc u) \<Longrightarrow> t \<noteq> u \<Longrightarrow> 2 \<le> n"
  using card_mono[of "{t. counted (pc t)}" "{t, u}"] by (simp add: count_part_def)

lemma count_one: "count_part n pc \<Longrightarrow> counted (pc t) \<Longrightarrow> 1 \<le> n"
  using card_mono[of "{t. counted (pc t)}" "{t}"] by (simp add: count_part_def)

lemma count_nonneg: "count_part n pc \<Longrightarrow> 0 \<le> n"
  by (simp add: count_part_def)

section \<open>The entry queue\<close>

definition queued :: "rw_pc \<Rightarrow> bool" where
  "queued k = (case k of W_write i \<Rightarrow> True
     | _ \<Rightarrow> k \<in> {R_lock, R_inc, R_first, R_unlock, R_read, R_post, W_db, W_postq})"

definition queue_part :: "asem \<Rightarrow> (nat \<Rightarrow> rw_pc) \<Rightarrow> bool" where
  "queue_part a pc = (\<exists>h. binary (h = None) a \<and> guarded (\<lambda>t. queued (pc t)) h (pending a) \<and>
     (\<forall>t \<in> set (pending a). pc t = R_lock \<or> pc t = W_db))"

lemma queue_move:
  assumes "queue_part a pc" "queued k = queued (pc t)" "t \<notin> set (pending a)"
  shows "queue_part a (pc(t := k))"
proof -
  obtain h where h: "binary (h = None) a" "guarded (\<lambda>t. queued (pc t)) h (pending a)"
    "\<forall>t \<in> set (pending a). pc t = R_lock \<or> pc t = W_db" using assms(1) by (auto simp: queue_part_def)
  have "guarded (\<lambda>u. queued ((pc(t := k)) u)) h (pending a)" by (rule guarded_cong[OF h(2)]) (simp add: assms(2))
  with h assms(3) show ?thesis unfolding queue_part_def by (intro exI[of _ h]) auto
qed

lemma queue_enter:
  assumes "queue_part a pc" "\<not> queued (pc t)" and k: "k = R_lock \<or> k = W_db"
  shows "queue_part (asem_wait t a) (pc(t := k))"
proof -
  obtain h where h: "binary (h = None) a" "guarded (\<lambda>t. queued (pc t)) h (pending a)"
    "\<forall>t \<in> set (pending a). pc t = R_lock \<or> pc t = W_db" using assms(1) by (auto simp: queue_part_def)
  have t: "t \<notin> set (pending a)" using h(2) assms(2) by (auto simp: guarded_def)
  have "guarded (\<lambda>u. queued ((pc(t := k)) u)) (if h = None then Some t else h) (if h = None then [] else pending a @ [t])"
    by (rule guarded_enter[OF h(2)]) (use assms in \<open>auto simp: queued_def\<close>)
  with h(3) t k binary_wait[OF h(1) t] show ?thesis
    unfolding queue_part_def by (intro exI[of _ "if h = None then Some t else h"]) auto
qed

lemma queue_leave:
  assumes "queue_part a pc" "queued (pc t)" "t \<notin> set (pending a)" "\<not> queued k"
  shows "queue_part (asem_post a) (pc(t := k))"
proof -
  obtain h where h: "binary (h = None) a" "guarded (\<lambda>t. queued (pc t)) h (pending a)"
    "\<forall>t \<in> set (pending a). pc t = R_lock \<or> pc t = W_db" using assms(1) by (auto simp: queue_part_def)
  have t: "h = Some t" by (rule guarded_holder[OF h(2)]) (use assms in simp_all)
  then have b: "binary False a" using h(1) by simp
  have "guarded (\<lambda>u. queued ((pc(t := k)) u)) (if pending a = [] then None else Some (hd (pending a))) (tl (pending a))"
    by (rule guarded_leave[OF h(2)[unfolded t]]) (use assms in auto)
  moreover have "\<forall>u \<in> set (tl (pending a)). (pc(t := k)) u = R_lock \<or> (pc(t := k)) u = W_db"
    using h(3) assms(3) by (cases "pending a") auto
  ultimately show ?thesis
    using binary_post[OF b] unfolding queue_part_def
    by (intro exI[of _ "if pending a = [] then None else Some (hd (pending a))"]) auto
qed

section \<open>The database\<close>

definition writing :: "rw_pc \<Rightarrow> bool" where
  "writing k = (case k of W_write i \<Rightarrow> True | _ \<Rightarrow> k \<in> {W_postq, W_postdb})"

text \<open>
  The readers have called for \<open>db\<close> from the turn after the first of them came in until the last one
  posts it; \<open>party\<close> names on whose behalf a task waits for it.
\<close>

definition readers_hold :: "int \<Rightarrow> (nat \<Rightarrow> rw_pc) \<Rightarrow> bool" where
  "readers_hold n pc = ((0 < n \<and> \<not> (n = 1 \<and> R_first \<in> range pc)) \<or> (n = 0 \<and> R_last \<in> range pc))"

definition in_db :: "int \<Rightarrow> (nat \<Rightarrow> rw_pc) \<Rightarrow> nat option \<Rightarrow> bool" where
  "in_db n pc a = (case a of None \<Rightarrow> readers_hold n pc | Some w \<Rightarrow> writing (pc w))"

definition party :: "(nat \<Rightarrow> rw_pc) \<Rightarrow> nat \<Rightarrow> nat option" where
  "party pc t = (if pc t = R_unlock then None else Some t)"

definition db_waiter :: "(nat \<Rightarrow> rw_pc) \<Rightarrow> nat \<Rightarrow> bool" where
  "db_waiter pc t = (pc t = W_write 0 \<or> (pc t = R_unlock \<and> (\<forall>u. counted (pc u) \<longrightarrow> u = t)))"

definition db_part :: "asem \<Rightarrow> int \<Rightarrow> (nat \<Rightarrow> rw_pc) \<Rightarrow> bool" where
  "db_part a n pc = (\<exists>h. binary (h = None) a \<and> guarded (in_db n pc) h (map (party pc) (pending a)) \<and>
     (\<forall>t \<in> set (pending a). db_waiter pc t))"

lemma party_upd: "t \<notin> set ws \<Longrightarrow> map (party (pc(t := k))) ws = map (party pc) ws"
  by (auto simp: party_def)

lemma db_partE:
  assumes "db_part a n pc"
  obtains h where "binary (h = None) a" "guarded (in_db n pc) h (map (party pc) (pending a))"
    "\<forall>t \<in> set (pending a). db_waiter pc t"
  using assms by (auto simp: db_part_def)

lemma db_waiter_upd:
  assumes "db_waiter pc u" "u \<noteq> t" "counted k \<longrightarrow> counted (pc t) \<or> pc u \<noteq> R_unlock"
  shows "db_waiter (pc(t := k)) u"
  using assms by (auto simp: db_waiter_def)

lemma db_move:
  assumes d: "db_part a n pc" and t: "t \<notin> set (pending a)" and k: "writing k = writing (pc t)"
    and r: "readers_hold n' (pc(t := k)) = readers_hold n pc"
    and c: "counted k \<longrightarrow> counted (pc t) \<or> (\<forall>u \<in> set (pending a). pc u \<noteq> R_unlock)"
  shows "db_part a n' (pc(t := k))"
proof -
  obtain h where h: "binary (h = None) a" "guarded (in_db n pc) h (map (party pc) (pending a))"
    "\<forall>t \<in> set (pending a). db_waiter pc t" by (rule db_partE[OF d])
  have "guarded (in_db n' (pc(t := k))) h (map (party (pc(t := k))) (pending a))"
    unfolding party_upd[OF t] by (rule guarded_cong[OF h(2)]) (use k r in \<open>simp add: in_db_def split: option.splits\<close>)
  moreover have "\<forall>u \<in> set (pending a). db_waiter (pc(t := k)) u" using h(3) t c by (metis db_waiter_upd)
  ultimately show ?thesis using h(1) unfolding db_part_def by blast
qed

text \<open>A call of \<open>fiber_sem_wait\<close> on \<open>db\<close>, on behalf of \<open>party pc' t\<close>.\<close>

lemma db_enter:
  assumes d: "db_part a n pc" and t: "t \<notin> set (pending a)" and out: "\<not> in_db n pc (party pc' t)"
    and pc': "pc' = pc(t := k)" and wt: "db_waiter pc' t"
    and r: "\<And>b. in_db n pc' b = (b = party pc' t \<or> in_db n pc b)"
    and c: "counted k \<longrightarrow> counted (pc t)"
  shows "db_part (asem_wait t a) n pc'"
proof -
  obtain h where h: "binary (h = None) a" "guarded (in_db n pc) h (map (party pc) (pending a))"
    "\<forall>t \<in> set (pending a). db_waiter pc t" by (rule db_partE[OF d])
  have "guarded (in_db n pc') (if h = None then Some (party pc' t) else h)
      (if h = None then [] else map (party pc) (pending a) @ [party pc' t])"
    by (rule guarded_enter[OF h(2) out r])
  then have "guarded (in_db n pc') (if h = None then Some (party pc' t) else h) (map (party pc') (pending (asem_wait t a)))"
    unfolding pc' binary_wait(2)[OF h(1) t] by (cases h) (simp_all add: party_upd t)
  moreover have "\<forall>u \<in> set (pending (asem_wait t a)). db_waiter pc' u"
    using h(3) t c wt db_waiter_upd[of pc _ t k] binary_wait(2)[OF h(1) t] by (auto simp: pc')
  ultimately show ?thesis
    using binary_wait(1)[OF h(1) t] unfolding db_part_def by (intro exI[of _ "if h = None then Some (party pc' t) else h"]) auto
qed

text \<open>A call of \<open>fiber_sem_post\<close> on \<open>db\<close> by the party that holds it.\<close>

lemma db_leave:
  assumes d: "db_part a n pc" and t: "t \<notin> set (pending a)" and inn: "in_db n pc p"
    and hold: "p \<notin> set (map (party pc) (pending a))"
    and r: "\<And>b. in_db n (pc(t := k)) b = (b \<noteq> p \<and> in_db n pc b)" and c: "counted k \<longrightarrow> counted (pc t)"
  shows "db_part (asem_post a) n (pc(t := k))"
proof -
  obtain h where h: "binary (h = None) a" "guarded (in_db n pc) h (map (party pc) (pending a))"
    "\<forall>t \<in> set (pending a). db_waiter pc t" by (rule db_partE[OF d])
  have p: "h = Some p" by (rule guarded_holder[OF h(2) inn hold])
  let ?h = "if map (party pc) (pending a) = [] then None else Some (hd (map (party pc) (pending a)))"
  have "guarded (in_db n (pc(t := k))) ?h (tl (map (party pc) (pending a)))"
    by (rule guarded_leave[OF h(2)[unfolded p] r])
  then have "guarded (in_db n (pc(t := k))) ?h (map (party (pc(t := k))) (tl (pending a)))"
    using t by (cases "pending a") (simp_all add: party_upd)
  moreover have "\<forall>u \<in> set (tl (pending a)). db_waiter (pc(t := k)) u"
    using h(3) t c db_waiter_upd[of pc _ t k] by (cases "pending a") auto
  ultimately show ?thesis
    using binary_post[of a] h(1) p unfolding db_part_def by (intro exI[of _ ?h]) auto
qed

section \<open>The invariant\<close>

definition rw_demo_inv :: "rw_prog \<Rightarrow> bool" where
  "rw_demo_inv s = (mutex_part (rw_mtx s) (pc_of s) \<and> count_part (nreaders s) (pc_of s) \<and>
     queue_part (sem_q s) (pc_of s) \<and> db_part (sem_db s) (nreaders s) (pc_of s))"

lemmas pc_defs = in_mutex_def at_lock_def counted_def queued_def writing_def

lemma initial_pc:
  "pc_of (initialize_rw rs wt) t = (if t = wt then W_q else if t \<in> set rs then R_q else Absent)"
  by (simp add: initialize_rw_def)

lemma initial_sel [simp]:
  "sem_q (initialize_rw rs wt) = asem_new 1" "sem_db (initialize_rw rs wt) = asem_new 1"
  "rw_mtx (initialize_rw rs wt) = amutex_new" "nreaders (initialize_rw rs wt) = 0"
  by (simp_all add: initialize_rw_def)

lemma rw_demo_start: "rw_demo_inv (initialize_rw rs wt)"
proof -
  define pc where "pc = pc_of (initialize_rw rs wt)"
  have none: "\<not> in_mutex (pc t)" "\<not> counted (pc t)" "\<not> queued (pc t)" "\<not> in_db 0 pc a" for t a
    by (auto simp: pc_def initial_pc pc_defs in_db_def readers_hold_def image_iff split: option.splits)
  have "pending (asem_new 1) = []" by (simp add: asem_new_def)
  then show ?thesis
    unfolding rw_demo_inv_def pc_def[symmetric] initial_sel mutex_part_def count_part_def queue_part_def db_part_def
    by (simp add: guarded_def none amutex_new_def)
qed

lemma readers_hold_upd:
  assumes "pc t \<notin> {R_first, R_last}" "k \<notin> {R_first, R_last}"
  shows "readers_hold n (pc(t := k)) = readers_hold n pc"
proof -
  have "x \<in> range (pc(t := k)) \<longleftrightarrow> x \<in> range pc" if "x \<in> {R_first, R_last}" for x
    using assms that by (auto simp: image_iff) (metis fun_upd_apply)+
  then show ?thesis by (simp add: readers_hold_def)
qed

lemma writer_keeps:
  assumes inv: "rw_demo_inv s" and run: "runnable s t"
  shows "rw_demo_inv (writer_turn t v s)"
proof -
  have p: "mutex_part (rw_mtx s) (pc_of s)" "count_part (nreaders s) (pc_of s)" "queue_part (sem_q s) (pc_of s)"
    "db_part (sem_db s) (nreaders s) (pc_of s)" using inv by (simp_all add: rw_demo_inv_def)
  have r: "t \<notin> set (pending (sem_q s))" "t \<notin> set (pending (sem_db s))" "t \<notin> set (waiters (rw_mtx s))"
    using run by (simp_all add: runnable_def)
  note moves = mutex_move[OF p(1) _ r(3)] count_keep[OF p(2)] queue_move[OF p(3) _ r(1)]
    db_move[OF p(4) r(2) _ readers_hold_upd]
  have db_in: "db_part (asem_wait t (sem_db s)) (nreaders s) ((pc_of s)(t := W_write 0))" if "pc_of s t = W_db"
    by (rule db_enter[OF p(4) r(2) _ refl])
      (use that readers_hold_upd[of "pc_of s" t "W_write 0"] in \<open>auto simp: party_def in_db_def db_waiter_def pc_defs split: option.splits\<close>)
  have db_out: "db_part (asem_post (sem_db s)) (nreaders s) ((pc_of s)(t := W_q))" if "pc_of s t = W_postdb"
    by (rule db_leave[OF p(4) r(2), where p = "Some t"])
      (use that r readers_hold_upd[of "pc_of s" t W_q] in \<open>auto simp: party_def in_db_def pc_defs split: option.splits if_splits\<close>)
  show ?thesis
    using p moves db_in db_out queue_enter[OF p(3), of t W_db] queue_leave[OF p(3) _ r(1), of W_postdb]
    by (cases "pc_of s t") (simp_all add: rw_demo_inv_def writer_turn_def pc_defs)
qed

text \<open>What the readers' turns inside the mutex do to the database.\<close>

lemma reader_keeps_db:
  assumes inv: "rw_demo_inv s" and run: "runnable s t" and at: "in_mutex (pc_of s t)"
  shows "pc_of s t = R_inc \<Longrightarrow> db_part (sem_db s) (nreaders s + 1) ((pc_of s)(t := R_first))"
    and "pc_of s t = R_first \<Longrightarrow> db_part (if nreaders s = 1 then asem_wait t (sem_db s) else sem_db s) (nreaders s) ((pc_of s)(t := R_unlock))"
    and "pc_of s t = R_dec \<Longrightarrow> db_part (sem_db s) (nreaders s - 1) ((pc_of s)(t := R_last))"
    and "pc_of s t = R_last \<Longrightarrow> db_part (if nreaders s = 0 then asem_post (sem_db s) else sem_db s) (nreaders s) ((pc_of s)(t := R_unlock2))"
proof -
  have p: "mutex_part (rw_mtx s) (pc_of s)" "count_part (nreaders s) (pc_of s)" "db_part (sem_db s) (nreaders s) (pc_of s)"
    using inv by (simp_all add: rw_demo_inv_def)
  have r: "t \<notin> set (pending (sem_db s))" "t \<notin> set (waiters (rw_mtx s))" using run by (simp_all add: runnable_def)
  have own: "owner (rw_mtx s) = Some t" by (rule mutex_owner[OF p(1) at r(2)])
  have alone: "pc_of s u \<notin> {R_first, R_unlock, R_last, R_unlock2}" if "u \<noteq> t" for u
    using mutex_alone[OF p(1) own, of u] that by (auto simp: pc_defs)
  have no_reader: "pc_of s u \<noteq> R_unlock" if "u \<in> set (pending (sem_db s))" for u
    using alone[of u] r that by auto
  have firsts: "R_first \<in> range ((pc_of s)(t := k)) \<longleftrightarrow> k = R_first" "R_last \<in> range ((pc_of s)(t := k)) \<longleftrightarrow> k = R_last"
    "R_first \<in> range (pc_of s) \<longleftrightarrow> pc_of s t = R_first" "R_last \<in> range (pc_of s) \<longleftrightarrow> pc_of s t = R_last" for k
    using alone by (auto simp: image_iff) (metis fun_upd_same)+
  note pos = count_nonneg[OF p(2)] count_one[OF p(2), of t] count_two[OF p(2), of t]
  show "db_part (sem_db s) (nreaders s + 1) ((pc_of s)(t := R_first))" if "pc_of s t = R_inc"
    by (rule db_move[OF p(3) r(1)]) (use that pos no_reader firsts in \<open>auto simp: readers_hold_def pc_defs\<close>)
  show "db_part (sem_db s) (nreaders s - 1) ((pc_of s)(t := R_last))" if "pc_of s t = R_dec"
    by (rule db_move[OF p(3) r(1)]) (use that pos no_reader firsts in \<open>auto simp: readers_hold_def pc_defs\<close>)
  show "db_part (if nreaders s = 1 then asem_wait t (sem_db s) else sem_db s) (nreaders s) ((pc_of s)(t := R_unlock))" if "pc_of s t = R_first"
  proof (cases "nreaders s = 1")
    case True
    have "\<forall>u. counted (pc_of s u) \<longrightarrow> u = t" using that True pos(3) by (auto simp: pc_defs)
    then have dw: "db_waiter ((pc_of s)(t := R_unlock)) t" by (simp add: db_waiter_def)
    have "db_part (asem_wait t (sem_db s)) (nreaders s) ((pc_of s)(t := R_unlock))"
      by (rule db_enter[OF p(3) r(1) _ refl dw])
        (use that True firsts in \<open>auto simp: party_def in_db_def readers_hold_def pc_defs split: option.splits if_splits\<close>)
    with True show ?thesis by simp
  next
    case False
    then show ?thesis
      by simp (rule db_move[OF p(3) r(1)], use that pos no_reader firsts in \<open>auto simp: readers_hold_def pc_defs\<close>)
  qed
  show "db_part (if nreaders s = 0 then asem_post (sem_db s) else sem_db s) (nreaders s) ((pc_of s)(t := R_unlock2))" if "pc_of s t = R_last"
  proof (cases "nreaders s = 0")
    case True
    have "db_part (asem_post (sem_db s)) (nreaders s) ((pc_of s)(t := R_unlock2))"
      by (rule db_leave[OF p(3) r(1), where p = None]) (use that True firsts no_reader in \<open>auto simp: party_def in_db_def
        readers_hold_def pc_defs split: option.splits if_splits\<close>)
    with True show ?thesis by simp
  next
    case False
    then show ?thesis
      by simp (rule db_move[OF p(3) r(1)], use that pos no_reader firsts in \<open>auto simp: readers_hold_def pc_defs\<close>)
  qed
qed

lemma reader_keeps:
  assumes inv: "rw_demo_inv s" and run: "runnable s t"
  shows "rw_demo_inv (reader_turn t s)"
proof -
  have p: "mutex_part (rw_mtx s) (pc_of s)" "count_part (nreaders s) (pc_of s)" "queue_part (sem_q s) (pc_of s)"
    "db_part (sem_db s) (nreaders s) (pc_of s)" using inv by (simp_all add: rw_demo_inv_def)
  have r: "t \<notin> set (pending (sem_q s))" "t \<notin> set (pending (sem_db s))" "t \<notin> set (waiters (rw_mtx s))"
    using run by (simp_all add: runnable_def)
  note moves = mutex_move[OF p(1) _ r(3)] count_keep[OF p(2)] queue_move[OF p(3) _ r(1)]
    db_move[OF p(4) r(2) _ readers_hold_upd]
  have leave: "mutex_part (amutex_unlock t (rw_mtx s)) ((pc_of s)(t := k))"
    if "in_mutex (pc_of s t)" "\<not> in_mutex k" for k
    using mutex_leave[OF p(1) mutex_owner[OF p(1) that(1) r(3)] that(2)] .
  show ?thesis
    using p moves leave reader_keeps_db[OF inv run] queue_enter[OF p(3), of t R_lock] queue_leave[OF p(3) _ r(1), of R_lock2]
      mutex_enter[OF p(1), of t] count_up[OF p(2), of t R_first] count_down[OF p(2), of t R_last]
    by (cases "pc_of s t") (simp_all add: rw_demo_inv_def reader_turn_def pc_defs)
qed

lemma rw_demo_reachable_inv: "rw_demo_reachable rs wt s \<Longrightarrow> rw_demo_inv s"
  by (induction rule: rw_demo_reachable.induct) (auto intro: rw_demo_start reader_keeps writer_keeps)

section \<open>What the program guarantees\<close>

text \<open>
  A reader is at the database once it passed its wait for \<open>db\<close> and until it leaves the count; a writer from its
  wait until it posts \<open>db\<close>.
\<close>

definition reads_db :: "rw_prog \<Rightarrow> nat \<Rightarrow> bool" where
  "reads_db s t = (counted (pc_of s t) \<and> pc_of s t \<noteq> R_first \<and> t \<notin> set (pending (sem_db s)))"

definition writes_db :: "rw_prog \<Rightarrow> nat \<Rightarrow> bool" where
  "writes_db s t = (writing (pc_of s t) \<and> t \<notin> set (pending (sem_db s)))"

lemma counted_readers_hold:
  assumes "count_part n pc" "counted (pc t)" "pc t \<noteq> R_first"
  shows "readers_hold n pc"
proof -
  have "n \<noteq> 1" if "pc u = R_first" for u
    using count_two[OF assms(1,2), of u] assms(3) that by (cases "u = t") (auto simp: pc_defs)
  then have "\<not> (n = 1 \<and> R_first \<in> range pc)" by (metis rangeE)
  then show ?thesis using count_one[OF assms(1,2)] by (simp add: readers_hold_def)
qed

lemma writer_holds:
  assumes "guarded (in_db n pc) h (map (party pc) ws)" "writing (pc w)" "w \<notin> set ws"
  shows "h = Some (Some w)"
  by (rule guarded_holder[OF assms(1)]) (use assms in \<open>auto simp: in_db_def party_def split: if_splits\<close>)

lemma reader_holds:
  assumes g: "guarded (in_db n pc) h (map (party pc) ws)" and w: "\<forall>t \<in> set ws. db_waiter pc t"
    and c: "count_part n pc" "counted (pc t)" "pc t \<noteq> R_first" "t \<notin> set ws"
  shows "h = Some None"
proof (rule guarded_holder[OF g])
  show "in_db n pc None" using counted_readers_hold[OF c(1-3)] by (simp add: in_db_def)
  have "pc u \<noteq> R_unlock" if "u \<in> set ws" for u
    using w that c(2,4) by (auto simp: db_waiter_def)
  then show "None \<notin> set (map (party pc) ws)" by (auto simp: party_def split: if_splits)
qed

lemma database_exclusion:
  assumes "rw_demo_inv s" "writes_db s w"
  shows "\<not> reads_db s t" "writes_db s w' \<Longrightarrow> w' = w"
proof -
  obtain h where h: "guarded (in_db (nreaders s) (pc_of s)) h (map (party (pc_of s)) (pending (sem_db s)))"
    "\<forall>t \<in> set (pending (sem_db s)). db_waiter (pc_of s) t" and c: "count_part (nreaders s) (pc_of s)"
    using assms(1) unfolding rw_demo_inv_def by (blast elim: db_partE)
  have w: "h = Some (Some w)" using writer_holds[OF h(1)] assms(2) by (simp add: writes_db_def)
  then show "\<not> reads_db s t" using reader_holds[OF h c, of t] by (auto simp: reads_db_def)
  show "w' = w" if "writes_db s w'" using w writer_holds[OF h(1), of w'] that by (simp add: writes_db_def)
qed

text \<open>
  The tasks never wait in a circle: the holder of \<open>db\<close> can always go on, then the owner of the mutex,
  then the head of the entry queue.
\<close>

definition can_go_on :: "rw_prog \<Rightarrow> bool" where
  "can_go_on s = (\<exists>u. runnable s u \<and> pc_of s u \<noteq> Absent)"

lemma rw_demo_invD:
  assumes "rw_demo_inv s"
  shows "u \<in> set (pending (sem_q s)) \<Longrightarrow> pc_of s u = R_lock \<or> pc_of s u = W_db"
    and "u \<in> set (waiters (rw_mtx s)) \<Longrightarrow> pc_of s u = R_inc \<or> pc_of s u = R_dec"
    and "u \<in> set (pending (sem_db s)) \<Longrightarrow> db_waiter (pc_of s) u"
proof -
  show "u \<in> set (pending (sem_q s)) \<Longrightarrow> pc_of s u = R_lock \<or> pc_of s u = W_db"
    using assms by (auto simp: rw_demo_inv_def queue_part_def)
  show "u \<in> set (waiters (rw_mtx s)) \<Longrightarrow> pc_of s u = R_inc \<or> pc_of s u = R_dec"
    using assms by (auto simp: rw_demo_inv_def mutex_part_def at_lock_def)
  show "u \<in> set (pending (sem_db s)) \<Longrightarrow> db_waiter (pc_of s) u"
    using assms by (auto simp: rw_demo_inv_def db_part_def)
qed

lemma runs_at:
  assumes "rw_demo_inv s" "u \<notin> set (pending (sem_db s)) \<or> (pc_of s u \<noteq> R_unlock \<and> pc_of s u \<noteq> W_write 0)"
    and "u \<notin> set (waiters (rw_mtx s)) \<or> \<not> at_lock (pc_of s u)"
    and "u \<notin> set (pending (sem_q s)) \<or> (pc_of s u \<noteq> R_lock \<and> pc_of s u \<noteq> W_db)" "pc_of s u \<noteq> Absent"
  shows "can_go_on s"
  using rw_demo_invD[OF assms(1), of u] assms(2-) unfolding can_go_on_def runnable_def db_waiter_def at_lock_def by blast

lemma mutex_goes_on:
  assumes inv: "rw_demo_inv s" and t: "t \<in> set (waiters (rw_mtx s))"
    and free: "\<And>u. pc_of s u = R_unlock \<Longrightarrow> u \<notin> set (pending (sem_db s))"
  shows "can_go_on s"
proof -
  have m: "mutex_part (rw_mtx s) (pc_of s)" using inv by (simp add: rw_demo_inv_def)
  obtain u where u: "owner (rw_mtx s) = Some u" using m t by (cases "owner (rw_mtx s)") (auto simp: mutex_part_def guarded_def)
  then have "in_mutex (pc_of s u)" "u \<notin> set (waiters (rw_mtx s))" using m by (auto simp: mutex_part_def guarded_def)
  then show ?thesis using free[of u] by (intro runs_at[OF inv, of u]) (auto simp: in_mutex_def)
qed

lemma database_goes_on:
  assumes inv: "rw_demo_inv s" and t: "t \<in> set (pending (sem_db s))"
  shows "can_go_on s"
proof -
  let ?ws = "pending (sem_db s)"
  obtain h where h: "guarded (in_db (nreaders s) (pc_of s)) h (map (party (pc_of s)) ?ws)"
    using inv by (auto simp: rw_demo_inv_def db_part_def)
  then obtain p where p: "h = Some p" "p \<notin> set (map (party (pc_of s)) ?ws)" "in_db (nreaders s) (pc_of s) p"
    using t by (cases h) (auto simp: guarded_def)
  show ?thesis
  proof (cases p)
    case (Some w)
    with p have "writing (pc_of s w)" "w \<notin> set ?ws" by (auto simp: in_db_def party_def writing_def)
    then show ?thesis by (intro runs_at[OF inv, of w]) (auto simp: writing_def at_lock_def)
  next
    case None
    with p have free: "u \<notin> set ?ws" if "pc_of s u = R_unlock" for u using that by (force simp: party_def)
    have "R_last \<in> range (pc_of s) \<or> {u. counted (pc_of s u)} \<noteq> {}"
      using p(3) None inv by (auto simp: in_db_def readers_hold_def rw_demo_inv_def count_part_def)
    then obtain u where u: "pc_of s u = R_last \<or> counted (pc_of s u)" by (metis (mono_tags) Collect_empty_eq rangeE)
    show ?thesis
    proof (cases "u \<in> set (waiters (rw_mtx s))")
      case True
      then show ?thesis by (rule mutex_goes_on[OF inv _ free])
    next
      case False
      then show ?thesis using u free[of u] by (intro runs_at[OF inv, of u]) (auto simp: counted_def)
    qed
  qed
qed

lemma never_deadlocked:
  assumes inv: "rw_demo_inv s" and t: "pc_of s t \<noteq> Absent"
  shows "can_go_on s"
proof (cases "pending (sem_db s) = []")
  case False
  then show ?thesis using database_goes_on[OF inv, of "hd (pending (sem_db s))"] by simp
next
  case db: True
  show ?thesis
  proof (cases "waiters (rw_mtx s) = []")
    case False
    then show ?thesis using mutex_goes_on[OF inv, of "hd (waiters (rw_mtx s))"] db by simp
  next
    case m: True
    obtain h where h: "guarded (\<lambda>t. queued (pc_of s t)) h (pending (sem_q s))"
      using inv by (auto simp: rw_demo_inv_def queue_part_def)
    have "\<exists>u. u \<notin> set (pending (sem_q s)) \<and> pc_of s u \<noteq> Absent"
    proof (cases h)
      case None
      with h t show ?thesis by (auto simp: guarded_def)
    next
      case (Some u)
      with h have "u \<notin> set (pending (sem_q s))" "queued (pc_of s u)" by (auto simp: guarded_def)
      then show ?thesis by (intro exI[of _ u]) (auto simp: queued_def)
    qed
    then obtain u where "u \<notin> set (pending (sem_q s))" "pc_of s u \<noteq> Absent" by blast
    then show ?thesis using db m by (intro runs_at[OF inv, of u]) simp_all
  qed
qed

end
