(* ===== verification/Pipe_Race.thy ===== *)
theory Pipe_Race
  imports Pipe_Sync
begin

text \<open>
  A pop and a push on two service threads.  A consumer looks whether the pipe is empty, under the lock of the
  beginning, and then begins to wait; a push changes the pipe and signals without that lock, so it may take place between
  the two. Here the pop is cut at this point: its first part ends with the look at the pipe, its second part is
  the wait.
\<close>

section \<open>A pop in two parts\<close>

definition pop_look :: "nat \<Rightarrow> sys \<Rightarrow> 'a pipe \<Rightarrow> (bool outcome \<times> sys \<times> 'a pipe) option" where
  "pop_look th s p = and_then (locked th (begin_lock p) s p) (\<lambda>_ s p. Some (Returns (no_elements p), s, p))"

definition pop_sleep :: "nat \<Rightarrow> sys \<Rightarrow> 'a pipe \<Rightarrow> (bool outcome \<times> sys \<times> 'a pipe) option" where
  "pop_sleep th s p = map_option (\<lambda>(r, s). (r, s, p)) (fiber_cond_wait th (just_pushed p) (begin_lock p) s)"

text \<open>With nothing between them the two parts are the pop of theory \<open>Pipe_Sync\<close>, for a pipe that is empty.\<close>

lemma pop_parts:
  assumes "0 < requested" "pop_look th s p = Some (Returns True, s1, p1)" "pop_sleep th s1 p1 = Some (Switched, s2, p2)"
  shows "pipe_pop_bytes nd malloc th requested s p = Some (Switched, s2, p2)"
proof -
  have l: "\<exists>x. locked th (begin_lock p) s p = Some (Returns x, s1, p1)" "no_elements p1"
    using assms(2) by (auto simp: pop_look_def and_then_def split: option.splits outcome.splits)
  have w: "fiber_cond_wait th (just_pushed p1) (begin_lock p1) s1 = Some (Switched, s2)" "p2 = p1"
    using assms(3) by (auto simp: pop_sleep_def)
  then show ?thesis using assms(1) l w
    by (auto simp: pipe_pop_bytes_def pop_again_def and_then_def wait_while.simps)
qed

section \<open>A push that fits\<close>

text \<open>
  A push of one element that fits, by a thread that finds the lock of the end free and nobody waiting: it takes only that
  lock, so the other mutexes are what they were, whoever owns them.
\<close>

lemma unnoticed_push:
  assumes s: "queues s Q" "quiet s" "current_task s th = Some c" "unowned s (end_lock p)"
    and q: "\<not> one_n_model s \<longrightarrow> Q (MutexWaitq (end_lock p)) = Some []" "Q (CondWaitq (just_pushed p)) = Some []"
    and ok: "pipe_ring_ok p d" and cons: "0 < consumer_refcount p"
    and k: "elem_size p \<le> length elems" "used p + elem_size p \<le> bufend p - elem_size p" "used p + elem_size p \<le> max_cap p" "max_cap p < 2 ^ 64"
      "used p + elem_size p < 2 ^ 64"
  shows "\<exists>s' e d'. pipe_push nd malloc th elems 1 s p = Some (Returns (), s', p\<lparr>end_ptr := e, buffer := Some d'\<rparr>) \<and>
     pipe_bytes (p\<lparr>end_ptr := e, buffer := Some d'\<rparr>) = pipe_bytes p @ take (elem_size p) elems \<and>
     queues s' Q \<and> tcbs s' = tcbs s \<and> current_task s' = current_task s \<and> frame s s' \<and>
     (\<forall>j. j \<noteq> end_lock p \<longrightarrow> mutexes s' j = mutexes s j)"
proof -
  let ?e = "end_lock p" and ?k = "elem_size p"
  note z = ring_okD(3)[OF ok]
  let ?s = "entered c ?e s"
  have l1: "locked th ?e s p = Some (Returns True, ?s, p)" using lock_enters[OF s(3,2,4)] by (simp add: locked_def)
  have pre: "current_task ?s th = Some c" "quiet ?s" "queues ?s Q" "\<not> one_n_model ?s \<longrightarrow> Q (MutexWaitq ?e) = Some []"
    "\<not> one_n_model ?s \<longrightarrow> holder (mutexes ?s ?e) = Some c \<and> reentries (mutexes ?s ?e) = 1"
    using s q(1) by (simp_all, simp add: entered_def)
  obtain t where t: "fiber_mutex_unlock th ?e ?s = Some (True, t)" "queues t Q" "tcbs t = tcbs s"
    "\<And>j. j \<noteq> ?e \<Longrightarrow> mutexes t j = mutexes ?s j" "current_task t = current_task s" "frame s t"
    using unlock_leaves[OF pre] by auto
  have "quiet t" using t(6) s(2) by (simp add: frame_def quiet_def)
  from cond_signal_idle[OF this t(2) q(2)] obtain s' where s': "fiber_cond_signal th (just_pushed p) t = Some (True, s')"
    "queues s' Q" "tcbs s' = tcbs t" "current_task s' = current_task t" "mutexes s' = mutexes t" "frame t s'" by blast
  obtain e d' where e: "process_push nd (make_snapshot p) elems ?k d = Some (e, d')"
    "pipe_bytes (p\<lparr>end_ptr := e, buffer := Some d'\<rparr>) = pipe_bytes p @ take ?k elems"
    using push_bytes[OF ok z dvd_refl k(1,2)] by blast
  have u: "min ?k (usz (int (max_cap p) - int (bytes_in_use (make_snapshot p)))) = ?k"
    using bytes_in_use_eq(1)[OF ok] k(3,4) by (simp add: usz_small)
  have c: "push_copy nd th elems ?k ?s p = Some (Returns 0, s', p\<lparr>end_ptr := e, buffer := Some d'\<rparr>)"
    unfolding push_copy_def Let_def u
    using ring_okD(1)[OF ok] e(1) t(1) s'(1) z by (simp add: assertume_def unlocked_def signal_def)
  have need: "usz (int (bytes_in_use (make_snapshot p) + ?k)) = used p + ?k"
    using bytes_in_use_eq(1)[OF ok] k(5) by (simp only:) (rule usz_nat, simp)
  have nr: "\<not> no_room p" using bytes_in_use_eq(1)[OF ok] k(3) z by (simp add: no_room_def)
  have "push_once nd malloc th elems ?k s p = Some (Returns 0, s', p\<lparr>end_ptr := e, buffer := Some d'\<rparr>)"
    using l1 nr cons need capacity_eq[OF ok] k(2) c
    by (simp add: push_once_def push_again_def push_locked_def and_then_def, subst wait_while.simps) simp
  moreover have "usz (int (1 * pipe_elem_size p)) = ?k" using k(5) by (simp add: pipe_elem_size_def usz_nat)
  ultimately have "pipe_push nd malloc th elems 1 s p = Some (Returns (), s', p\<lparr>end_ptr := e, buffer := Some d'\<rparr>)"
    using z unfolding pipe_push_def
    by (simp add: pipe_push_bytes.simps[of _ _ _ _ ?k] pipe_push_bytes.simps[of _ _ _ _ 0])
  moreover have "mutexes s' j = mutexes s j" if "j \<noteq> ?e" for j
    using t(4)[OF that] s'(5) that by (simp add: entered_def)
  moreover have "frame s s'" using frame_trans[OF t(6) s'(6)] .
  ultimately show ?thesis using e(2) s'(2-4) t(3,5) by auto
qed

section \<open>The lost signal\<close>

text \<open>A task that took a mutex when it was free, and now begins to wait, whatever others did to the mutexes beside.\<close>

lemma owner_waits:
  assumes r: "running s Q th d m us c" "c \<noteq> m" "quiet s" "unowned s b" "\<not> one_n_model s \<longrightarrow> Q (MutexWaitq b) = Some []"
    and s2: "queues s2 Q" "tcbs s2 = tcbs s" "current_task s2 = current_task s" "frame s s2" "mutexes s2 b = mutexes (entered c b s) b"
    and w: "Q (CondWaitq cv) = Some ws"
  shows "\<exists>s3 Q3. fiber_cond_wait th cv b s2 = Some (Switched, s3) \<and> queues s3 Q3 \<and> Q3 (CondWaitq cv) = Some (ws @ [c]) \<and>
    unowned s3 b \<and> current_task s3 th \<noteq> Some c"
proof -
  let ?t = "s2\<lparr>mutexes := (mutexes s2)(b := mutexes s b)\<rparr>"
  have one: "one_n_model s2 = one_n_model s" using s2(4) by (simp add: frame_def)
  have e: "entered c b ?t = s2" using s2(5) one by (cases "one_n_model s") (auto simp: entered_def fun_upd_idem)
  have "on_thread ?t Q th d m us" "queues ?t Q" "quiet ?t" "unowned ?t b"
    using r s2 one by (auto simp: running_def on_thread_def queues_def frame_def quiet_def unowned_def)
  then have "enterable ?t Q th d m us c b" using r s2(3) one by (simp add: enterable_def running_def)
  from entered_waits[OF this w] show ?thesis unfolding e by blast
qed

text \<open>
  The consumer finds the pipe empty; the producer pushes an element; the consumer goes to sleep with the element in the
  pipe.
\<close>

lemma missed_push:
  assumes r: "running s Q th0 dd m us c" "c \<noteq> m" and i: "pipe_idle s Q th0 c p" and other: "current_task s th1 = Some c1"
    and w: "Q (CondWaitq (just_pushed p)) = Some []"
    and ok: "pipe_ring_ok p d" and em: "pipe_bytes p = []" "0 < producer_refcount p" "0 < consumer_refcount p"
    and k: "elem_size p \<le> length elems" "2 * elem_size p \<le> bufend p" "elem_size p \<le> max_cap p" "max_cap p < 2 ^ 64"
  shows "\<exists>s1 s2 p2 s3 Q3. pop_look th0 s p = Some (Returns True, s1, p) \<and>
     pipe_push nd malloc th1 elems 1 s1 p = Some (Returns (), s2, p2) \<and> pipe_bytes p2 = take (elem_size p) elems \<and>
     pop_sleep th0 s2 p2 = Some (Switched, s3, p2) \<and> queues s3 Q3 \<and> Q3 (CondWaitq (just_pushed p)) = Some [c] \<and>
     unowned s3 (begin_lock p) \<and> current_task s3 th0 \<noteq> Some c"
proof -
  let ?b = "begin_lock p" and ?e = "end_lock p" and ?s = "entered c (begin_lock p) s"
  have q: "queues s Q" "quiet s" "current_task s th0 = Some c" "?b \<noteq> ?e" "unowned s ?b" "unowned s ?e"
    "\<not> one_n_model s \<longrightarrow> Q (MutexWaitq ?b) = Some []" "\<not> one_n_model s \<longrightarrow> Q (MutexWaitq ?e) = Some []"
    using i by (auto simp: pipe_idle_def)
  have u: "used p = 0" using em(1) pipe_bytes_length[of p] by simp
  have look: "pop_look th0 s p = Some (Returns True, ?s, p)"
    using lock_enters[OF q(3,2,5)] em(2) u bytes_in_use_eq(1)[OF ok] by (simp add: pop_look_def locked_def and_then_def no_elements_def)
  have pre: "queues ?s Q" "quiet ?s" "current_task ?s th1 = Some c1" "unowned ?s ?e" "\<not> one_n_model ?s \<longrightarrow> Q (MutexWaitq ?e) = Some []"
    using q other by (simp_all, auto simp: unowned_def entered_def)
  have fits: "used p + elem_size p \<le> bufend p - elem_size p" "used p + elem_size p \<le> max_cap p" "used p + elem_size p < 2 ^ 64"
    using u k by simp_all
  from unnoticed_push[OF pre w ok em(3) k(1) fits(1,2) k(4) fits(3), of nd malloc] obtain s2 e d' where
    s2: "pipe_push nd malloc th1 elems 1 ?s p = Some (Returns (), s2, p\<lparr>end_ptr := e, buffer := Some d'\<rparr>)"
      "pipe_bytes (p\<lparr>end_ptr := e, buffer := Some d'\<rparr>) = pipe_bytes p @ take (elem_size p) elems"
      "queues s2 Q" "tcbs s2 = tcbs s" "current_task s2 = current_task s" "frame s s2" "\<forall>j. j \<noteq> ?e \<longrightarrow> mutexes s2 j = mutexes ?s j" by auto
  from s2(7) q(4) have "mutexes s2 ?b = mutexes ?s ?b" by blast
  from owner_waits[OF r q(2,5,7) s2(3-6) this w] obtain s3 Q3 where
    "fiber_cond_wait th0 (just_pushed p) ?b s2 = Some (Switched, s3)" "queues s3 Q3" "Q3 (CondWaitq (just_pushed p)) = Some [c]"
    "unowned s3 ?b" "current_task s3 th0 \<noteq> Some c" by auto
  with look s2(1,2) em(1) show ?thesis
    by (intro exI[of _ ?s] exI[of _ s2] exI[of _ "p\<lparr>end_ptr := e, buffer := Some d'\<rparr>"] exI[of _ s3] exI[of _ Q3]) (simp add: pop_sleep_def)
qed

end
