(* ===== verification/Pipe_Ring.thy ===== *)
theory Pipe_Ring
  imports Prelude
begin

text \<open>
  The program of \<open>pipe_ring.c\<close>: twenty fibers in a ring of pipes pass a number on, each one less than
  it got, until one of them gets zero; that one closes its ends of its pipes, and the others
  find their pipes closed one after the other. The program runs on the contract of a pipe: a list of elements
  with the number of its producers and consumers, where a pop waits while the pipe is
  empty and has a producer, and reports the end when it has none. Every run ends, with every fiber gone.
\<close>

section \<open>The program\<close>

definition THREADS :: nat where
  "THREADS = 20"

record ring_pipe =
  content :: "int list"
  producers :: nat
  consumers :: nat

definition rp_new :: ring_pipe where
  "rp_new = \<lparr>content = [], producers = 1, consumers = 1\<rparr>"

definition rp_producer_new :: "ring_pipe \<Rightarrow> ring_pipe" where
  "rp_producer_new p = p\<lparr>producers := producers p + 1\<rparr>"

definition rp_consumer_new :: "ring_pipe \<Rightarrow> ring_pipe" where
  "rp_consumer_new p = p\<lparr>consumers := consumers p + 1\<rparr>"

definition rp_producer_free :: "ring_pipe \<Rightarrow> ring_pipe" where
  "rp_producer_free p = p\<lparr>producers := producers p - 1\<rparr>"

definition rp_consumer_free :: "ring_pipe \<Rightarrow> ring_pipe" where
  "rp_consumer_free p = p\<lparr>consumers := consumers p - 1\<rparr>"

definition rp_push :: "int \<Rightarrow> ring_pipe \<Rightarrow> ring_pipe" where
  "rp_push n p = (if consumers p = 0 then p else p\<lparr>content := content p @ [n]\<rparr>)"

record ring_prog =
  rpipes :: "nat \<Rightarrow> ring_pipe"
  alive :: "nat \<Rightarrow> bool"
  gameOver :: bool

text \<open>Fiber \<open>i\<close> reads pipe \<open>i\<close> and writes the next one; the last fiber writes the first pipe.\<close>

definition out_of :: "nat \<Rightarrow> nat" where
  "out_of i = (i + 1) mod THREADS"

abbreviation upd_pipe :: "nat \<Rightarrow> (ring_pipe \<Rightarrow> ring_pipe) \<Rightarrow> ring_prog \<Rightarrow> ring_prog" where
  "upd_pipe i f s \<equiv> s\<lparr>rpipes := (rpipes s)(i := f (rpipes s i))\<rparr>"

text \<open>
  \<open>initializeTasks\<close>: each pipe is created, gets a producer and a consumer of its own, and is released by its
  creator; then the number goes into the first one.
\<close>

definition initialize_ring :: "int \<Rightarrow> ring_prog" where
  "initialize_ring passes =
     upd_pipe 0 (rp_push passes)
       \<lparr>rpipes = (\<lambda>i. rp_consumer_free (rp_producer_free (rp_consumer_new (rp_producer_new rp_new)))),
        alive = (\<lambda>i. i < THREADS), gameOver = False\<rparr>"

text \<open>
  One round of \<open>thread_func\<close>: the pop, and what follows it up to the next one or the end of the function.
  \<open>None\<close> says that the fiber waits in its pop, or is gone.
\<close>

definition ring_leave :: "nat \<Rightarrow> ring_prog \<Rightarrow> ring_prog" where
  "ring_leave i s =
     (upd_pipe i rp_consumer_free (upd_pipe (out_of i) rp_producer_free s))\<lparr>alive := (alive s)(i := False)\<rparr>"

definition thread_func :: "nat \<Rightarrow> ring_prog \<Rightarrow> ring_prog option" where
  "thread_func i s =
     (if \<not> alive s i then None
      else case content (rpipes s i) of
        n # rest \<Rightarrow>
          let s = upd_pipe i (\<lambda>p. p\<lparr>content := rest\<rparr>) s in
          if n = 0 then Some (ring_leave i (s\<lparr>gameOver := True\<rparr>))
          else Some (upd_pipe (out_of i) (rp_push (n - 1)) s)
      | [] \<Rightarrow> if producers (rpipes s i) = 0 then Some (ring_leave i s) else None)"

inductive ring_step :: "ring_prog \<Rightarrow> ring_prog \<Rightarrow> bool" where
  turn: "thread_func i s = Some s' \<Longrightarrow> ring_step s s'"

inductive_cases ring_stepE: "ring_step s s'"

section \<open>The number on its way\<close>

definition passing :: "int \<Rightarrow> nat \<Rightarrow> ring_prog \<Rightarrow> bool" where
  "passing k t s = ((\<forall>i. alive s i = (i < THREADS)) \<and>
     (\<forall>i < THREADS. rpipes s i = \<lparr>content = (if i = t mod THREADS then [k - int t] else []), producers = 1, consumers = 1\<rparr>))"

lemma passing_start: "passing k 0 (initialize_ring k)"
  by (simp add: passing_def initialize_ring_def rp_new_def rp_producer_new_def rp_consumer_new_def
      rp_producer_free_def rp_consumer_free_def rp_push_def THREADS_def)

lemma out_of_mod: "out_of (t mod THREADS) = Suc t mod THREADS"
  by (simp add: out_of_def mod_Suc_eq)

lemma out_of_other: "out_of i \<noteq> i" if "i < THREADS"
  using that by (auto simp: out_of_def THREADS_def mod_Suc)

text \<open>Only the fiber at the pipe that holds the number has a turn.\<close>

lemma passing_turn:
  assumes p: "passing k t s" and e: "thread_func i s = Some s'"
  shows "i = t mod THREADS"
  using assms by (auto simp: passing_def thread_func_def split: if_splits)

lemma passing_on:
  assumes p: "passing k t s" and n: "int t \<noteq> k"
  shows "\<exists>s'. thread_func (t mod THREADS) s = Some s' \<and> passing k (Suc t) s'"
proof -
  let ?i = "t mod THREADS"
  have i: "?i < THREADS" "out_of ?i < THREADS" by (simp_all add: THREADS_def out_of_def)
  have o: "out_of ?i \<noteq> ?i" by (rule out_of_other[OF i(1)])
  have c: "rpipes s ?i = \<lparr>content = [k - int t], producers = 1, consumers = 1\<rparr>"
    "rpipes s (out_of ?i) = \<lparr>content = [], producers = 1, consumers = 1\<rparr>" "alive s ?i"
    using p i o by (auto simp: passing_def)
  have "thread_func ?i s = Some (upd_pipe (out_of ?i) (rp_push (k - int t - 1)) (upd_pipe ?i (\<lambda>p. p\<lparr>content := []\<rparr>) s))"
    using c n o by (simp add: thread_func_def)
  moreover have "passing k (Suc t) (upd_pipe (out_of ?i) (rp_push (k - int t - 1)) (upd_pipe ?i (\<lambda>p. p\<lparr>content := []\<rparr>) s))"
    using p c i o by (auto simp: passing_def rp_push_def out_of_mod[symmetric] algebra_simps)
  ultimately show ?thesis by blast
qed

section \<open>Closing down\<close>

text \<open>
  Seen from the fiber \<open>j\<close> that got zero, the fibers are numbered by their distance \<open>x\<close> along the ring. The first
  \<open>m\<close> of them are gone: their input pipes have no consumer and their output pipes no producer.
\<close>

definition seat :: "nat \<Rightarrow> nat \<Rightarrow> nat" where
  "seat j x = (j + x) mod THREADS"

definition closing :: "nat \<Rightarrow> nat \<Rightarrow> ring_prog \<Rightarrow> bool" where
  "closing j m s = (gameOver s \<and> (\<forall>i. THREADS \<le> i \<longrightarrow> \<not> alive s i) \<and>
     (\<forall>x < THREADS. alive s (seat j x) = (m \<le> x) \<and> content (rpipes s (seat j x)) = [] \<and>
        consumers (rpipes s (seat j x)) = (if x < m then 0 else 1) \<and>
        producers (rpipes s (out_of (seat j x))) = (if x < m then 0 else 1)))"

lemma seat_bound [simp]: "seat j x < THREADS"
  by (simp add: seat_def THREADS_def)

lemma seat_cases:
  assumes "x < THREADS"
  shows "seat j x = (if j mod THREADS + x < THREADS then j mod THREADS + x else j mod THREADS + x - THREADS)"
proof -
  define a where "a = j mod THREADS"
  have "seat j x = (a + x) mod THREADS" by (simp add: seat_def a_def mod_add_left_eq)
  moreover have "a < THREADS" by (simp add: THREADS_def a_def)
  ultimately show ?thesis using assms le_mod_geq[of THREADS "a + x"] by (simp add: a_def[symmetric])
qed

lemma seat_inj: "x < THREADS \<Longrightarrow> y < THREADS \<Longrightarrow> seat j x = seat j y \<longleftrightarrow> x = y"
  by (auto simp: seat_cases split: if_splits)

lemma seat_surj:
  assumes "i < THREADS"
  shows "\<exists>x < THREADS. i = seat j x"
proof -
  define a where "a = j mod THREADS"
  have "a < THREADS" by (simp add: THREADS_def a_def)
  then have "if a \<le> i then i - a < THREADS \<and> a + (i - a) = i
      else i + THREADS - a < THREADS \<and> a + (i + THREADS - a) = i + THREADS"
    using assms by simp linarith
  then obtain x where "x < THREADS" "a + x = i \<or> a + x = i + THREADS" by metis
  then show ?thesis using seat_cases[of x j, folded a_def] assms by auto
qed

lemma out_of_seat: "out_of (seat j x) = seat j (Suc x)"
  by (simp add: out_of_def seat_def mod_Suc_eq)

lemma out_of_inj: "i < THREADS \<Longrightarrow> i' < THREADS \<Longrightarrow> out_of i = out_of i' \<longleftrightarrow> i = i'"
  by (auto simp: out_of_def mod_Suc split: if_splits)

lemma out_of_bound [simp]: "out_of i < THREADS"
  by (simp add: out_of_def THREADS_def)

lemma leave_sel:
  "content (rpipes (ring_leave i s) q) = content (rpipes s q)" "alive (ring_leave i s) = (alive s)(i := False)"
  "consumers (rpipes (ring_leave i s) q) = consumers (rpipes s q) - (if q = i then 1 else 0)"
  "producers (rpipes (ring_leave i s) q) = producers (rpipes s q) - (if q = out_of i then 1 else 0)"
  by (simp_all add: ring_leave_def rp_consumer_free_def rp_producer_free_def)

lemma leave_closes:
  assumes c: "closing j m s" and m: "m < THREADS"
  shows "closing j (Suc m) (ring_leave (seat j m) s)"
proof -
  let ?i = "seat j m"
  have "alive (ring_leave ?i s) (seat j x) = (Suc m \<le> x) \<and> content (rpipes (ring_leave ?i s) (seat j x)) = [] \<and>
        consumers (rpipes (ring_leave ?i s) (seat j x)) = (if x < Suc m then 0 else 1) \<and>
        producers (rpipes (ring_leave ?i s) (out_of (seat j x))) = (if x < Suc m then 0 else 1)" if x: "x < THREADS" for x
  proof -
    have cx: "alive s (seat j x) = (m \<le> x)" "content (rpipes s (seat j x)) = []"
      "consumers (rpipes s (seat j x)) = (if x < m then 0 else 1)" "producers (rpipes s (out_of (seat j x))) = (if x < m then 0 else 1)"
      and cm: "consumers (rpipes s ?i) = 1" "producers (rpipes s (out_of ?i)) = 1"
      using c x m by (auto simp: closing_def)
    have e: "seat j x = ?i \<longleftrightarrow> x = m" "out_of (seat j x) = out_of ?i \<longleftrightarrow> x = m"
      using seat_inj[OF x m, of j] out_of_inj[of "seat j x" ?i] by simp_all
    show ?thesis by (cases "x = m") (use cx cm e in \<open>simp_all add: leave_sel less_Suc_eq Suc_le_eq order_less_le\<close>)
  qed
  moreover have "gameOver (ring_leave ?i s)" "\<forall>i. THREADS \<le> i \<longrightarrow> \<not> alive (ring_leave ?i s) i"
    using c by (auto simp: closing_def ring_leave_def)
  ultimately show ?thesis by (simp add: closing_def)
qed

text \<open>The fiber that gets the zero is the first to go.\<close>

lemma passing_over:
  assumes p: "passing k t s" and k: "k = int t"
  shows "\<exists>s'. thread_func (t mod THREADS) s = Some s' \<and> closing (t mod THREADS) 1 s'"
proof -
  let ?j = "t mod THREADS"
  let ?s = "(upd_pipe ?j (\<lambda>p. p\<lparr>content := []\<rparr>) s)\<lparr>gameOver := True\<rparr>"
  have j: "?j < THREADS" by (simp add: THREADS_def)
  have "closing ?j 0 ?s" using p by (auto simp: closing_def passing_def)
  then have "closing ?j 1 (ring_leave (seat ?j 0) ?s)" using leave_closes[of ?j 0 ?s] j by (simp add: THREADS_def)
  moreover have "seat ?j 0 = ?j" by (simp add: seat_def)
  moreover have "thread_func ?j s = Some (ring_leave ?j ?s)" using p k j by (auto simp: thread_func_def passing_def)
  ultimately show ?thesis by simp
qed

text \<open>From then on the next fiber in the ring, and no other, finds its pipe closed and goes.\<close>

lemma closing_producers:
  assumes "closing j m s" "0 < m" "x < THREADS" "m \<le> x"
  shows "producers (rpipes s (seat j x)) = 0 \<longleftrightarrow> x = m"
proof -
  obtain y where y: "x = Suc y" using assms(2,4) by (cases x) auto
  have "producers (rpipes s (out_of (seat j y))) = (if y < m then 0 else 1)"
    using assms(1,3) y by (simp add: closing_def)
  then have "producers (rpipes s (seat j x)) = (if y < m then 0 else 1)" using y by (simp only: out_of_seat)
  then show ?thesis using y assms(4) by auto
qed

lemma closing_turn:
  assumes c: "closing j m s" "0 < m" and e: "thread_func i s = Some s'"
  shows "m < THREADS \<and> i = seat j m \<and> closing j (Suc m) s'"
proof -
  have al: "alive s i" using e by (auto simp: thread_func_def split: if_splits)
  then have "i < THREADS" using c(1) unfolding closing_def by (meson leI)
  with al obtain x where x: "x < THREADS" "i = seat j x" "m \<le> x" using seat_surj[of i j] c(1) by (auto simp: closing_def)
  then have "content (rpipes s i) = []" using c(1) by (simp add: closing_def)
  then have "producers (rpipes s i) = 0" "s' = ring_leave i s" using e by (auto simp: thread_func_def split: if_splits)
  with closing_producers[OF c x(1,3)] x leave_closes[OF c(1)] show ?thesis by auto
qed

lemma closing_goes:
  assumes c: "closing j m s" "0 < m" and m: "m < THREADS"
  shows "\<exists>s'. thread_func (seat j m) s = Some s'"
  using closing_producers[OF c m] c(1) m by (auto simp: thread_func_def closing_def)

section \<open>Every run\<close>

text \<open>
  The state after \<open>n\<close> turns, whoever took them: until the number is used up it is passing, then the ring closes.
\<close>

definition ring_at :: "nat \<Rightarrow> nat \<Rightarrow> ring_prog \<Rightarrow> bool" where
  "ring_at k n s = (if n \<le> k then passing (int k) n s
     else n \<le> k + THREADS \<and> closing (k mod THREADS) (n - k) s)"

lemma ring_at_step:
  assumes "ring_at k n s" "ring_step s s'"
  shows "ring_at k (Suc n) s'"
proof -
  obtain i where e: "thread_func i s = Some s'" using assms(2) by (rule ring_stepE)
  consider "n < k" | "n = k" | "k < n" by linarith
  then show ?thesis
  proof cases
    case 1
    then have p: "passing (int k) n s" using assms(1) by (simp add: ring_at_def)
    have "passing (int k) (Suc n) s'" using passing_on[OF p] passing_turn[OF p e] e 1 by auto
    with 1 show ?thesis by (simp add: ring_at_def)
  next
    case 2
    then have p: "passing (int k) n s" using assms(1) by (simp add: ring_at_def)
    have "closing (k mod THREADS) 1 s'" using passing_over[OF p] passing_turn[OF p e] e 2 by auto
    with 2 show ?thesis by (simp add: ring_at_def THREADS_def)
  next
    case 3
    then have "closing (k mod THREADS) (n - k) s" using assms(1) by (simp add: ring_at_def)
    from closing_turn[OF this _ e] 3 show ?thesis by (auto simp: ring_at_def Suc_diff_le)
  qed
qed

lemma ring_at_progress:
  assumes "ring_at k n s" "n < k + THREADS"
  shows "\<exists>s'. ring_step s s'"
proof (cases "n \<le> k")
  case True
  then have "passing (int k) n s" using assms(1) by (simp add: ring_at_def)
  then show ?thesis using passing_on[of "int k" n s] passing_over[of "int k" n s] ring_step.turn by (cases "n = k") force+
next
  case False
  then have "closing (k mod THREADS) (n - k) s" "0 < n - k" "n - k < THREADS" using assms by (auto simp: ring_at_def)
  then show ?thesis using closing_goes ring_step.turn by blast
qed

lemma ring_runs: "(ring_step ^^ n) (initialize_ring (int k)) s \<Longrightarrow> ring_at k n s"
proof (induction n arbitrary: s)
  case 0
  then show ?case using passing_start[of "int k"] by (simp add: ring_at_def)
next
  case (Suc n)
  obtain u where "(ring_step ^^ n) (initialize_ring (int k)) u" "ring_step u s" using Suc.prems by (rule relpowp_Suc_E)
  with Suc.IH show ?case by (blast intro: ring_at_step)
qed

text \<open>Every run ends after \<open>k\<close> passes and the leave of every fiber, and not before.\<close>

lemma ring_ends:
  assumes r: "(ring_step ^^ n) (initialize_ring (int k)) s"
  shows "n \<le> k + THREADS \<and> ((\<exists>s'. ring_step s s') \<longleftrightarrow> n < k + THREADS) \<and>
     (n = k + THREADS \<longrightarrow> gameOver s \<and> (\<forall>i. \<not> alive s i))"
proof -
  have a: "ring_at k n s" by (rule ring_runs[OF r])
  have bound: "n \<le> k + THREADS" using a by (auto simp: ring_at_def split: if_splits)
  have over: "gameOver s \<and> (\<forall>i. \<not> alive s i)" if "n = k + THREADS"
  proof -
    have c: "closing (k mod THREADS) THREADS s" using a that by (simp add: ring_at_def THREADS_def)
    have "\<not> alive s i" for i
    proof (cases "i < THREADS")
      case True
      then obtain x where "x < THREADS" "i = seat (k mod THREADS) x" using seat_surj by blast
      then show ?thesis using c by (simp add: closing_def)
    qed (use c in \<open>simp add: closing_def\<close>)
    then show ?thesis using c by (simp add: closing_def)
  qed
  have "\<not> ring_step s s'" if "n = k + THREADS" for s'
    using over[OF that] by (auto simp: thread_func_def elim!: ring_stepE)
  then show ?thesis using bound over ring_at_progress[OF a] by (metis le_neq_implies_less less_irrefl)
qed

lemma ring_run_exists: "n \<le> k + THREADS \<Longrightarrow> \<exists>s. (ring_step ^^ n) (initialize_ring (int k)) s"
proof (induction n)
  case (Suc n)
  then obtain s where s: "(ring_step ^^ n) (initialize_ring (int k)) s" by auto
  then obtain s' where "ring_step s s'" using ring_at_progress[OF ring_runs[OF s]] Suc.prems by auto
  with s show ?case by (blast intro: relpowp_Suc_I)
qed simp

end
