(* ===== verification/Server.thy ===== *)
theory Server
  imports Epoll Lifecycle
begin

text \<open>
  The web server of \<open>simplehttp.c\<close>: the task \<open>server\<close> that accepts connections and starts a task
  \<open>requestHandler\<close> for each, and the handler that answers requests until its connection ends. The
  system calls are the fields of a record \<open>sockets\<close> over a kernel state. \<open>abort\<close> ends the process and is an
  error value. The lemmas give the fate of a connection on every branch, and show that the handlers of connections that
  arrive together all serve the last of them.
\<close>

section \<open>System calls\<close>

record 'k sockets =
  sys_getfl :: "32 word \<Rightarrow> 'k \<Rightarrow> 32 word \<times> 'k"
  sys_setfl :: "32 word \<Rightarrow> 32 word \<Rightarrow> 'k \<Rightarrow> 32 word \<times> 'k"
  sys_socket :: "'k \<Rightarrow> 32 word \<times> 'k"
  sys_bind :: "32 word \<Rightarrow> int \<Rightarrow> 'k \<Rightarrow> 'k"
  sys_listen :: "32 word \<Rightarrow> 'k \<Rightarrow> 32 word \<times> 'k"
  sys_accept :: "32 word \<Rightarrow> 'k \<Rightarrow> 32 word \<times> 'k"
  sys_read :: "32 word \<Rightarrow> int \<Rightarrow> 'k \<Rightarrow> int \<times> int \<times> 8 word list \<times> 'k"
  sys_write :: "32 word \<Rightarrow> string \<Rightarrow> 'k \<Rightarrow> int \<times> 'k"
  sys_close :: "32 word \<Rightarrow> 'k \<Rightarrow> 'k"
  sys_epoll_ctl :: "32 word \<Rightarrow> ctl \<Rightarrow> 32 word \<Rightarrow> epoll_event option \<Rightarrow> 'k \<Rightarrow> int \<times> 'k"
  ctx_malloc :: "contexts \<Rightarrow> (64 word \<times> EventContext) option"

datatype http_error = Aborted

definition O_NONBLOCK :: "32 word" where "O_NONBLOCK = 0x800"
definition EPOLLET :: "32 word" where "EPOLLET = 0x80000000"

definition create_and_bind :: "'k sockets \<Rightarrow> int \<Rightarrow> 'k \<Rightarrow> 32 word \<times> 'k" where
  "create_and_bind K port k = (let (sfd, k) = sys_socket K k; k = sys_bind K sfd port k in (sfd, k))"

definition make_socket_non_blocking :: "'k sockets \<Rightarrow> 32 word \<Rightarrow> 'k \<Rightarrow> 32 word \<times> 'k" where
  "make_socket_non_blocking K sfd k =
     (let (flags, k) = sys_getfl K sfd k in
      if flags = - 1 then (- 1, k)
      else let (s, k) = sys_setfl K sfd (flags OR O_NONBLOCK) k in
        if s = - 1 then (- 1, k) else (0, k))"

section \<open>The reply\<close>

definition crlf :: string where "crlf = [CHR 0x0D, CHR 0x0A]"
definition nl :: string where "nl = [CHR 0x0A]"

definition reply_head :: string where
  "reply_head = ''HTTP/1.0 200 OK'' @ crlf @ ''Content-type: text/html'' @ crlf @ ''Connection: close'' @ crlf @
     ''Content-Length: 82'' @ crlf @ crlf"

definition reply_body :: string where
  "reply_body = ''<html>'' @ nl @ ''<head>'' @ nl @ ''<title>performance test</title>'' @ nl @ ''</head>'' @ nl @
     ''<body>'' @ nl @ ''Hello FibTask!'' @ nl @ ''</body>'' @ nl @ ''</html>''"

text \<open>\<open>sizeof (reply)\<close> counts the terminating zero of the literal, which is sent too.\<close>

definition reply :: string where
  "reply = reply_head @ reply_body @ [CHR 0x00]"

section \<open>The handler of a connection\<close>

record client_params =
  cp_epoll_fd :: "32 word"
  cp_fd :: "32 word"

text \<open>The part of \<open>requestHandler\<close> before its loop: it reads its parameters and registers the socket.\<close>

definition request_start ::
  "'k sockets \<Rightarrow> nat \<Rightarrow> client_params \<Rightarrow> sys \<Rightarrow> contexts \<Rightarrow> 'k \<Rightarrow>
     (http_error + (32 word \<times> 32 word) \<times> sys \<times> contexts \<times> 'k) option" where
  "request_start K th params s H k = (
     let infd = cp_fd params; epollfd = cp_epoll_fd params; (r, k) = make_socket_non_blocking K infd k in
     if r = - 1 then Some (Inl Aborted)
     else do {
       (_, s, H, k) \<leftarrow> fiber_epoll_register_events (ctx_malloc K) (sys_epoll_ctl K) th epollfd infd (EPOLLIN OR EPOLLET) s H k;
       Some (Inr ((infd, epollfd), s, H, k))
     })"

text \<open>
  The rest of a round of the loop once \<open>fiber_read\<close> returned \<open>rc\<close>: the reply is written, and the
  connection is given up when the read or the write says so. The result tells whether the loop is left.
\<close>

definition request_serve ::
  "'k sockets \<Rightarrow> nat \<Rightarrow> 32 word \<Rightarrow> 32 word \<Rightarrow> int \<Rightarrow> sys \<Rightarrow> contexts \<Rightarrow> 'k \<Rightarrow> (bool \<times> sys \<times> contexts \<times> 'k) option" where
  "request_serve K th infd epollfd rc s H k = (
     let done = (rc < 0 \<or> rc = 0);
         (done, k) = (if \<not> done then let (w, k) = sys_write K infd reply k in (w < 0, k) else (done, k)) in
     if done then do {
       (_, s, H, k) \<leftarrow> fiber_epoll_unregister_events (sys_epoll_ctl K) th epollfd infd s H k;
       Some (True, s, H, sys_close K infd k)
     } else Some (False, s, H, k))"

definition request_round ::
  "'k sockets \<Rightarrow> nat \<Rightarrow> 32 word \<Rightarrow> 32 word \<Rightarrow> sys \<Rightarrow> contexts \<Rightarrow> 'k \<Rightarrow> (bool outcome \<times> sys \<times> contexts \<times> 'k) option" where
  "request_round K th infd epollfd s H k = do {
     (r, s, k) \<leftarrow> fiber_read (sys_read K) th infd 512 s H k;
     case r of Switched \<Rightarrow> Some (Switched, s, H, k)
     | Returns (rc, _) \<Rightarrow> do {
         (over, s, H, k) \<leftarrow> request_serve K th infd epollfd rc s H k;
         Some (Returns over, s, H, k)
       }
   }"

section \<open>The server\<close>

definition server_start ::
  "'k sockets \<Rightarrow> nat \<Rightarrow> int \<Rightarrow> 32 word \<Rightarrow> sys \<Rightarrow> contexts \<Rightarrow> 'k \<Rightarrow> (http_error + 32 word \<times> sys \<times> contexts \<times> 'k) option" where
  "server_start K th portnum epollfd s H k = (
     let (sfd, k) = create_and_bind K portnum k in
     if sfd = - 1 then Some (Inl Aborted)
     else let (r, k) = make_socket_non_blocking K sfd k in
     if r = - 1 then Some (Inl Aborted)
     else let (r, k) = sys_listen K sfd k in
     if r = - 1 then Some (Inl Aborted)
     else do {
       (_, s, H, k) \<leftarrow> fiber_epoll_register_events (ctx_malloc K) (sys_epoll_ctl K) th epollfd sfd (EPOLLIN OR EPOLLET) s H k;
       Some (Inr (sfd, s, H, k))
     })"

text \<open>
  The loop that accepts connections until there is none left. All handlers get the address \<open>params_addr\<close> of the one
  \<open>client_params\<close> of the server, whose current value is part of the result; \<open>requestHandler\<close> is the
  address of the handler's code. Whether \<open>accept\<close> fails for want of a connection or otherwise, the loop ends.
\<close>

partial_function (option) accept_loop ::
  "'k sockets \<Rightarrow> platform \<Rightarrow> nat \<Rightarrow> nat \<Rightarrow> nat \<Rightarrow> 32 word \<Rightarrow> client_params \<Rightarrow> sys \<Rightarrow> 'k \<Rightarrow> (client_params \<times> sys \<times> 'k) option" where
  "accept_loop K P th requestHandler params_addr sfd params s k = (
     let (infd, k) = sys_accept K sfd k in
     if infd = - 1 then Some (params, s, k)
     else do {
       let params = params\<lparr>cp_fd := infd\<rparr>;
       (_, s) \<leftarrow> fiber_create P th requestHandler params_addr 0 (8192 * 2) s;
       accept_loop K P th requestHandler params_addr sfd params s k
     })"

text \<open>A round of the server's loop once \<open>fiber_epoll_wait\<close> returned \<open>n\<close> events; true when the loop is left.\<close>

definition server_round ::
  "'k sockets \<Rightarrow> platform \<Rightarrow> nat \<Rightarrow> nat \<Rightarrow> nat \<Rightarrow> 32 word \<Rightarrow> int \<Rightarrow> epoll_event list \<Rightarrow> client_params \<Rightarrow> sys \<Rightarrow> 'k \<Rightarrow>
     (bool \<times> client_params \<times> sys \<times> 'k) option" where
  "server_round K P th requestHandler params_addr sfd n events params s k =
     (if n > 1 then None
      else if n = 1 then
        (if ep_events (hd events) AND EPOLLERR \<noteq> 0 \<or> ep_events (hd events) AND EPOLLHUP \<noteq> 0 \<or> ep_events (hd events) AND EPOLLIN = 0
         then Some (True, params, s, sys_close K (data_fd (ep_data (hd events))) k)
         else do {
           (params, s, k) \<leftarrow> accept_loop K P th requestHandler params_addr sfd params s k;
           Some (False, params, s, k)
         })
      else Some (False, params, s, k))"

definition server_leave ::
  "'k sockets \<Rightarrow> nat \<Rightarrow> 32 word \<Rightarrow> 32 word \<Rightarrow> sys \<Rightarrow> contexts \<Rightarrow> 'k \<Rightarrow> (sys \<times> contexts \<times> 'k) option" where
  "server_leave K th epollfd sfd s H k = do {
     (_, s, H, k) \<leftarrow> fiber_epoll_unregister_events (sys_epoll_ctl K) th epollfd sfd s H k;
     Some (s, H, sys_close K sfd k)
   }"

definition initializeTask :: "platform \<Rightarrow> nat \<Rightarrow> nat \<Rightarrow> nat \<Rightarrow> sys \<Rightarrow> (bool \<times> sys) option" where
  "initializeTask P th server_code params_addr s = do {
     (_, s) \<leftarrow> fiber_create P th server_code params_addr 0 (8192 * 2) s;
     Some (True, s)
   }"

section \<open>What the server does\<close>

text \<open>The length that the reply declares is not the length of its body.\<close>

lemma reply_length_declared:
  "\<exists>h. reply = h @ ''Content-Length: 82'' @ crlf @ crlf @ reply_body @ [CHR 0x00]" "length reply_body = 91"
proof -
  show "\<exists>h. reply = h @ ''Content-Length: 82'' @ crlf @ crlf @ reply_body @ [CHR 0x00]"
    unfolding reply_def reply_head_def
    by (rule exI[of _ "''HTTP/1.0 200 OK'' @ crlf @ ''Content-type: text/html'' @ crlf @ ''Connection: close'' @ crlf"]) simp
  show "length reply_body = 91" by (simp add: reply_body_def nl_def)
qed

lemma non_blocking_result:
  "fst (make_socket_non_blocking K sfd k) =
     (if fst (sys_getfl K sfd k) = - 1 \<or>
         fst (sys_setfl K sfd (fst (sys_getfl K sfd k) OR O_NONBLOCK) (snd (sys_getfl K sfd k))) = - 1
      then - 1 else 0)"
  by (simp add: make_socket_non_blocking_def split: prod.split)

text \<open>A request that was read and answered keeps the connection; the context and the registration stay.\<close>

lemma request_answered:
  assumes "0 < rc" "sys_write K infd reply k = (w, k')" "0 \<le> w"
  shows "request_serve K th infd epollfd rc s H k = Some (False, s, H, k')"
  using assms by (simp add: request_serve_def)

text \<open>
  Otherwise (end of file, a failed read, a failed write) the handler frees the context, clears its slot and
  closes the descriptor, whatever the kernel answers.
\<close>

lemma request_ends:
  assumes "current_task s th = Some t" "registered s H t a ctx" "a \<noteq> 0"
    and "rc \<le> 0 \<or> fst (sys_write K infd reply k) < 0"
  shows "\<exists>k'. request_serve K th infd epollfd rc s H k = Some (True, slot0 t 0 s, H(a := None), sys_close K infd k')"
proof -
  have "\<exists>k1. request_serve K th infd epollfd rc s H k =
      Option.bind (fiber_epoll_unregister_events (sys_epoll_ctl K) th epollfd infd s H k1)
        (\<lambda>(_, s, H, k). Some (True, s, H, sys_close K infd k))"
    using assms(4) by (cases "rc \<le> 0") (auto simp: request_serve_def split: prod.splits)
  then obtain k1 where "request_serve K th infd epollfd rc s H k =
      Option.bind (fiber_epoll_unregister_events (sys_epoll_ctl K) th epollfd infd s H k1)
        (\<lambda>(_, s, H, k). Some (True, s, H, sys_close K infd k))" ..
  with unregister_spec[OF assms(1-3), of "sys_epoll_ctl K" epollfd infd k1] show ?thesis by auto
qed

text \<open>
  The life of a handler whose requests are all there at once: it registers, answers, and at the end of its
  connection the contexts are what they were before it came.
\<close>

lemma handler_cleans_up:
  assumes cur: "current_task s th = Some t" "length (taskLocalStorages (tcbs s t)) = MAX_TASK_LOCALDATAS"
    and sock: "make_socket_non_blocking K (cp_fd params) k = (0, k1)"
    and ctx: "ctx_malloc K H = Some (a, raw)" "a \<noteq> 0" "H a = None"
    and ctl: "sys_epoll_ctl K (cp_epoll_fd params) EPOLL_CTL_ADD (cp_fd params) (Some \<lparr>ep_events = EPOLLIN OR EPOLLET, ep_data = a\<rparr>) k1 = (0, k2)"
    and rc: "rc \<le> 0"
  shows "\<exists>s1 H1 s2 k3. request_start K th params s H k = Some (Inr ((cp_fd params, cp_epoll_fd params), s1, H1, k2)) \<and>
     request_serve K th (cp_fd params) (cp_epoll_fd params) rc s1 H1 k2 = Some (True, s2, H, sys_close K (cp_fd params) k3) \<and>
     taskLocalStorages (tcbs s2 t) ! 0 = 0"
proof -
  let ?ctx = "raw\<lparr>ec_fd := cp_fd params, ec_tcb := Some t\<rparr>"
  note reg = register_spec[where malloc = "ctx_malloc K" and epoll_ctl = "sys_epoll_ctl K" and rc = 0, OF cur(1) ctx(1) ctl order_refl cur(2)]
  have start: "request_start K th params s H k = Some (Inr ((cp_fd params, cp_epoll_fd params), slot0 t a s, H(a \<mapsto> ?ctx), k2))"
    using sock reg(1) by (simp add: request_start_def Let_def)
  have "current_task (slot0 t a s) th = Some t" using cur(1) by (simp add: slot0_def)
  from request_ends[OF this reg(2) ctx(2), of rc K "cp_fd params" k2 "cp_epoll_fd params"] rc obtain k3 where
    "request_serve K th (cp_fd params) (cp_epoll_fd params) rc (slot0 t a s) (H(a \<mapsto> ?ctx)) k2 =
       Some (True, slot0 t 0 (slot0 t a s), H, sys_close K (cp_fd params) k3)"
    using ctx(3) by (auto simp: fun_upd_idem)
  with start cur(2) show ?thesis by (auto simp: slot0_def MAX_TASK_LOCALDATAS_def)
qed

text \<open>Connections \<open>fds\<close> that are waiting when the server looks, each of which gets its task.\<close>

fun arriving ::
  "'k sockets \<Rightarrow> platform \<Rightarrow> nat \<Rightarrow> nat \<Rightarrow> nat \<Rightarrow> 32 word \<Rightarrow> 32 word list \<Rightarrow> sys \<Rightarrow> 'k \<Rightarrow> sys \<Rightarrow> 'k \<Rightarrow> bool" where
  "arriving K P th h p sfd [] s k s' k' = (sys_accept K sfd k = (- 1, k') \<and> s' = s)"
| "arriving K P th h p sfd (f # fds) s k s' k' = (f \<noteq> - 1 \<and> (\<exists>k1 r s1. sys_accept K sfd k = (f, k1) \<and>
     fiber_create P th h p 0 (8192 * 2) s = Some (r, s1) \<and> arriving K P th h p sfd fds s1 k1 s' k'))"

text \<open>
  The loop takes all of them and ends, and leaves the last descriptor in the shared parameters: no handler has run
  yet, so each of them starts by reading that one.
\<close>

lemma accept_loop_takes_all:
  assumes "arriving K P th h p sfd fds s k s' k'"
  shows "accept_loop K P th h p sfd params s k =
     Some (if fds = [] then params else params\<lparr>cp_fd := last fds\<rparr>, s', k')"
  using assms
proof (induction fds arbitrary: params s k)
  case Nil
  then show ?case by (subst accept_loop.simps) simp
next
  case (Cons f fds)
  then obtain k1 r s1 where "f \<noteq> - 1" "sys_accept K sfd k = (f, k1)"
    "fiber_create P th h p 0 (8192 * 2) s = Some (r, s1)" "arriving K P th h p sfd fds s1 k1 s' k'" by auto
  with Cons.IH[of s1 k1 "params\<lparr>cp_fd := f\<rparr>"] show ?case by (subst accept_loop.simps) simp
qed

lemma handlers_share_descriptor:
  assumes "arriving K P th h p sfd (fds @ [f]) s k s' k'"
    and "accept_loop K P th h p sfd params s k = Some (params', s'', k'')"
    and "request_start K th' params' s1 H k1 = Some (Inr ((infd, epollfd), s2, H2, k2))"
  shows "infd = f"
proof -
  have "cp_fd params' = f" using accept_loop_takes_all[OF assms(1), of params] assms(2) by auto
  with assms(3) show ?thesis
    by (auto simp: request_start_def Let_def split: prod.splits if_splits Option.bind_splits)
qed

end
