(* ===== verification/Producers.thy ===== *)
theory Producers
  imports Fiberq Blockq Spinlock Lifecycle
begin

text \<open>
  The programs of \<^verbatim>\<open>fiberbq.c\<close> and of the first half of \<^verbatim>\<open>blockq.c\<close>: producers and
  consumers that share one queue, each counting its rounds with an atomic instruction, while the main
  thread prints the two counters.  The two programs differ in the queue and in what is sent, so their
  loops are written once over the calls of a queue.  A run of a program is a run of its queue, and
  the printed numbers are never further apart than the tasks and the queue can explain.
\<close>

section \<open>The loops\<close>

text \<open>
  The statement a task executes next.  \<open>P_again\<close> and \<open>C_again\<close> are the inside of a call that waits,
  \<open>No_task\<close> stands for a block that is not a task of the program.
\<close>

datatype demo_pc = P_push | P_again | P_yield | P_count | C_pop | C_again | C_yield | C_count | No_task

text \<open>
  \<open>posts\<close> and \<open>recvs\<close> record the messages in the order in which the calls ended; the program does not
  read them.
\<close>

record ('q, 'a) demo =
  demo_lib :: sys
  demo_q :: 'q
  nPosted :: "64 word"
  nRecved :: "64 word"
  demo_index :: "nat \<Rightarrow> nat"
  demo_at :: "nat \<Rightarrow> demo_pc"
  posts :: "'a list"
  recvs :: "'a list"

definition demo_start :: "sys \<Rightarrow> 'q \<Rightarrow> ('q, 'a) demo" where
  "demo_start s q = \<lparr>demo_lib = s, demo_q = q, nPosted = 0, nRecved = 0, demo_index = (\<lambda>_. 0),
     demo_at = (\<lambda>_. No_task), posts = [], recvs = []\<rparr>"

abbreviation demo_goto :: "nat \<Rightarrow> demo_pc \<Rightarrow> ('q, 'a) demo \<Rightarrow> ('q, 'a) demo" where
  "demo_goto t k p \<equiv> p\<lparr>demo_at := (demo_at p)(t := k)\<rparr>"

fun pushed :: "nat \<Rightarrow> 'a \<Rightarrow> 'u outcome \<times> sys \<times> 'q \<Rightarrow> ('q, 'a) demo \<Rightarrow> ('q, 'a) demo" where
  "pushed t x (Switched, s, q) p = demo_goto t P_again (p\<lparr>demo_lib := s, demo_q := q\<rparr>)"
| "pushed t x (Returns _, s, q) p = demo_goto t P_yield (p\<lparr>demo_lib := s, demo_q := q, posts := posts p @ [x]\<rparr>)"

fun popped :: "nat \<Rightarrow> 'a outcome \<times> sys \<times> 'q \<Rightarrow> ('q, 'a) demo \<Rightarrow> ('q, 'a) demo" where
  "popped t (Switched, s, q) p = demo_goto t C_again (p\<lparr>demo_lib := s, demo_q := q\<rparr>)"
| "popped t (Returns x, s, q) p = demo_goto t C_yield (p\<lparr>demo_lib := s, demo_q := q, recvs := recvs p @ [x]\<rparr>)"

definition producer_turn ::
  "(nat \<Rightarrow> 'a \<Rightarrow> sys \<Rightarrow> 'q \<Rightarrow> ('u outcome \<times> sys \<times> 'q) option) \<Rightarrow> (nat \<Rightarrow> 'a \<Rightarrow> sys \<Rightarrow> 'q \<Rightarrow> ('u outcome \<times> sys \<times> 'q) option) \<Rightarrow>
   (nat \<Rightarrow> 'a) \<Rightarrow> nat \<Rightarrow> nat \<Rightarrow> ('q, 'a) demo \<Rightarrow> ('q, 'a) demo option" where
  "producer_turn push push_again val th t p =
     (let x = val (demo_index p t) in
      case demo_at p t of
        P_push \<Rightarrow> do { r \<leftarrow> push th x (demo_lib p) (demo_q p); Some (pushed t x r p) }
      | P_again \<Rightarrow> do { r \<leftarrow> push_again th x (demo_lib p) (demo_q p); Some (pushed t x r p) }
      | P_yield \<Rightarrow> do { (_, s) \<leftarrow> fiber_sched_yield th (demo_lib p); Some (demo_goto t P_count (p\<lparr>demo_lib := s\<rparr>)) }
      | P_count \<Rightarrow> Some (demo_goto t P_push (p\<lparr>nPosted := snd (FAA (nPosted p))\<rparr>))
      | _ \<Rightarrow> None)"

definition consumer_turn ::
  "(nat \<Rightarrow> sys \<Rightarrow> 'q \<Rightarrow> ('a outcome \<times> sys \<times> 'q) option) \<Rightarrow> (nat \<Rightarrow> sys \<Rightarrow> 'q \<Rightarrow> ('a outcome \<times> sys \<times> 'q) option) \<Rightarrow>
   nat \<Rightarrow> nat \<Rightarrow> ('q, 'a) demo \<Rightarrow> ('q, 'a) demo option" where
  "consumer_turn pop pop_again th t p =
     (case demo_at p t of
        C_pop \<Rightarrow> do { r \<leftarrow> pop th (demo_lib p) (demo_q p); Some (popped t r p) }
      | C_again \<Rightarrow> do { r \<leftarrow> pop_again th (demo_lib p) (demo_q p); Some (popped t r p) }
      | C_yield \<Rightarrow> do { (_, s) \<leftarrow> fiber_sched_yield th (demo_lib p); Some (demo_goto t C_count (p\<lparr>demo_lib := s\<rparr>)) }
      | C_count \<Rightarrow> Some (demo_goto t C_pop (p\<lparr>nRecved := snd (FAA (nRecved p))\<rparr>))
      | _ \<Rightarrow> None)"

text \<open>\<^verbatim>\<open>fiberbq.c\<close>: every message is \<open>'A'\<close>.\<close>

definition fiberbq_producer :: "nat \<Rightarrow> nat \<Rightarrow> (int fiberq, int) demo \<Rightarrow> (int fiberq, int) demo option" where
  "fiberbq_producer = producer_turn fiberq_push fiberq_push_again (\<lambda>_. 65)"

definition fiberbq_consumer :: "nat \<Rightarrow> nat \<Rightarrow> (int fiberq, int) demo \<Rightarrow> (int fiberq, int) demo option" where
  "fiberbq_consumer = consumer_turn fiberq_pop fiberq_pop_again"

text \<open>\<^verbatim>\<open>blockq.c\<close>: producer \<open>index\<close> sends the letter \<open>'A' + index % 26\<close>.\<close>

definition blockq_letter :: "nat \<Rightarrow> int" where
  "blockq_letter index = 65 + int (index mod 26)"

definition blockq_producer :: "nat \<Rightarrow> nat \<Rightarrow> (int blockq, int) demo \<Rightarrow> (int blockq, int) demo option" where
  "blockq_producer = producer_turn blockq_push blockq_push_again blockq_letter"

definition blockq_consumer :: "nat \<Rightarrow> nat \<Rightarrow> (int blockq, int) demo \<Rightarrow> (int blockq, int) demo option" where
  "blockq_consumer = consumer_turn blockq_pop blockq_pop_again"

lemma letters_range: "range blockq_letter \<subseteq> {65 .. 90}"
proof
  fix x assume "x \<in> range blockq_letter"
  then obtain i where "x = 65 + int (i mod 26)" by (auto simp: blockq_letter_def)
  moreover have "i mod 26 < 26" by simp
  ultimately show "x \<in> {65 .. 90}" by simp
qed

section \<open>Creating the tasks\<close>

definition NUM_PRODUCERS :: nat where
  "NUM_PRODUCERS = 8192"

definition NUM_CONSUMERS :: nat where
  "NUM_CONSUMERS = 8192"

text \<open>
  The order in which \<open>initializeTasks\<close> creates its tasks: pairs of a producer and a consumer while there
  are both, then the rest of either kind.
\<close>

datatype role = Producer nat | Consumer nat

definition demo_roles :: "nat \<Rightarrow> nat \<Rightarrow> role list" where
  "demo_roles np nc = (let n = (if np < nc then np else nc) in
     concat (map (\<lambda>i. [Producer i, Consumer i]) [0 ..< n]) @ map Producer [n ..< np] @ map Consumer [n ..< nc])"

text \<open>
  \<open>fiber_create\<close> for one task after the other; \<open>code\<close> and \<open>arg\<close> give the entry point and the argument
  of a task, and a task that could not be created is left out.
\<close>

fun enrol :: "role \<Rightarrow> nat option \<Rightarrow> ('q, 'a) demo \<Rightarrow> ('q, 'a) demo" where
  "enrol r None p = p"
| "enrol (Producer i) (Some t) p = demo_goto t P_push (p\<lparr>demo_index := (demo_index p)(t := i)\<rparr>)"
| "enrol (Consumer i) (Some t) p = demo_goto t C_pop (p\<lparr>demo_index := (demo_index p)(t := i)\<rparr>)"

fun create_tasks ::
  "platform \<Rightarrow> nat \<Rightarrow> (role \<Rightarrow> nat) \<Rightarrow> (role \<Rightarrow> nat) \<Rightarrow> 32 word \<Rightarrow> role list \<Rightarrow> ('q, 'a) demo \<Rightarrow> ('q, 'a) demo option" where
  "create_tasks P th code arg z [] p = Some p"
| "create_tasks P th code arg z (r # rs) p = do {
     (t, s) \<leftarrow> fiber_create P th (code r) (arg r) 0 z (demo_lib p);
     create_tasks P th code arg z rs (enrol r t (p\<lparr>demo_lib := s\<rparr>))
   }"

definition fiberbq_initializeTasks ::
  "platform \<Rightarrow> nat \<Rightarrow> (role \<Rightarrow> nat) \<Rightarrow> nat \<Rightarrow> nat \<Rightarrow> (int fiberq, int) demo \<Rightarrow> (int fiberq, int) demo option" where
  "fiberbq_initializeTasks P th code np nc =
     create_tasks P th code (\<lambda>r. case r of Producer i \<Rightarrow> i | Consumer i \<Rightarrow> i) 8192 (demo_roles np nc)"

definition FIBER_STACKSIZE_MIN :: "32 word" where
  "FIBER_STACKSIZE_MIN = 8192"

definition blockq_initializeTasks ::
  "platform \<Rightarrow> nat \<Rightarrow> (role \<Rightarrow> nat) \<Rightarrow> (role \<Rightarrow> nat) \<Rightarrow> nat \<Rightarrow> nat \<Rightarrow> (int blockq, int) demo \<Rightarrow> (int blockq, int) demo option" where
  "blockq_initializeTasks P th code ctx np nc = create_tasks P th code ctx FIBER_STACKSIZE_MIN (demo_roles np nc)"

section \<open>Runs\<close>

text \<open>
  A run starts where the tasks have been created.  A task takes a turn when it is the current task of a
  thread; in between the library moves on by itself (the scheduler tasks, timers, other threads).
\<close>

inductive demo_run ::
  "(nat \<Rightarrow> nat \<Rightarrow> ('q, 'a) demo \<Rightarrow> ('q, 'a) demo option) \<Rightarrow> (nat \<Rightarrow> nat \<Rightarrow> ('q, 'a) demo \<Rightarrow> ('q, 'a) demo option) \<Rightarrow>
   ('q, 'a) demo \<Rightarrow> ('q, 'a) demo \<Rightarrow> bool"
  for producer consumer p0 where
  start: "demo_run producer consumer p0 p0"
| other: "demo_run producer consumer p0 p \<Longrightarrow> demo_run producer consumer p0 (p\<lparr>demo_lib := s\<rparr>)"
| produce: "demo_run producer consumer p0 p \<Longrightarrow> current_task (demo_lib p) th = Some t \<Longrightarrow> producer th t p = Some p' \<Longrightarrow>
     demo_run producer consumer p0 p'"
| consume: "demo_run producer consumer p0 p \<Longrightarrow> current_task (demo_lib p) th = Some t \<Longrightarrow> consumer th t p = Some p' \<Longrightarrow>
     demo_run producer consumer p0 p'"

abbreviation demo_view :: "('q, 'a) demo \<Rightarrow> ('q, 'a) chan_state" where
  "demo_view p \<equiv> (demo_lib p, demo_q p, posts p, recvs p)"

text \<open>A turn of a program is a step of its queue.\<close>

lemma producer_view:
  assumes "producer_turn push push_again val th t p = Some p'"
  shows "chan_step push push_again pop pop_again (demo_view p) (demo_view p')"
proof -
  have "chan_step push push_again pop pop_again (demo_view p) (demo_view (pushed t x (r, s, q) p))"
    if "push th x (demo_lib p) (demo_q p) = Some (r, s, q) \<or> push_again th x (demo_lib p) (demo_q p) = Some (r, s, q)" for x r s q
    using that by (cases r) (auto intro: chan_step.push_wait chan_step.push_done)
  with assms show ?thesis
    by (cases "demo_at p t") (auto simp: producer_turn_def Let_def bind_eq_Some_conv intro: chan_step.other)
qed

lemma consumer_view:
  assumes "consumer_turn pop pop_again th t p = Some p'"
  shows "chan_step push push_again pop pop_again (demo_view p) (demo_view p')"
proof -
  have "chan_step push push_again pop pop_again (demo_view p) (demo_view (popped t (r, s, q) p))"
    if "pop th (demo_lib p) (demo_q p) = Some (r, s, q) \<or> pop_again th (demo_lib p) (demo_q p) = Some (r, s, q)" for r s q
    using that by (cases r) (auto intro: chan_step.pop_wait chan_step.pop_done)
  with assms show ?thesis
    by (cases "demo_at p t") (auto simp: consumer_turn_def bind_eq_Some_conv intro: chan_step.other)
qed

lemma run_is_channel_run:
  assumes "demo_run (producer_turn push push_again val) (consumer_turn pop pop_again) p0 p" "posts p0 = []" "recvs p0 = []"
  shows "chan_reachable push push_again pop pop_again (demo_q p0) (demo_view p)"
  using assms
proof induction
  case start
  then show ?case using chan_reachable.start[of push push_again pop pop_again "demo_q p0" "demo_lib p0"] by simp
next
  case (other p s)
  then show ?case
    by (auto intro: chan_reachable.step chan_step.other[of push push_again pop pop_again "demo_lib p" "demo_q p" "posts p" "recvs p" s])
next
  case (produce p th t p')
  then show ?case by (blast intro: chan_reachable.step producer_view)
next
  case (consume p th t p')
  then show ?case by (blast intro: chan_reachable.step consumer_view)
qed

text \<open>What is sent is what some producer has to send.\<close>

lemma posts_pushed: "set (posts (pushed t x y p)) \<subseteq> insert x (set (posts p))"
  by (cases "(t, x, y, p)" rule: pushed.cases) auto

lemma posts_popped [simp]: "posts (popped t y p) = posts p"
  by (cases "(t, y, p)" rule: popped.cases) auto

lemma posts_producer:
  assumes "producer_turn push push_again val th t p = Some p'"
  shows "set (posts p') \<subseteq> insert (val (demo_index p t)) (set (posts p))"
  using assms posts_pushed[of t "val (demo_index p t)" _ p]
  by (cases "demo_at p t") (auto simp: producer_turn_def Let_def bind_eq_Some_conv)

lemma run_posts:
  assumes "demo_run (producer_turn push push_again val) (consumer_turn pop pop_again) p0 p" "posts p0 = []"
  shows "set (posts p) \<subseteq> range val"
  using assms
proof induction
  case (produce p th t p')
  then show ?case using posts_producer[of push push_again val th t p p'] by auto
next
  case (consume p th t p')
  then show ?case by (auto simp: consumer_turn_def bind_eq_Some_conv split: demo_pc.splits)
qed auto

section \<open>The counters\<close>

text \<open>
  \<open>tally np nc p\<close>: there are at most \<open>np\<close> producers and \<open>nc\<close> consumers, and each counter lags behind
  the messages by the tasks that are between their call and their count.  The counters are 64 bit words;
  \<open>a\<close> and \<open>b\<close> are what they count.
\<close>

definition producing :: "demo_pc \<Rightarrow> bool" where
  "producing k = (k \<in> {P_push, P_again, P_yield, P_count})"

definition consuming :: "demo_pc \<Rightarrow> bool" where
  "consuming k = (k \<in> {C_pop, C_again, C_yield, C_count})"

definition posted :: "demo_pc \<Rightarrow> bool" where
  "posted k = (k \<in> {P_yield, P_count})"

definition received :: "demo_pc \<Rightarrow> bool" where
  "received k = (k \<in> {C_yield, C_count})"

lemmas pc_classes = producing_def consuming_def posted_def received_def

definition team :: "(demo_pc \<Rightarrow> bool) \<Rightarrow> nat \<Rightarrow> (nat \<Rightarrow> demo_pc) \<Rightarrow> bool" where
  "team P n pc = (finite {t. P (pc t)} \<and> card {t. P (pc t)} \<le> n)"

definition lags :: "(demo_pc \<Rightarrow> bool) \<Rightarrow> 64 word \<Rightarrow> 'a list \<Rightarrow> (nat \<Rightarrow> demo_pc) \<Rightarrow> bool" where
  "lags P w xs pc = (finite {t. P (pc t)} \<and> (\<exists>a. w = word_of_nat a \<and> length xs = a + card {t. P (pc t)}))"

definition tally :: "nat \<Rightarrow> nat \<Rightarrow> ('q, 'a) demo \<Rightarrow> bool" where
  "tally np nc p = (team producing np (demo_at p) \<and> team consuming nc (demo_at p) \<and>
     lags posted (nPosted p) (posts p) (demo_at p) \<and> lags received (nRecved p) (recvs p) (demo_at p))"

lemma team_keep: "team P n pc \<Longrightarrow> P k = P (pc t) \<Longrightarrow> team P n (pc(t := k))"
  unfolding team_def by (simp only: members_keep)

lemma lags_keep: "lags P w xs pc \<Longrightarrow> P k = P (pc t) \<Longrightarrow> lags P w xs (pc(t := k))"
  unfolding lags_def by (simp only: members_keep)

lemma lags_call: "lags P w xs pc \<Longrightarrow> \<not> P (pc t) \<Longrightarrow> P k \<Longrightarrow> lags P w (xs @ [x]) (pc(t := k))"
  using members_gain[of P pc t k] unfolding lags_def by auto

lemma lags_count:
  assumes "lags P w xs pc" "P (pc t)" "\<not> P k"
  shows "lags P (snd (FAA w)) xs (pc(t := k))"
proof -
  obtain a where "finite {t. P (pc t)}" "w = word_of_nat a" "length xs = a + card {t. P (pc t)}"
    using assms(1) by (auto simp: lags_def)
  with members_lose[of P pc t k] assms(2,3) show ?thesis
    unfolding lags_def by (intro conjI exI[of _ "Suc a"]) (simp_all add: FAA_def)
qed

lemma producer_tally:
  assumes "tally np nc p" "producer_turn push push_again val th t p = Some p'"
  shows "tally np nc p'"
proof -
  have calls: "tally np nc (pushed t x (r, s, q) p)" if "demo_at p t = P_push \<or> demo_at p t = P_again" for x r s q
    using assms(1) that
    by (cases r) (auto simp: tally_def pc_classes intro: team_keep lags_keep lags_call)
  show ?thesis
  proof (cases "demo_at p t")
    case P_yield
    then show ?thesis using assms
      by (auto simp: producer_turn_def tally_def pc_classes bind_eq_Some_conv intro!: team_keep lags_keep)
  next
    case P_count
    then show ?thesis using assms
      by (auto simp: producer_turn_def tally_def pc_classes team_keep lags_keep lags_count)
  qed (use assms(2) calls in \<open>auto simp: producer_turn_def Let_def bind_eq_Some_conv\<close>)
qed

lemma consumer_tally:
  assumes "tally np nc p" "consumer_turn pop pop_again th t p = Some p'"
  shows "tally np nc p'"
proof -
  have calls: "tally np nc (popped t (r, s, q) p)" if "demo_at p t = C_pop \<or> demo_at p t = C_again" for r s q
    using assms(1) that
    by (cases r) (auto simp: tally_def pc_classes intro: team_keep lags_keep lags_call)
  show ?thesis
  proof (cases "demo_at p t")
    case C_yield
    then show ?thesis using assms
      by (auto simp: consumer_turn_def tally_def pc_classes bind_eq_Some_conv intro!: team_keep lags_keep)
  next
    case C_count
    then show ?thesis using assms
      by (auto simp: consumer_turn_def tally_def pc_classes team_keep lags_keep lags_count)
  qed (use assms(2) calls in \<open>auto simp: consumer_turn_def bind_eq_Some_conv\<close>)
qed

lemma run_tally:
  assumes "demo_run (producer_turn push push_again val) (consumer_turn pop pop_again) p0 p" "tally np nc p0"
  shows "tally np nc p"
  using assms
proof induction
  case (produce p th t p')
  then show ?case using producer_tally by blast
next
  case (consume p th t p')
  then show ?case using consumer_tally by blast
qed (auto simp: tally_def)

text \<open>Creating the tasks starts the tally: nobody has sent or received, and there are no more tasks than roles.\<close>

definition is_producer :: "role \<Rightarrow> bool" where
  "is_producer r = (case r of Producer _ \<Rightarrow> True | Consumer _ \<Rightarrow> False)"

lemma team_join: "team P n pc \<Longrightarrow> team P (Suc n) (pc(t := k))"
proof -
  assume a: "team P n pc"
  have "{u. P ((pc(t := k)) u)} \<subseteq> insert t {u. P (pc u)}" by auto
  moreover have "finite (insert t {u. P (pc u)})" "card (insert t {u. P (pc u)}) \<le> Suc n"
    using a card_insert_le_m1[of "Suc n" "{u. P (pc u)}" t] by (simp_all add: team_def)
  ultimately show ?thesis unfolding team_def using finite_subset card_mono by (metis le_trans)
qed

lemma team_more: "team P n pc \<Longrightarrow> n \<le> n' \<Longrightarrow> team P n' pc"
  by (simp add: team_def)

lemma team_leave: "team P n pc \<Longrightarrow> \<not> P k \<Longrightarrow> team P n (pc(t := k))"
  using members_lose[of P pc t k] members_keep[of P k pc t] by (cases "P (pc t)") (auto simp: team_def)

lemma enrol_fields [simp]:
  "demo_lib (enrol r t p) = demo_lib p" "demo_q (enrol r t p) = demo_q p" "nPosted (enrol r t p) = nPosted p"
  "nRecved (enrol r t p) = nRecved p" "posts (enrol r t p) = posts p" "recvs (enrol r t p) = recvs p"
  by (cases "(r, t, p)" rule: enrol.cases; simp)+

text \<open>The program before any call of a queue, with at most \<open>np\<close> producers and \<open>nc\<close> consumers.\<close>

definition unstarted :: "nat \<Rightarrow> nat \<Rightarrow> (nat \<Rightarrow> demo_pc) \<Rightarrow> bool" where
  "unstarted np nc pc = (team producing np pc \<and> team consuming nc pc \<and> (\<forall>u. \<not> posted (pc u) \<and> \<not> received (pc u)))"

lemma enrol_unstarted:
  "unstarted np nc (demo_at p) \<Longrightarrow>
     unstarted (if is_producer r then Suc np else np) (if is_producer r then nc else Suc nc) (demo_at (enrol r t p))"
  by (cases "(r, t, p)" rule: enrol.cases)
    (auto simp: unstarted_def is_producer_def pc_classes intro: team_join team_leave team_more split: role.splits)

lemma create_tasks_unstarted:
  assumes "create_tasks P th code arg z rs p = Some p'" "unstarted np nc (demo_at p)"
  shows "unstarted (np + length (filter is_producer rs)) (nc + length (filter (Not \<circ> is_producer) rs)) (demo_at p') \<and>
     demo_q p' = demo_q p \<and> nPosted p' = nPosted p \<and> nRecved p' = nRecved p \<and> posts p' = posts p \<and> recvs p' = recvs p"
  using assms
proof (induction rs arbitrary: p np nc)
  case (Cons r rs)
  obtain t s where c: "create_tasks P th code arg z rs (enrol r t (p\<lparr>demo_lib := s\<rparr>)) = Some p'"
    using Cons.prems(1) by (auto simp: bind_eq_Some_conv)
  have "unstarted (if is_producer r then Suc np else np) (if is_producer r then nc else Suc nc)
      (demo_at (enrol r t (p\<lparr>demo_lib := s\<rparr>)))"
    using Cons.prems(2) by (intro enrol_unstarted) simp
  from Cons.IH[OF c this] show ?case by (cases "is_producer r") simp_all
qed simp

lemma roles_count:
  "length (filter is_producer (demo_roles np nc)) = np" "length (filter (Not \<circ> is_producer) (demo_roles np nc)) = nc"
proof -
  have "length (filter is_producer (concat (map (\<lambda>i. [Producer i, Consumer i]) xs))) = length xs"
    "length (filter (Not \<circ> is_producer) (concat (map (\<lambda>i. [Producer i, Consumer i]) xs))) = length xs" for xs
    by (induction xs) (simp_all add: is_producer_def)
  then show "length (filter is_producer (demo_roles np nc)) = np" "length (filter (Not \<circ> is_producer) (demo_roles np nc)) = nc"
    by (simp_all add: demo_roles_def Let_def is_producer_def comp_def)
qed

lemma created_tally:
  assumes "create_tasks P th code arg z (demo_roles np nc) (demo_start s q) = Some p0"
  shows "tally np nc p0" "demo_q p0 = q" "posts p0 = []" "recvs p0 = []"
proof -
  have "unstarted 0 0 (demo_at (demo_start s q))"
    by (simp add: unstarted_def team_def demo_start_def pc_classes)
  from create_tasks_unstarted[OF assms this, unfolded roles_count]
  have "unstarted np nc (demo_at p0)" and p0: "demo_q p0 = q" "nPosted p0 = 0" "nRecved p0 = 0" "posts p0 = []" "recvs p0 = []"
    by (simp_all add: demo_start_def)
  then show "tally np nc p0" "demo_q p0 = q" "posts p0 = []" "recvs p0 = []"
    by (simp_all add: tally_def unstarted_def lags_def)
qed

section \<open>What the main thread prints\<close>

lemma tally_apart:
  assumes t: "tally np nc p" and q: "posts p = recvs p @ xs" "length xs \<le> n"
  shows "\<exists>a b. nPosted p = word_of_nat a \<and> nRecved p = word_of_nat b \<and> b \<le> a + np \<and> a \<le> b + nc + n"
proof -
  have sub: "card {u. P (pc u)} \<le> k" if "team R k pc" "\<And>x. P x \<Longrightarrow> R x" for P R k and pc :: "nat \<Rightarrow> demo_pc"
    using that card_mono[of "{u. R (pc u)}" "{u. P (pc u)}"] by (fastforce simp: team_def)
  obtain a b where "nPosted p = word_of_nat a" "length (posts p) = a + card {t. posted (demo_at p t)}"
    "nRecved p = word_of_nat b" "length (recvs p) = b + card {t. received (demo_at p t)}"
    using t by (auto simp: tally_def lags_def)
  moreover have "card {t. posted (demo_at p t)} \<le> np" "card {t. received (demo_at p t)} \<le> nc"
    using t by (auto simp: tally_def pc_classes intro!: sub)
  moreover have "length (posts p) = length (recvs p) + length xs" using q(1) by simp
  ultimately show ?thesis using q(2) by (intro exI[of _ a] exI[of _ b]) linarith
qed

lemma chan_demo_counters:
  assumes run: "demo_run (producer_turn push push_again val) (consumer_turn pop pop_again) p0 p"
    and p0: "create_tasks P th code arg z (demo_roles np nc) (demo_start s1 q0) = Some p0"
    and law: "\<And>s q sent rcvd. chan_reachable push push_again pop pop_again q0 (s, q, sent, rcvd) \<Longrightarrow>
       sent = rcvd @ contents q \<and> length (contents q) \<le> n"
  shows "posts p = recvs p @ contents (demo_q p) \<and> length (contents (demo_q p)) \<le> n \<and> set (posts p) \<subseteq> range val \<and>
     (\<exists>a b. nPosted p = word_of_nat a \<and> nRecved p = word_of_nat b \<and> b \<le> a + np \<and> a \<le> b + nc + n)"
proof -
  note c = created_tally[OF p0]
  have "posts p = recvs p @ contents (demo_q p) \<and> length (contents (demo_q p)) \<le> n"
    using law[OF run_is_channel_run[OF run c(3,4), unfolded c(2)]] .
  moreover from this have "\<exists>a b. nPosted p = word_of_nat a \<and> nRecved p = word_of_nat b \<and> b \<le> a + np \<and> a \<le> b + nc + n"
    by (intro tally_apart[OF run_tally[OF run c(1)]]) auto
  ultimately show ?thesis using run_posts[OF run c(3)] by blast
qed

lemma fiberbq_counters:
  assumes "fiberq_init_static 0 1024 lock empt full s0 = (True, s1, q0)"
    and "fiberbq_initializeTasks P th code np nc (demo_start s1 q0) = Some p0"
    and "demo_run fiberbq_producer fiberbq_consumer p0 p"
  shows "posts p = recvs p @ rbq_contents (demo_q p) \<and> length (rbq_contents (demo_q p)) \<le> 1024 \<and> set (posts p) \<subseteq> {65} \<and>
     (\<exists>a b. nPosted p = word_of_nat a \<and> nRecved p = word_of_nat b \<and> b \<le> a + np \<and> a \<le> b + nc + 1024)"
proof -
  have "rbq_inv q0" "rbq_contents q0 = []" "rbq_size q0 = 1024"
    using fiberq_init_static_spec[of 1024 "0 :: int" lock empt full s0] assms(1) by auto
  with rbq_chan.run_delivers have "sent = rcvd @ rbq_contents q \<and> length (rbq_contents q) \<le> 1024"
    if "chan_reachable fiberq_push fiberq_push_again fiberq_pop fiberq_pop_again q0 (s, q, sent, rcvd)" for s q sent rcvd
    using that by fastforce
  from chan_demo_counters[OF assms(3)[unfolded fiberbq_producer_def fiberbq_consumer_def]
      assms(2)[unfolded fiberbq_initializeTasks_def], of rbq_contents 1024] this
  show ?thesis by auto
qed

end
