(* ===== verification/Scenario.thy ===== *)
theory Scenario
  imports Epoll Fiberq Lifecycle Switch_Race Pipe_Sync Spinlock Context Clock Generator Reader_Writer Pipe_Race Pipe_Ring Server Producers
begin

text \<open>
  Concrete system states.  \<open>lay_out\<close> builds a chain memory with given queues by running the chain
  macros, and \<open>scene\<close> a system around it with one service thread, whose scheduler task is task 0
  with scheduler block 0.  They show that the preconditions of the theorems can be met.
\<close>

fun put_all :: "fld \<Rightarrow> chain_id \<Rightarrow> nat list \<Rightarrow> chain_id mem \<Rightarrow> chain_id mem" where
  "put_all f c [] m = m"
| "put_all f c (x # xs) m = put_all f c xs (the (chain_append f c (Tcb x) m))"

fun lay_out :: "(chain_id \<times> nat list) list \<Rightarrow> chain_id mem" where
  "lay_out [] = (\<lambda>_. NULL)"
| "lay_out ((c, xs) # L) = put_all (link_field c) c xs (chain_init_empty c (lay_out L))"

fun layout_ok :: "(chain_id \<times> nat list) list \<Rightarrow> bool" where
  "layout_ok [] = True"
| "layout_ok ((c, xs) # L) =
     (distinct xs \<and> list_all (\<lambda>(d, ys). d \<noteq> c \<and> (link_field d = link_field c \<longrightarrow> list_all (\<lambda>x. x \<notin> set ys) xs)) L \<and>
      layout_ok L)"

lemma put_all_chains:
  assumes "chains link_field m Q" "Q c = Some ys" "distinct (ys @ xs)"
    and "\<And>d zs. link_field d = link_field c \<Longrightarrow> d \<noteq> c \<Longrightarrow> Q d = Some zs \<Longrightarrow> set xs \<inter> set zs = {}"
  shows "chains link_field (put_all (link_field c) c xs m) (Q(c \<mapsto> ys @ xs))"
  using assms
proof (induction xs arbitrary: m Q ys)
  case Nil
  then show ?case by (simp add: map_upd_triv)
next
  case (Cons x xs)
  have "x \<notin> set zs" if "link_field d = link_field c" "Q d = Some zs" for d zs
    using Cons.prems(2,3) Cons.prems(4)[OF that(1) _ that(2)] that by (cases "d = c") auto
  then obtain m' where m': "chain_append (link_field c) c (Tcb x) m = Some m'"
    "chains link_field m' (Q(c \<mapsto> ys @ [x]))"
    using linkq.tail_law[where k = link_field and f = "link_field c", OF Cons.prems(1) refl Cons.prems(2), of x] by blast
  have d: "set xs \<inter> set zs = {}" if "link_field d = link_field c" "d \<noteq> c" "(Q(c \<mapsto> ys @ [x])) d = Some zs" for d zs
    using Cons.prems(4)[OF that(1,2)] that(2,3) by auto
  have "chains link_field (put_all (link_field c) c xs m') (Q(c \<mapsto> ys @ [x], c \<mapsto> (ys @ [x]) @ xs))"
    by (rule Cons.IH[OF m'(2) _ _ d]) (use Cons.prems(3) in auto)
  with m'(1) show ?case by (simp del: fun_upd_apply)
qed

lemma lay_out_chains: "layout_ok L \<Longrightarrow> chains link_field (lay_out L) (map_of L)"
proof (induction L rule: lay_out.induct)
  case 1
  then show ?case by (simp add: chains_def)
next
  case (2 c xs L)
  let ?Q = "(map_of L)(c \<mapsto> [])"
  have ch: "chains link_field (chain_init_empty c (lay_out L)) ?Q"
    using init_empty_chain[of link_field "lay_out L" "map_of L" c] 2 by simp
  have "set xs \<inter> set zs = {}" if "link_field d = link_field c" "d \<noteq> c" "?Q d = Some zs" for d zs
    using that "2.prems" map_of_SomeD[of L d zs] by (fastforce simp: list_all_iff)
  from put_all_chains[OF ch, of c "[]" xs] this "2.prems" show ?case
    by (simp del: fun_upd_apply add: fun_upd_same)
qed

section \<open>A system with one thread\<close>

definition plain_tcb :: FibTCB where
  "plain_tcb = \<lparr>entry = 0, args = 0, stackaddr = 0, stacksize = 0, state = 0, group = 0, yieldCode = 0,
     delta_interval = 0, waitingOptions = 0, pendingEvents = 0, waitingEvents = 0, seizedEvents = 0,
     waitingObject = NoObject, scheduler = Some 0, scheddata = Some 0, taskLocalStorages = [0, 0, 0, 0],
     onTaskStartup = None, onTaskCleanup = None, regs = \<lparr>reg_r12 = 0, reg_r13 = 0, reg_r14 = 0, reg_r15 = 0,
     reg_rip = 0, reg_rsp = 0, reg_rbx = 0, reg_rbp = 0\<rparr>, resume_at = K_entry\<rparr>"

definition plain_scp :: FibSCP where
  "plain_scp = \<lparr>freedlist = NULL, freedsize = 0, scp_group = 0, cached_stack = replicate 8 (0, 0),
     cached_stack_mask = 0xFF, nLocalFibTasks = 4\<rparr>"

definition scene :: "bool \<Rightarrow> (chain_id \<times> nat list) list \<Rightarrow> (nat \<Rightarrow> FibTCB) \<Rightarrow> nat \<Rightarrow> sys" where
  "scene one L T c = \<lparr>one_n_model = one, mem = lay_out L, locks = (\<lambda>_. False), tcbs = T, scps = (\<lambda>_. plain_scp),
     mutexes = (\<lambda>_. \<lparr>holder = None, reentries = 0\<rparr>), sems = (\<lambda>_. \<lparr>count = 0\<rparr>),
     current_task = (\<lambda>_. Some c), the_maintask = (\<lambda>_. Some 0), global_freedlist = NULL,
     global_cached_stack = replicate 64 (0, 0), global_cached_stack_mask = 0,
     nGlobalFibTasks = 4, mServiceThreads = 1\<rparr>"

lemma scene_sel [simp]:
  "one_n_model (scene one L T c) = one" "tcbs (scene one L T c) = T" "locks (scene one L T c) l = False"
  "current_task (scene one L T c) th = Some c" "the_maintask (scene one L T c) th = Some 0"
  "mutexes (scene one L T c) p = \<lparr>holder = None, reentries = 0\<rparr>" "sems (scene one L T c) p = \<lparr>count = 0\<rparr>"
  "scps (scene one L T c) d = plain_scp" "global_freedlist (scene one L T c) = NULL"
  "mServiceThreads (scene one L T c) = 1"
  by (simp_all add: scene_def)

lemma scene_quiet [simp]: "quiet (scene one L T c)"
  by (simp add: quiet_def)

lemma scene_queues: "layout_ok L \<Longrightarrow> queues (scene one L T c) (map_of L)"
  using lay_out_chains by (simp add: queues_def scene_def)

lemma scene_running:
  assumes "layout_ok L" "map_of L (ReadyList 0) = Some (us @ [0])" "scheddata (T 0) = Some 0"
    and "c = 0 \<or> (us \<noteq> [] \<and> c = last us)"
  shows "running (scene one L T c) (map_of L) th 0 0 us c"
  using assms scene_queues[OF assms(1)] by (auto simp: running_def on_thread_def)

text \<open>The queues of the scenes: tasks 1 and 2 are ready, task 3 is the first of the queue \<open>w\<close>.\<close>

definition base_queues :: "chain_id \<Rightarrow> nat list \<Rightarrow> (chain_id \<times> nat list) list" where
  "base_queues w ws = [(w, ws), (ReadyList 0, [1, 2, 0]), (WadogList 0, []), (GlobalReady 0, [])]"

definition plain :: "nat \<Rightarrow> FibTCB" where
  "plain = (\<lambda>_. plain_tcb)"

lemma plain_sel [simp]:
  "scheduler (plain t) = Some 0" "scheddata (plain t) = Some 0" "group (plain t) = 0" "state (plain t) = 0"
  "onTaskCleanup (plain t) = None" "pendingEvents (plain t) = 0" "waitingEvents (plain t) = 0" "delta_interval (plain t) = 0"
  by (simp_all add: plain_def plain_tcb_def)

section \<open>The scenes of the witnesses\<close>

lemma running_other [simp]:
  "running (s\<lparr>mutexes := a\<rparr>) Q th d m us c = running s Q th d m us c"
  "running (s\<lparr>sems := b\<rparr>) Q th d m us c = running s Q th d m us c"
  by (simp_all add: running_def on_thread_def queues_def)

lemma base_ok:
  "link_field w = Fld_node \<Longrightarrow> w \<noteq> ReadyList 0 \<Longrightarrow> w \<noteq> GlobalReady 0 \<Longrightarrow> distinct ws \<Longrightarrow>
     set ws \<inter> {0, 1, 2} = {} \<Longrightarrow> layout_ok (base_queues w ws)"
  by (auto simp: base_queues_def list_all_iff intro: gr0I)

lemma base_running:
  assumes "link_field w = Fld_node" "w \<noteq> ReadyList 0" "w \<noteq> GlobalReady 0" "distinct ws" "set ws \<inter> {0, 1, 2} = {}"
    and "scheddata (T 0) = Some 0"
  shows "running (scene one (base_queues w ws) T 2) (map_of (base_queues w ws)) th 0 0 [1, 2] 2"
  using scene_running[OF base_ok[OF assms(1-5)], of "[1, 2]" T 2] assms by (auto simp: base_queues_def)

lemma base_homed:
  "w \<noteq> ReadyList 0 \<Longrightarrow> w \<noteq> GlobalReady 0 \<Longrightarrow> scheduler (T x) = Some 0 \<Longrightarrow> scheddata (T x) = Some 0 \<Longrightarrow> group (T x) = 0 \<Longrightarrow>
     homed (scene one (base_queues w ws) T c) (map_of (base_queues w ws)) x"
  by (auto simp: homed_def base_queues_def)

text \<open>Task 2 runs and holds a mutex for which task 3 waits; task 1 holds one that task 2 asks for.\<close>

definition mutex_scene :: "nat \<Rightarrow> sys" where
  "mutex_scene h = (scene False (base_queues (MutexWaitq 0) [3]) plain 2)
     \<lparr>mutexes := (\<lambda>_. \<lparr>holder = Some h, reentries = 1\<rparr>)\<rparr>"

lemma mutex_scene_ready:
  "h \<noteq> 3 \<Longrightarrow> mutex_ready (mutex_scene h) (map_of (base_queues (MutexWaitq 0) [3])) 0 0 0 [1, 2] 2 0"
  using base_running[of "MutexWaitq 0" "[3]" plain False 0] base_homed[of "MutexWaitq 0" plain 3 False "[3]" 2]
  by (simp add: mutex_ready_def mutex_scene_def quiet_def abs_mutex_def amutex_inv_def homed_def)
    (simp add: base_queues_def)

text \<open>Task 3 waits for a semaphore, without or with a timeout of 50.\<close>

definition sem_scene :: "int \<Rightarrow> sys" where
  "sem_scene n = (scene False (base_queues (SemWaitq 0) [3]) plain 2)\<lparr>sems := (\<lambda>_. \<lparr>count = n\<rparr>)\<rparr>"

lemma sem_scene_ready:
  "sem_ready (sem_scene n) (map_of (base_queues (SemWaitq 0) [3])) 0 0 0 [1, 2] 2 0"
  using base_running[of "SemWaitq 0" "[3]" plain False 0] base_homed[of "SemWaitq 0" plain 3 False "[3]" 2]
  by (simp add: sem_ready_def sem_scene_def quiet_def waiters_ok_def wakeable_def homed_def flags_def)
    (simp add: base_queues_def)

text \<open>
  Task 2 runs; task 3 waits for condition variable 0; condition variable 1, mutexes 0 and 1 and the
  thread's local chain are empty; task 4 sleeps on the watchdog list.
\<close>

definition wide_queues :: "(chain_id \<times> nat list) list" where
  "wide_queues = [(CondWaitq 0, [3]), (CondWaitq 1, []), (MutexWaitq 0, []), (MutexWaitq 1, []), (LocalChain 0, []),
     (ReadyList 0, [1, 2, 0]), (WadogList 0, []), (GlobalReady 0, [])]"

definition wide_scene :: sys where
  "wide_scene = scene False wide_queues plain 2"

lemma wide_running: "running wide_scene (map_of wide_queues) 0 0 0 [1, 2] 2"
  unfolding wide_scene_def by (rule scene_running) (simp_all add: wide_queues_def)

lemma wide_waiters: "waiters_ok wide_scene (map_of wide_queues) 2 (CondWaitq 0)" "waiters_ok wide_scene (map_of wide_queues) 2 (CondWaitq 1)"
  by (simp_all add: waiters_ok_def wakeable_def homed_def flags_def wide_scene_def wide_queues_def)

lemma wide_enterable: "enterable wide_scene (map_of wide_queues) 0 0 0 [1, 2] 2 0"
  using wide_running by (simp add: enterable_def unowned_def) (simp add: wide_scene_def wide_queues_def)

lemma wide_sel [simp]:
  "map_of wide_queues (CondWaitq 0) = Some [3]" "map_of wide_queues (CondWaitq 1) = Some []"
  "map_of wide_queues (LocalChain 0) = Some []" "map_of wide_queues (MutexWaitq 0) = Some []"
  "map_of wide_queues (ReadyList 0) = Some [1, 2, 0]" "map_of wide_queues (WadogList 0) = Some []"
  "map_of wide_queues (GlobalReady 0) = Some []"
  "quiet wide_scene" "current_task wide_scene 0 = Some 2" "\<not> one_n_model wide_scene" "tcbs wide_scene = plain"
  "map_of wide_queues (MutexWaitq 1) = Some []"
  by (simp_all add: wide_queues_def wide_scene_def)

text \<open>Tasks 3 and 4 sleep, with deadlines 30 and 70; task 5 has an interval of 50 and no timer yet.\<close>

definition time_queues :: "(chain_id \<times> nat list) list" where
  "time_queues = [(WadogList 0, [3, 4]), (ReadyList 0, [1, 2, 0]), (GlobalReady 0, [])]"

definition time_tcb :: "nat \<Rightarrow> FibTCB" where
  "time_tcb t = plain_tcb\<lparr>state := (if t = 3 \<or> t = 4 then STATES_IN_USLEEP OR STATES_WAIT_TIMEOUTB else 0),
     delta_interval := (if t = 3 then 30 else if t = 4 then 40 else if t = 5 then 50 else 0)\<rparr>"

definition time_scene :: sys where
  "time_scene = scene False time_queues time_tcb 0"

lemma time_sel [simp]:
  "quiet time_scene" "tcbs time_scene = time_tcb" "map_of time_queues (WadogList 0) = Some [3, 4]"
  "map_of time_queues (ReadyList 0) = Some [1, 2, 0]" "scheddata (time_tcb t) = Some 0" "scheduler (time_tcb t) = Some 0"
  "delta_interval (time_tcb 3) = 30" "delta_interval (time_tcb 4) = 40" "delta_interval (time_tcb 5) = 50"
  "waitingObject (time_tcb t) = NoObject"
  "state (time_tcb 3) = STATES_IN_USLEEP OR STATES_WAIT_TIMEOUTB" "state (time_tcb 4) = STATES_IN_USLEEP OR STATES_WAIT_TIMEOUTB"
  "state (time_tcb 5) = 0"
  by (simp_all add: time_scene_def time_queues_def time_tcb_def plain_tcb_def)

lemma time_scene_queues: "queues time_scene (map_of time_queues)"
  unfolding time_scene_def by (rule scene_queues) (simp add: time_queues_def)

lemma time_scene_timed: "\<forall>t \<in> set [3, 4]. timed_ok time_scene (map_of time_queues) 0 0 t"
  by (simp add: timed_ok_def flags_def bit_masks off_chains_def) (simp add: time_queues_def)

text \<open>Task 3 waits for semaphore 0 with a timeout of 50.\<close>

definition token_queues :: "(chain_id \<times> nat list) list" where
  "token_queues = [(SemWaitq 0, [3]), (WadogList 0, [3]), (ReadyList 0, [1, 2, 0]), (GlobalReady 0, [])]"

definition token_tcb :: "nat \<Rightarrow> FibTCB" where
  "token_tcb t = plain_tcb\<lparr>state := (if t = 3 then STATES_WAITFOR_SEMPH OR STATES_WAIT_TIMEOUTB else 0),
     delta_interval := (if t = 3 then 50 else 0), waitingObject := (if t = 3 then SemObject 0 else NoObject)\<rparr>"

definition token_scene :: sys where
  "token_scene = (scene False token_queues token_tcb 0)\<lparr>sems := (\<lambda>_. \<lparr>count = - 1\<rparr>)\<rparr>"

lemma token_sel [simp]:
  "quiet token_scene" "tcbs token_scene = token_tcb" "sems token_scene p = \<lparr>count = - 1\<rparr>"
  "scheddata (token_tcb t) = Some 0" "scheduler (token_tcb t) = Some 0" "delta_interval (token_tcb 3) = 50"
  "state (token_tcb 3) = STATES_WAITFOR_SEMPH OR STATES_WAIT_TIMEOUTB" "waitingObject (token_tcb 3) = SemObject 0"
  "map_of token_queues (WadogList 0) = Some [3]" "map_of token_queues (SemWaitq 0) = Some [3]"
  "map_of token_queues (ReadyList 0) = Some [1, 2, 0]"
  by (simp_all add: token_scene_def token_queues_def token_tcb_def plain_tcb_def quiet_def)

lemma token_scene_queues: "queues token_scene (map_of token_queues)"
  using scene_queues[of token_queues False token_tcb 0] by (simp add: token_scene_def queues_def) (simp add: token_queues_def)

lemma token_scene_timed: "timed_ok token_scene (map_of token_queues) 0 0 3"
  by (auto simp: timed_ok_def flags_def bit_masks intro!: exI[of _ "SemWaitq 0"])

text \<open>A running system with all global lists, no free control blocks and an allocator.\<close>

definition life_queues :: "(chain_id \<times> nat list) list" where
  "life_queues = [(ReadyList 0, [1, 2, 0]), (WadogList 0, []), (GlobalReady 0, []), (GlobalReady 1, []),
     (GlobalReady 2, [5]), (GlobalReady 3, [])]"

definition life_scene :: "nat \<Rightarrow> sys" where
  "life_scene c = scene False life_queues plain c"

definition life_platform :: platform where
  "life_platform = \<lparr>malloc_tcb = (\<lambda>_. Some 100), malloc_scp = Some 1, mmap = (\<lambda>_. 4096), mprotect = (\<lambda>_ _. True),
     cpp_taskmain_addr = 1, asm_taskmain_addr = 2\<rparr>"

lemma life_sel [simp]:
  "quiet (life_scene c)" "tcbs (life_scene c) = plain" "map_of life_queues (ReadyList 0) = Some [1, 2, 0]"
  "current_task (life_scene c) th = Some c" "the_maintask (life_scene c) th = Some 0"
  "scps (life_scene c) d = plain_scp" "\<not> one_n_model (life_scene c)" "mServiceThreads (life_scene c) = 1"
  "nGlobalFibTasks (life_scene c) = 4" "malloc_tcb life_platform n = Some 100" "malloc_scp life_platform = Some 1"
  by (simp_all add: life_scene_def life_queues_def life_platform_def) (simp_all add: scene_def)

lemma life_queues_ok: "queues (life_scene c) (map_of life_queues)"
  unfolding life_scene_def by (rule scene_queues) (simp add: life_queues_def)

lemma life_running: "running (life_scene 2) (map_of life_queues) 0 0 0 [1, 2] 2" "running (life_scene 0) (map_of life_queues) 0 0 0 [1, 2] 0"
  unfolding life_scene_def by (rule scene_running; simp add: life_queues_def)+

lemma life_pools: "pools (life_scene c) (map_of life_queues) [0 \<mapsto> []] []"
  by (simp add: pools_def free_blocks_def plain_scp_def) (simp add: life_scene_def)

lemma life_fresh: "fresh (malloc_tcb life_platform) (map_of life_queues) [0 \<mapsto> []] []"
  by (auto simp: fresh_def free_blocks_def off_chains_def) (auto simp: life_queues_def split: if_splits)

text \<open>A platform whose allocator has room for the blocks of one refill, at a given address.\<close>

definition room :: "nat \<Rightarrow> platform" where
  "room base = life_platform\<lparr>malloc_tcb := (\<lambda>n. if n \<le> TCB_INCREASE_SIZE_AT_EMPTY then Some base else None)\<rparr>"

lemma room_arena: "call_arena (room base, x) = {base ..< base + TCB_INCREASE_SIZE_AT_EMPTY}"
proof (rule set_eqI)
  fix u
  have "(\<exists>n i. n \<le> TCB_INCREASE_SIZE_AT_EMPTY \<and> i < n \<and> u = base + i) = (base \<le> u \<and> u < base + TCB_INCREASE_SIZE_AT_EMPTY)"
    by (metis add_less_cancel_left le_add1 le_iff_add less_le_trans order_refl)
  then show "(u \<in> call_arena (room base, x)) = (u \<in> {base ..< base + TCB_INCREASE_SIZE_AT_EMPTY})"
    by (auto simp: call_arena_def arena_def room_def split: if_splits)
qed

lemma life_queued: "on_queues (map_of life_queues) \<subseteq> {0, 1, 2, 5}"
proof -
  have "on_queues (map_of L) \<subseteq> \<Union> (set ` snd ` set L)" for L
    by (auto simp: on_queues_def dest!: map_of_SomeD intro!: bexI)
  from this[of life_queues] show ?thesis by (auto simp: life_queues_def)
qed

lemma room_fresh: "fresh_calls (in_use (map_of life_queues) [0 \<mapsto> []] []) [(room 100, x), (room 200, y)]"
proof -
  have "free_blocks [0 \<mapsto> []] [] = {}" by (auto simp: free_blocks_def split: if_splits)
  then have u: "in_use (map_of life_queues) [0 \<mapsto> []] [] \<subseteq> {0, 1, 2, 5}" using life_queued by (simp add: in_use_def)
  have "{b ..< b + TCB_INCREASE_SIZE_AT_EMPTY} \<inter> {0, 1, 2, 5} = {}" if "5 < b" for b :: nat using that by auto
  with u have "call_arena (room b, z) \<inter> in_use (map_of life_queues) [0 \<mapsto> []] [] = {}" if "5 < b" for b z
    unfolding room_arena using that by blast
  then show ?thesis
    by (simp add: fresh_calls_def) (simp add: room_arena TCB_INCREASE_SIZE_AT_EMPTY_def)
qed

text \<open>A pipe of bytes in its first buffer, with \<open>u\<close> bytes in it and the limit \<open>mx\<close>.\<close>

definition small_pipe :: "nat \<Rightarrow> nat \<Rightarrow> 8 word pipe" where
  "small_pipe mx u = \<lparr>elem_size = 1, min_cap = 32, max_cap = mx, buffer = Some (map of_nat [0 ..< 32]), bufend = 32,
     begin_ptr = 0, end_ptr = (1 + u) mod 32, producer_refcount = 1, consumer_refcount = 1, begin_lock = 0, end_lock = 1,
     just_pushed = 0, just_popped = 1\<rparr>"

lemma small_pipe_sel [simp]:
  "elem_size (small_pipe mx u) = 1" "min_cap (small_pipe mx u) = 32" "max_cap (small_pipe mx u) = mx" "bufend (small_pipe mx u) = 32"
  "begin_lock (small_pipe mx u) = 0" "end_lock (small_pipe mx u) = 1" "just_pushed (small_pipe mx u) = 0" "just_popped (small_pipe mx u) = 1"
  "consumer_refcount (small_pipe mx u) = 1"
  by (simp_all add: small_pipe_def)

lemma small_pipe_ok: "pipe_ring_ok (small_pipe mx u) (map of_nat [0 ..< 32])"
  by (simp add: pipe_ring_ok_def) (simp add: small_pipe_def)

lemma small_pipe_used: "u < 32 \<Longrightarrow> used (small_pipe mx u) = u"
  by (rule used_eqI[OF small_pipe_ok]) (simp_all add: small_pipe_def)

lemma small_pipe_bytes: "u < 32 \<Longrightarrow> pipe_bytes (small_pipe mx u) = ring (map of_nat [0 ..< 32]) 32 1 u"
  unfolding pipe_bytes_def small_pipe_used by (simp add: small_pipe_def)

lemma small_pipe_inv: "32 \<le> mx \<Longrightarrow> check_invariants (small_pipe mx u)"
  using check_invariants_iff[OF small_pipe_ok] by (simp add: DEFAULT_MINCAP_def usz_def)

lemma small_pipe_idle: "pipe_idle wide_scene (map_of wide_queues) 0 2 (small_pipe mx u)"
  using wide_running by (simp add: pipe_idle_def running_def unowned_def) (simp add: wide_scene_def wide_queues_def)

lemma small_pipe_wakes:
  "wakes wide_scene (map_of wide_queues) 0 2 (just_pushed (small_pipe mx u)) [3]"
  "wakes wide_scene (map_of wide_queues) 0 2 (just_popped (small_pipe mx u)) []"
  using wide_waiters by (simp_all add: wakes_def) (simp add: wide_queues_def)

definition zeros :: "nat \<Rightarrow> 8 word list option" where
  "zeros n = Some (replicate n 0)"

lemma zeros_ok: "allocates zeros" "zeros n \<noteq> None"
  by (simp_all add: allocates_def zeros_def)

text \<open>
  Three threads: task 2 runs on the first, with scheduler task 0, and task 5 on the second, with scheduler task 4; task 5
  holds mutex 2.  The third has only its scheduler task 6.
\<close>

definition three_queues :: "(chain_id \<times> nat list) list" where
  "three_queues = [(ReadyList 0, [2, 0]), (ReadyList 1, [5, 4]), (ReadyList 2, [6]), (CondWaitq 0, []), (CondWaitq 1, []),
     (MutexWaitq 0, []), (MutexWaitq 1, []), (MutexWaitq 2, []), (GlobalReady 0, [])]"

definition three_tcbs :: "nat \<Rightarrow> FibTCB" where
  "three_tcbs t = (if t < 4 then plain_tcb else if t < 6 then plain_tcb\<lparr>scheduler := Some 4, scheddata := Some 1\<rparr>
     else plain_tcb\<lparr>scheduler := Some 6, scheddata := Some 2\<rparr>)"

definition three_threads :: sys where
  "three_threads = (scene False three_queues three_tcbs 2)
     \<lparr>current_task := (\<lambda>_. None)(0 := Some 2, 1 := Some 5, 2 := Some 6),
      the_maintask := (\<lambda>_. None)(0 := Some 0, 1 := Some 4, 2 := Some 6),
      scps := (\<lambda>d. plain_scp\<lparr>nLocalFibTasks := if d = 2 then 1 else 2\<rparr>),
      mutexes := (\<lambda>_. \<lparr>holder = None, reentries = 0\<rparr>)(2 := \<lparr>holder = Some 5, reentries = 1\<rparr>),
      nGlobalFibTasks := 5, mServiceThreads := 3\<rparr>"

lemma three_threads_running:
  "running three_threads (map_of three_queues) 0 0 0 [2] 2" "running three_threads (map_of three_queues) 1 1 4 [5] 5"
  "running three_threads (map_of three_queues) 2 2 6 [] 6"
  using scene_queues[of three_queues False three_tcbs 2]
  by (simp_all add: running_def on_thread_def three_threads_def queues_def three_queues_def three_tcbs_def plain_tcb_def)

lemma three_threads_sel [simp]:
  "current_task three_threads 1 = Some 5" "map_of three_queues (CondWaitq 0) = Some []" "\<not> one_n_model three_threads"
  "map_of three_queues (MutexWaitq 2) = Some []" "map_of three_queues (GlobalReady 0) = Some []"
  "scheduler (tcbs three_threads 2) = Some 0" "scheddata (tcbs three_threads 2) = Some 0" "group (tcbs three_threads 2) = 0"
  "scheduler (tcbs three_threads 5) = Some 4" "holder (mutexes three_threads 2) = Some 5" "reentries (mutexes three_threads 2) = 1"
  "scp_group (scps three_threads 2) = 0" "quiet three_threads"
  by (simp_all add: three_threads_def three_queues_def three_tcbs_def plain_tcb_def plain_scp_def quiet_def)

lemma three_threads_few: "uncrowded 2 three_threads = Some True"
  by (simp add: uncrowded_def local_tasks_def cdiv_def three_threads_def plain_scp_def)

lemma three_threads_idle: "pipe_idle three_threads (map_of three_queues) 0 2 (small_pipe mx u)"
  using three_threads_running by (simp add: pipe_idle_def running_def unowned_def) (simp add: three_threads_def three_queues_def)

text \<open>Task 5 has registered descriptor 9 and waits for it; the scheduler task runs.\<close>

definition epoll_scene :: sys where
  "epoll_scene = scene False wide_queues (plain(5 := plain_tcb\<lparr>state := STATES_WAITFOR_EVENT,
     waitingEvents := EVENT_BITMASK_EPOLL, taskLocalStorages := [0x1000, 0, 0, 0]\<rparr>)) 0"

definition epoll_contexts :: contexts where
  "epoll_contexts = [0x1000 \<mapsto> \<lparr>ec_fd = 9, ec_events = 0, ec_tcb = Some 5\<rparr>]"

lemma epoll_scene_ok:
  "quiet epoll_scene" "queues epoll_scene (map_of wide_queues)" "node_free (map_of wide_queues) 5"
  "wakeable epoll_scene (map_of wide_queues) 5" "flags epoll_scene 5 AND STATES_WAITFOR_EVENT \<noteq> 0"
  "registered epoll_scene epoll_contexts 5 0x1000 \<lparr>ec_fd = 9, ec_events = 0, ec_tcb = Some 5\<rparr>"
  unfolding epoll_scene_def
  by (simp, rule scene_queues, simp add: wide_queues_def,
      simp_all add: wakeable_def homed_def off_chains_def registered_def flags_def bit_masks plain_tcb_def epoll_contexts_def MAX_TASK_LOCALDATAS_def)
    (simp add: wide_queues_def)

text \<open>A message queue of two places, with \<open>k\<close> messages; its clients wait on the two condition variables.\<close>

definition demo_fiberq :: "nat \<Rightarrow> nat fiberq" where
  "demo_fiberq k = \<lparr>rbq_head = 0, rbq_tail = (if k = 0 then 0 else 1), rbq_ndat = k, rbq_size = 2, rbq_lock = 0,
     rbq_empt = 0, rbq_full = 1, rbq_data = (if k = 0 then [0, 0] else [5, 6])\<rparr>"

lemma demo_fiberq_ok:
  "enterable wide_scene (map_of wide_queues) 0 0 0 [1, 2] 2 (rbq_lock (demo_fiberq k))"
  "k < 2 \<Longrightarrow> rbq_inv (demo_fiberq k)"
  "map_of wide_queues (CondWaitq (rbq_empt (demo_fiberq k))) = Some [3]"
  "waiters_ok wide_scene (map_of wide_queues) 2 (CondWaitq (rbq_empt (demo_fiberq k)))"
  "map_of wide_queues (CondWaitq (rbq_full (demo_fiberq k))) = Some []"
  "waiters_ok wide_scene (map_of wide_queues) 2 (CondWaitq (rbq_full (demo_fiberq k)))"
  "rbq_contents (demo_fiberq 1) = [6]" "rbq_contents (demo_fiberq 0) = []"
  using wide_enterable wide_waiters wide_sel(1,2)
  by (simp_all add: demo_fiberq_def rbq_inv_def rbq_contents_def less_2_cases_iff) auto

text \<open>The same timers in a build for one thread.\<close>

definition single_scene :: sys where
  "single_scene = scene True time_queues time_tcb 0"

lemma single_sel [simp]:
  "quiet single_scene" "tcbs single_scene = time_tcb" "one_n_model single_scene" "the_maintask single_scene th = Some 0"
  by (simp_all add: single_scene_def)

lemma single_scene_ok:
  "queues single_scene (map_of time_queues)" "\<forall>t \<in> set [3, 4]. timed_ok single_scene (map_of time_queues) 0 0 t"
proof -
  show "queues single_scene (map_of time_queues)"
    unfolding single_scene_def by (rule scene_queues) (simp add: time_queues_def)
  show "\<forall>t \<in> set [3, 4]. timed_ok single_scene (map_of time_queues) 0 0 t"
    by (simp add: timed_ok_def flags_def bit_masks off_chains_def) (simp add: time_queues_def)
qed

text \<open>A machine about to switch from the context at 0x1000 to the one at 0x2000, whose stack is at 0x9000.\<close>

definition demo_machine :: machine where
  "demo_machine = \<lparr>reg = (\<lambda>r. case r of RDI \<Rightarrow> 0x1000 | RSI \<Rightarrow> 0x2000 | RSP \<Rightarrow> 0x8000 | RBX \<Rightarrow> 7 | _ \<Rightarrow> 1),
     cell = (\<lambda>_. 0)(0x2028 := 0x9000, 0x9000 := 0x4444, 0x8000 := 0x5555)\<rparr>"

lemma demo_machine_sel:
  "reg demo_machine RDI = 0x1000" "reg demo_machine RSI = 0x2000" "reg demo_machine RSP = 0x8000" "reg demo_machine RBX = 7"
  "reg_rsp (ctx_at demo_machine 0x2000) = 0x9000" "cell demo_machine 0x9000 = 0x4444" "cell demo_machine 0x8000 = 0x5555"
  by (simp_all add: demo_machine_def ctx_at_def)

text \<open>The program of the generator at the head of its loops.\<close>

definition demo_generator :: generator_prog where
  "demo_generator = \<lparr>lib = life_scene 1, the_gen = 2, the_main = 1, gen_i = 0, main_i = 0, main_at = Main_yield, printed = []\<rparr>"

lemma demo_generator_start: "round_start demo_generator (map_of life_queues) 0 0 0 0"
  using life_queues_ok[of 1] by (simp add: round_start_def demo_generator_def on_thread_def)

section \<open>A thread that hires a task\<close>

text \<open>A thread of the 1:N build with one block on its free list and no cached stacks.\<close>

lemma create_from_pool:
  assumes m: "the_maintask s th = Some m" "scheddata (tcbs s m) = Some d" "t \<noteq> m" and f: "freedlist (scps s d) = Tcb t"
    and o: "one_n_model s" and q: "queues s Q" "Q (ReadyList d) = Some (us @ [m])" "node_free Q t" "\<not> locks s StackCacheLock"
    and c: "NOT (cached_stack_mask (scps s d)) AND 0xFF = 0" "global_cached_stack_mask s = - 1"
    and P: "mmap P z' = Suc b" "mprotect P = (\<lambda>_ _. True)" "z' = ((z + 4095) div 4096) * 4096"
  shows "\<exists>s'. fiber_create P th func arg 0 z s = Some (Some t, s')"
proof -
  obtain mm where mm: "node_insert_before (Tcb m) (Tcb t) (mem s) = Some mm"
    using insert_before_spec[OF q(1), of "ReadyList d" us m "[]" t] q m by (auto simp: localReadyQProtectedInsertBefore_def on_mem_def)
  define s1 where "s1 = upd_tcb t (\<lambda>b. b\<lparr>state := STATES_READY\<rparr>)
    (upd_scp d (\<lambda>x. x\<lparr>freedlist := mem s (Next Fld_node t), freedsize := freedsize x - 1\<rparr>) s)"
  have a: "tcb_alloc (malloc_tcb P) th s = Some (Some t, upd_scp d (\<lambda>x. x\<lparr>freedlist := mem s (Next Fld_node t), freedsize := freedsize x - 1\<rparr>) s)"
    using m f by (simp add: tcb_alloc_def)
  have g: "fiber_stackcache_get (mmap P) (mprotect P) th (((z + 4095) div 4096) * 4096) s1 = Some ((Suc b, z'), s1)"
    using m c P q(4) by (simp add: fiber_stackcache_get_def s1_def sys_defs search_done spin_lock2_def spin_unlock2_def
        stack_from_system_def Let_def fun_upd_idem)
  show ?thesis using a g m mm o unfolding fiber_create_def
    by (simp add: Let_def s1_def sys_defs enter_ready_def inc_local_tasks_def on_mem_def)
qed

definition hire_scene :: sys where
  "hire_scene = (scene True [(ReadyList 0, [0])] plain 0)\<lparr>global_cached_stack_mask := - 1,
     scps := (\<lambda>_. plain_scp\<lparr>freedlist := Tcb 2, freedsize := 1\<rparr>)\<rparr>"

lemma hire_create:
  assumes "s = snd (fiber_cond_init 1 (snd (fiber_cond_init 0 hire_scene)))"
  shows "\<exists>s'. fiber_create life_platform 0 f a 0 8192 s = Some (Some 2, s')"
proof (rule create_from_pool)
  let ?Q = "(map_of [(ReadyList 0, [0])])(CondWaitq 0 \<mapsto> [], CondWaitq 1 \<mapsto> [])"
  have "queues (scene True [(ReadyList 0, [0])] plain 0) (map_of [(ReadyList 0, [0])])" by (rule scene_queues) simp
  then show "queues s ?Q"
    by (auto simp: assms fiber_cond_init_def Let_def queues_def hire_scene_def intro!: init_empty_chain)
  show "?Q (ReadyList 0) = Some ([] @ [0])" "node_free ?Q 2" by (auto simp: off_chains_def split: if_splits)
qed (auto simp: assms fiber_cond_init_def Let_def hire_scene_def plain_scp_def life_platform_def)

end
