(* ===== verification/Spec2Isabelle.thy ===== *)
theory Spec2Isabelle
  imports Rwlock Rwlock_Demo Fiberq Blockq Win_Cond Scenario
begin

text \<open>
  A verification library for the fiber runtime \<^verbatim>\<open>ptask\<close>: user-level tasks (fibers) that are
  multiplexed on service threads, with mutexes, semaphores, condition variables, events, timeouts and
  kernel events, and four libraries on top of them: a ring message queue, a blocking linked queue, a
  readers-writer lock and a byte pipe.

  \<^bold>\<open>The program and the model.\<close>  The runtime is \<^verbatim>\<open>src/src/task.c\<close> with its headers.  Every
  task has a control block; control blocks are linked into intrusive doubly linked chains: the ready
  list of a thread (its scheduler task is last), the global ready lists, the wait queue of every
  object, and, through a second pair of links, the watchdog list of a thread.  The model is one record
  \<open>sys\<close> with the link memory, the control blocks, the scheduler blocks, the objects, the global
  variables and the thread-local variables (indexed by the thread).  An operation is a function from
  \<open>sys\<close> to an option: \<open>None\<close> is a null dereference, a failed assertion, or a spin on a lock that the
  caller itself holds.  A call that gives up the processor returns \<open>Switched\<close> in the state in which
  the next task runs; the field \<open>resume_at\<close> of the control block says where the task goes on, and the
  remaining part of the call is a definition of its own (\<open>cond_resume\<close>, \<open>sem_timedwait_result\<close>,
  \<open>epoll_wait_result\<close>, the functions \<open>_again\<close> of the libraries).  The flag \<open>one_n_model\<close> is the
  macro \<^verbatim>\<open>__1_N_MODEL__\<close>, under which spin locks and fiber mutexes are empty; the theorems cover
  both builds unless they say otherwise.  The flag \<open>nd\<close> of the pipe is \<^verbatim>\<open>NDEBUG\<close>.

  \<^bold>\<open>The theories\<close>, in the order of the program.
  \<^item> \<open>Prelude\<close>: computations that may fault, shared facts on lists, 32-bit assignment and rings.
  \<^item> \<open>Chain\<close> (\<^verbatim>\<open>include/chain.h\<close>): both families of chain macros on a link memory.  \<open>chains k m Q\<close>
    says that the memory holds exactly the queues \<open>Q\<close>; the locale of queues states what each macro does
    to \<open>Q\<close> and is interpreted on the macros.
  \<^item> \<open>Task_State\<close> (\<^verbatim>\<open>include/task.h\<close>): the structures, flags, global variables, spin locks as one
    operation sees them, task local data, and \<open>frame\<close>, what no operation of the objects changes.
  \<^item> \<open>Sched\<close>: \<open>fiber_sched\<close>, \<open>fiber_yield\<close>, \<open>fiber_resume\<close>, \<open>fiber_sched_yield\<close> and the global
    ready lists; round robin and the place of the scheduler task.
  \<^item> \<open>Watchdog\<close>: the delta list of timeouts, its insertion, removal and expiry scan, \<open>fiber_usleep\<close>;
    a list of relative intervals is read as deadlines.
  \<^item> \<open>Wakeup\<close>: the code that all objects share to make a task ready or to arm a timeout.
  \<^item> \<open>Mutex\<close>, \<open>Semaphore\<close>, \<open>Condition\<close>, \<open>Event\<close>: the operations of the objects.  Mutexes and semaphores refine
    abstract objects (owner, depth and waiters; count and waiters).
  \<^item> \<open>Tcb_Pool\<close>, \<open>Stack_Cache\<close>, \<open>Lifecycle\<close>: control blocks and their free lists, cached stacks,
    creation and end of a task, any number of creations, and the scheduler task of a thread.  \<open>Switch_Race\<close> cuts a
    blocking lock before its switch, for steps of other threads in between.
  \<^item> \<open>Monitor\<close>: the shape lock, wait in a loop, change, notify, unlock, for both builds; \<open>Fifo\<close>: bounded
    queues as a locale; \<open>Channel\<close>: runs of producers and consumers on a queue behind a monitor, with
    the contract of the calls as a locale.  On them \<open>Fiberq\<close> (\<^verbatim>\<open>include/fiberq.h\<close>), \<open>Blockq\<close> (\<^verbatim>\<open>blockq.c\<close>)
    and \<open>Rwlock\<close> (\<^verbatim>\<open>rwlock.c\<close>).
  \<^item> \<open>Pow2\<close>, \<open>Pipe\<close>, \<open>Pipe_Sync\<close> (\<^verbatim>\<open>pipe.c\<close>): rounding to a power of two, the byte ring with its
    sentinel element, and the calls under the two locks of a pipe.  \<open>Pipe_Race\<close> cuts a pop between its look at the pipe
    and its wait, for a push on another thread; \<open>Win_Cond\<close> is the condition variable of the build for
    Windows before Vista, with any number of threads as a step relation.
  \<^item> \<open>Epoll\<close> (\<^verbatim>\<open>src/epoll.c\<close>, \<^verbatim>\<open>include/epoll.h\<close>): registration, waiting and posting of kernel
    events; \<open>Server\<close> (\<^verbatim>\<open>simplehttp.c\<close>): the web server on them, with the sockets as a record of
    system calls.
  \<^item> \<open>Spinlock\<close> (\<^verbatim>\<open>include/spinlock.h\<close>, the atomic operations of \<^verbatim>\<open>include/sysdef.h\<close>): the two spin
    locks as a step relation over threads, with the contract of an attempt as a locale.
  \<^item> \<open>Context\<close> (\<^verbatim>\<open>src/context.S\<close>): the instructions of the context switch on a machine with registers and
    memory; \<open>Clock\<close> (\<^verbatim>\<open>include/timestamp.h\<close>): the clock, the turn and the whole pass of the scheduler, sleeping.
  \<^item> \<open>Generator\<close> (\<^verbatim>\<open>generator.c\<close>), \<open>Reader_Writer\<close> (\<^verbatim>\<open>reader_writer.c\<close>), \<open>Pipe_Ring\<close>
    (\<^verbatim>\<open>pipe_ring.c\<close>): whole programs.  The first runs on the library itself; the other two on the contracts of the
    objects (the abstract semaphore and mutex, a pipe as a list with its users), one statement per step, in every
    interleaving.
  \<^item> \<open>Producers\<close> (\<^verbatim>\<open>fiberbq.c\<close>, the first half of \<^verbatim>\<open>blockq.c\<close>) and \<open>Rwlock_Demo\<close> (the second half of \<^verbatim>\<open>rwlock.c\<close>):
    producers and consumers with their counters, readers and a writer over a small database, on the calls of
    the library, with the order in which the tasks take turns left open.
  \<^item> \<open>Scenario\<close>: concrete systems, built by running the chain macros, that show that the hypotheses
    can be met.

  \<^bold>\<open>The theorems.\<close>  The sections below follow the theories.  They show the result of each call on
  every branch, its effect on the queues, and that it does not fault; refinement of abstract objects
  (mutex, semaphore, bounded queues), invariants (deadlines, the pools, exclusive creation, readers and writers), exclusion and freedom
  from deadlock over all interleavings, order (round robin, oldest waiter first), round trips (a switch away and back),
  and programs that end.  Some show what the code does where it should
  do something else: timers that fire early, a token lost by a timeout, a full pipe that forgets its contents, a task that runs on two threads, a push that a
  consumer misses, notifications that the Windows condition variable forgets, a clock that runs backwards after a
  long pause.  Lemmas of the component theories show more of these: \<open>stack_stored_twice\<close> (a cached stack is handed out
  twice), \<open>pipe_reserve_never_allocates\<close>, \<open>first_switch_target\<close> (a task starts by a jump to what lies
  behind its stack), \<open>handlers_share_descriptor\<close> and \<open>reply_length_declared\<close> (the web server).

  \<^bold>\<open>Parameters and bounds.\<close>  \<open>malloc\<close>, \<open>mmap\<close>, \<open>mprotect\<close> and the system calls are
  arguments, with hypotheses that state what they document (a fresh block of the right size).  Sizes of the
  pipe are naturals cut to 64 bits after every operation; masks, counters and flags are words of
  their width; a signed product or index out of range is a fault.  There is no fuel: the loops that end are total
  functions, the others are partial functions whose theorems say that they return.

  \<^bold>\<open>Not modelled.\<close>  An operation of the library runs as one step between two switches, so interleavings of several
  threads inside an operation are covered only for the spin locks, for a blocking lock with its hand-over, for a pop and a push of a
  pipe, and for the Windows condition variable.  The contents of stacks beyond the words
  that the switch touches, the attributes, byte order, sleeping and thread macros of \<^verbatim>\<open>sysdef.h\<close> and the
  declarations of \<^verbatim>\<open>pipe.h\<close> have no model: they are macros of the compiler, calls of the platform, or
  types without code.  The builds of \<^verbatim>\<open>pipe.c\<close> that map its locks to the objects of Windows Vista or of pthreads are names
  for library calls; its test suite is not in the repository.  The \<open>main\<close> functions of the demo programs, which start a
  thread and print, and the scripts for image data sets under \<^verbatim>\<open>bin\<close> are left out.
\<close>

section \<open>Mutexes\<close>

text \<open>
  C1.  Locking a mutex implements the abstract mutex, for every state of it: a free mutex is taken,
  the owner's depth grows, any other caller is queued behind the earlier waiters and gives up the
  processor.  The call never faults and keeps the mutex well formed.
\<close>

theorem mutex_lock_correct:
  assumes "mutex_ready s Q th d m us c p" and "reentries (mutexes s p) \<noteq> - 1"
  shows "\<exists>r s' Q'. mutex_lock th p s = Some (r, s') \<and> queues s' Q' \<and> frame s s' \<and>
     abs_mutex p s' Q' = amutex_lock c (abs_mutex p s Q) \<and> amutex_inv (abs_mutex p s' Q') \<and>
     (r = Switched) = (owner (abs_mutex p s' Q') \<noteq> Some c)"
proof -
  have "running s Q th d m us c" "Q (MutexWaitq p) \<noteq> None" "amutex_inv (abs_mutex p s Q)"
    using assms(1) by (auto simp: mutex_ready_def)
  moreover from this have "c \<notin> set (waiters (abs_mutex p s Q))"
    using running_not_waiting[of s Q th d m us c "MutexWaitq p"] by (auto simp: abs_mutex_def)
  ultimately have "amutex_inv (amutex_lock c (abs_mutex p s Q))" using amutex_inv_lock by blast
  then show ?thesis using mutex_lock_refines[OF assms] by metis
qed

theorem mutex_lock_correct_witness:
  "\<exists>r s' Q'. mutex_lock 0 0 (mutex_scene 1) = Some (r, s') \<and> queues s' Q' \<and> frame (mutex_scene 1) s' \<and>
     abs_mutex 0 s' Q' = \<lparr>owner = Some 1, depth = 1, waiters = [3, 2]\<rparr> \<and> r = Switched"
proof -
  have a: "abs_mutex 0 (mutex_scene 1) (map_of (base_queues (MutexWaitq 0) [3])) = \<lparr>owner = Some 1, depth = 1, waiters = [3]\<rparr>"
    by (simp add: abs_mutex_def mutex_scene_def base_queues_def)
  have b: "reentries (mutexes (mutex_scene 1) 0) \<noteq> - 1" by (simp add: mutex_scene_def)
  have c: "mutex_ready (mutex_scene 1) (map_of (base_queues (MutexWaitq 0) [3])) 0 0 0 [1, 2] 2 0"
    by (rule mutex_scene_ready) simp
  show ?thesis using mutex_lock_correct[OF c b] unfolding a by (auto simp: amutex_lock_def)
qed

text \<open>
  C2.  Unlocking implements the abstract mutex: a caller that does not own it changes nothing and
  gets false, a nested lock is released one level, and the last release frees the mutex or hands it
  directly to the task that has waited longest.
\<close>

theorem mutex_unlock_correct:
  assumes "mutex_ready s Q th d m us c p"
  shows "\<exists>s' Q'. mutex_unlock th p s = Some (owner (abs_mutex p s Q) = Some c, s') \<and> queues s' Q' \<and> frame s s' \<and>
     abs_mutex p s' Q' = amutex_unlock c (abs_mutex p s Q) \<and> amutex_inv (abs_mutex p s' Q')"
proof -
  have "amutex_inv (amutex_unlock c (abs_mutex p s Q))"
    using assms amutex_inv_unlock by (auto simp: mutex_ready_def)
  then show ?thesis using mutex_unlock_refines[OF assms] by metis
qed

theorem mutex_unlock_correct_witness:
  "\<exists>s' Q'. mutex_unlock 0 0 (mutex_scene 2) = Some (True, s') \<and> queues s' Q' \<and>
     abs_mutex 0 s' Q' = \<lparr>owner = Some 3, depth = 1, waiters = []\<rparr>"
proof -
  have a: "abs_mutex 0 (mutex_scene 2) (map_of (base_queues (MutexWaitq 0) [3])) = \<lparr>owner = Some 2, depth = 1, waiters = [3]\<rparr>"
    by (simp add: abs_mutex_def mutex_scene_def base_queues_def)
  have c: "mutex_ready (mutex_scene 2) (map_of (base_queues (MutexWaitq 0) [3])) 0 0 0 [1, 2] 2 0"
    by (rule mutex_scene_ready) simp
  show ?thesis using mutex_unlock_correct[OF c] unfolding a by (auto simp: amutex_unlock_def)
qed

text \<open>
  C3.  A task can run on two threads at once.  A task that blocks on a mutex is on its wait queue, with the queue unlocked,
  before \<open>fiber_sched\<close> saves its context. If at this moment the owner releases the mutex on another thread and a
  third thread has too few tasks, the blocked task becomes the owner, goes to the global ready list and is run by
  the third thread from the context it had saved earlier, while its own thread is still inside of the lock call.
\<close>

theorem task_runs_on_two_threads:
  assumes "running s Q th0 d0 m0 us t" "t \<noteq> m0" "quiet s" "\<not> one_n_model s"
    and "scheduler (tcbs s t) = Some m0" "scheddata (tcbs s t) = Some d0" "Q (GlobalReady (group (tcbs s t))) = Some []"
    and "current_task s th1 = Some h" "holder (mutexes s p) = Some h" "reentries (mutexes s p) = 1" "h \<noteq> t"
      "scheduler (tcbs s h) \<noteq> Some m0" "Q (MutexWaitq p) = Some []"
    and "running s Q th2 d2 m2 [] m2" "d2 \<noteq> d0" "th2 \<noteq> th0" "scp_group (scps s d2) = group (tcbs s t)" "uncrowded d2 s = Some True"
  shows "mutex_lock th0 p s = do {
       s1 \<leftarrow> mutex_lock_enqueue th0 p s;
       (sw, s1) \<leftarrow> fiber_sched th0 K_mutex_lock s1;
       Some (if sw then Switched else Returns True, s1)
     } \<and>
     (\<exists>s1 s2 s3 s4. mutex_lock_enqueue th0 p s = Some s1 \<and> mutex_unlock th1 p s1 = Some (True, s2) \<and>
       scheduler_balance m2 s2 = Some s3 \<and> scheduler_drain msgloop th2 s3 = Some (Switched, s4) \<and>
       current_task s4 th0 = Some t \<and> current_task s4 th2 = Some t \<and> resume_at (tcbs s4 t) = resume_at (tcbs s t) \<and>
       holder (mutexes s4 p) = Some t)"
  using mutex_lock_parts[OF runningD(3)[OF assms(1)] assms(9,11,3)] task_on_two_threads[OF assms] by blast

theorem task_runs_on_two_threads_witness:
  "\<exists>s1 s2 s3 s4. mutex_lock_enqueue 0 2 three_threads = Some s1 \<and> mutex_unlock 1 2 s1 = Some (True, s2) \<and>
     scheduler_balance 6 s2 = Some s3 \<and> scheduler_drain (\<lambda>_. Some) 2 s3 = Some (Switched, s4) \<and>
     current_task s4 0 = Some 2 \<and> current_task s4 2 = Some 2"
proof -
  have h: "(2 :: nat) \<noteq> 0" "map_of three_queues (GlobalReady (group (tcbs three_threads 2))) = Some []" "(5 :: nat) \<noteq> 2"
    "scheduler (tcbs three_threads 5) \<noteq> Some 0" "scp_group (scps three_threads 2) = group (tcbs three_threads 2)" by simp_all
  from task_runs_on_two_threads[OF three_threads_running(1) h(1) three_threads_sel(13,3,6,7) h(2) three_threads_sel(1,10,11) h(3,4)
      three_threads_sel(4) three_threads_running(3) h(1,1) h(5) three_threads_few, of "\<lambda>_. Some"]
  show ?thesis by blast
qed

section \<open>Semaphores\<close>

text \<open>
  C4.  Waiting on a semaphore implements the abstract semaphore: the count goes down by one, and the
  caller is queued, last, exactly when there was no token left.
\<close>

theorem sem_wait_correct:
  assumes "sem_ready s Q th d m us c p" "c \<noteq> m" "asem_inv (abs_sem p s Q)"
  shows "\<exists>r s' Q'. fiber_sem_wait th p s = Some (r, s') \<and> queues s' Q' \<and> frame s s' \<and>
     abs_sem p s' Q' = asem_wait c (abs_sem p s Q) \<and> asem_inv (abs_sem p s' Q') \<and>
     (r = Switched) = (credit (abs_sem p s Q) \<le> 0)"
proof -
  have "running s Q th d m us c" "Q (SemWaitq p) \<noteq> None"
    using assms(1) by (auto simp: sem_ready_def waiters_ok_def)
  then have "c \<notin> set (pending (abs_sem p s Q))"
    using running_not_waiting[of s Q th d m us c "SemWaitq p"] by (auto simp: abs_sem_def)
  then show ?thesis using sem_wait_refines[OF assms(1,2)] asem_inv_wait[OF assms(3)] by metis
qed

theorem sem_wait_correct_witness:
  "\<exists>r s' Q'. fiber_sem_wait 0 0 (sem_scene (- 1)) = Some (r, s') \<and> queues s' Q' \<and>
     abs_sem 0 s' Q' = \<lparr>credit = - 2, pending = [3, 2]\<rparr> \<and> r = Switched"
proof -
  have a: "abs_sem 0 (sem_scene (- 1)) (map_of (base_queues (SemWaitq 0) [3])) = \<lparr>credit = - 1, pending = [3]\<rparr>"
    by (simp add: abs_sem_def sem_scene_def base_queues_def)
  have b: "asem_inv (abs_sem 0 (sem_scene (- 1)) (map_of (base_queues (SemWaitq 0) [3])))"
    unfolding a by (simp add: asem_inv_def)
  have ne: "(2 :: nat) \<noteq> 0" by simp
  show ?thesis using sem_wait_correct[OF sem_scene_ready ne b] unfolding a by (auto simp: asem_wait_def)
qed

text \<open>
  C5.  Posting a semaphore implements the abstract semaphore: the count goes up by one, and when
  tasks wait the first of them is made ready (on a ready list or on the global list of its group)
  with the return code that tells a timed wait it got the token.
\<close>

theorem sem_post_correct:
  assumes "sem_ready s Q th d m us c p" "asem_inv (abs_sem p s Q)"
  shows "\<exists>s' Q'. fiber_sem_post th p s = Some (True, s') \<and> queues s' Q' \<and> frame s s' \<and>
     abs_sem p s' Q' = asem_post (abs_sem p s Q) \<and> asem_inv (abs_sem p s' Q') \<and>
     (\<forall>x xs. pending (abs_sem p s Q) = x # xs \<longrightarrow> sem_timedwait_result x s' \<and>
        (\<exists>w L. Q' w = Some L \<and> x \<in> set L \<and> (w = GlobalReady (group (tcbs s x)) \<or> (\<exists>e. w = ReadyList e))))"
  using sem_post_refines[OF assms(1)] asem_inv_post[OF assms(2)] by metis

theorem sem_post_correct_witness:
  "\<exists>s' Q'. fiber_sem_post 0 0 (sem_scene (- 1)) = Some (True, s') \<and> queues s' Q' \<and>
     abs_sem 0 s' Q' = \<lparr>credit = 0, pending = []\<rparr> \<and> sem_timedwait_result 3 s'"
proof -
  have a: "abs_sem 0 (sem_scene (- 1)) (map_of (base_queues (SemWaitq 0) [3])) = \<lparr>credit = - 1, pending = [3]\<rparr>"
    by (simp add: abs_sem_def sem_scene_def base_queues_def)
  have b: "asem_inv (abs_sem 0 (sem_scene (- 1)) (map_of (base_queues (SemWaitq 0) [3])))"
    unfolding a by (simp add: asem_inv_def)
  show ?thesis using sem_post_correct[OF sem_scene_ready b] unfolding a by (auto simp: asem_post_def)
qed

section \<open>Condition variables\<close>

text \<open>
  C6.  No wake-up is lost between releasing the mutex and waiting: when another task runs, the
  caller is already the last on the wait queue, the mutex has made exactly its abstract unlock step
  and the caller will take it again before the wait returns.
\<close>

theorem cond_wait_loses_no_signal:
  assumes "running s Q th d m us c" "c \<noteq> m" "quiet s" "\<not> one_n_model s"
    and "Q (CondWaitq p) = Some ws" "Q (MutexWaitq q) = Some ms"
    and "amutex_inv (abs_mutex q s Q)" "\<forall>x \<in> set ms. homed s Q x"
  shows "\<exists>s' Q' n. fiber_cond_wait th p q s = Some (Switched, s') \<and> queues s' Q' \<and> frame s s' \<and>
     Q' (CondWaitq p) = Some (ws @ [c]) \<and> abs_mutex q s' Q' = amutex_unlock c (abs_mutex q s Q) \<and>
     current_task s' = (current_task s)(th := Some n) \<and> n \<noteq> c \<and> resume_at (tcbs s' c) = K_cond_wait q"
proof -
  obtain s' Q' n where "fiber_cond_wait th p q s = Some (Switched, s')" "queues s' Q'" "frame s s'"
    "Q' (CondWaitq p) = Some (ws @ [c])" "abs_mutex q s' Q' = amutex_unlock c (abs_mutex q s Q)"
    "current_task s' = (current_task s)(th := Some n)" "n \<noteq> c" "resume_at (tcbs s' c) = K_cond_wait q"
    using cond_wait_spec[OF assms] by auto
  then show ?thesis by blast
qed

theorem cond_wait_loses_no_signal_witness:
  "\<exists>s' Q' n. fiber_cond_wait 0 0 0 wide_scene = Some (Switched, s') \<and> queues s' Q' \<and>
     Q' (CondWaitq 0) = Some [3, 2] \<and> n \<noteq> 2 \<and> current_task s' 0 = Some n"
proof -
  let ?Q = "map_of wide_queues"
  have i: "amutex_inv (abs_mutex 0 wide_scene ?Q)" by (simp add: amutex_inv_def abs_mutex_def wide_scene_def)
  have h: "(2 :: nat) \<noteq> 0" "\<forall>x \<in> set ([] :: nat list). homed wide_scene ?Q x" by simp_all
  from cond_wait_loses_no_signal[OF wide_running h(1) wide_sel(8,10) wide_sel(1,4) i h(2)]
  show ?thesis by (fastforce simp: fun_upd_same)
qed

text \<open>
  C7.  A signal wakes exactly the task that has waited longest: it leaves the wait queue and the
  timer list, gets the return code of a wake-up, and is put in front of its scheduler task when
  that is the caller's thread, at the end of the global list of its group otherwise.  Without a
  waiter nothing changes.
\<close>

theorem cond_signal_wakes_oldest:
  assumes "current_task s th = Some c" "quiet s" "queues s Q" "Q (CondWaitq p) = Some ws"
    and "waiters_ok s Q c (CondWaitq p)"
  shows "\<exists>s' Q'. fiber_cond_signal th p s = Some (True, s') \<and> queues s' Q' \<and> frame s s' \<and>
     Q' (CondWaitq p) = Some (tl ws) \<and>
     (case ws of [] \<Rightarrow> Q' = Q \<and> tcbs s' = tcbs s
      | x # xs \<Rightarrow> cond_result True x s' \<and>
          Q' = activated (one_n_model s \<or> scheduler (tcbs s x) = scheduler (tcbs s c)) (tcbs s x) x
                 (untimed (tcbs s x) x (Q(CondWaitq p \<mapsto> xs))))"
proof (cases ws)
  case Nil
  then obtain s' where "fiber_cond_signal th p s = Some (True, s')" "queues s' Q" "tcbs s' = tcbs s" "frame s s'"
    using cond_signal_idle[OF assms(2,3), of p th] assms(4) by auto
  then show ?thesis using Nil assms(4) by (intro exI[of _ s'] exI[of _ Q]) auto
next
  case (Cons x xs)
  let ?near = "one_n_model s \<or> scheduler (tcbs s x) = scheduler (tcbs s c)"
  let ?Q = "activated ?near (tcbs s x) x (untimed (tcbs s x) x (Q(CondWaitq p \<mapsto> xs)))"
  have w: "Q (CondWaitq p) = Some (x # xs)" "wakeable s Q x" "one_n_model s \<Longrightarrow> scheduler (tcbs s x) = scheduler (tcbs s c)"
    using assms(4,5) Cons by (auto simp: waiters_ok_def)
  obtain s' T where s': "fiber_cond_signal th p s = Some (True, s')" "queues s' ?Q" "frame s s'"
    "rehomed (T(x := woken_tcb STATES_WAITFOR_CONDV (tcbs s x))) (tcbs s') ?near x"
    using cond_signal_wakes[OF assms(1-3) w refl] by blast
  have "cond_result True x s'" using s'(4) by (auto simp: rehomed_def woken_tcb_def cond_result_def)
  then show ?thesis using s'(1-3) Cons by (intro exI[of _ s'] exI[of _ ?Q]) simp
qed

theorem cond_signal_wakes_oldest_witness:
  "\<exists>s' Q'. fiber_cond_signal 0 0 wide_scene = Some (True, s') \<and> queues s' Q' \<and> Q' (CondWaitq 0) = Some [] \<and>
     Q' (ReadyList 0) = Some [1, 2, 3, 0] \<and> cond_result True 3 s'"
proof -
  have q: "queues wide_scene (map_of wide_queues)" using wide_running by (simp add: running_def)
  from cond_signal_wakes_oldest[OF wide_sel(9,8) q wide_sel(1) wide_waiters(1)]
  show ?thesis by (fastforce simp: activated_def untimed_def Let_def)
qed

text \<open>
  C8.  A broadcast wakes every waiter, in the order in which they began to wait, and none twice:
  the wait queue is empty afterwards and every waiter has been made ready with the return code of a
  wake-up.
\<close>

theorem cond_broadcast_wakes_all:
  assumes "running s Q th d m us c" "quiet s" "Q (LocalChain th) = Some []" "Q (CondWaitq p) = Some ws"
    and "waiters_ok s Q c (CondWaitq p)"
  shows "\<exists>s' Q'. fiber_cond_broadcast th p s = Some (True, s') \<and> queues s' Q' \<and> frame s s' \<and>
     Q' = fold (wake_one (\<lambda>x. one_n_model s \<or> scheduler (tcbs s x) = scheduler (tcbs s c)) (tcbs s)) ws (Q(CondWaitq p \<mapsto> [])) \<and>
     Q' (CondWaitq p) = Some [] \<and> (\<forall>x \<in> set ws. cond_result True x s' \<and> state (tcbs s' x) AND STATES_WAITFOR_CONDV = 0)"
proof -
  let ?near = "\<lambda>x. one_n_model s \<or> scheduler (tcbs s x) = scheduler (tcbs s c)"
  let ?Q = "fold (wake_one ?near (tcbs s)) ws (Q(CondWaitq p \<mapsto> []))"
  note r = runningD[OF assms(1)]
  have cw: "c \<notin> set ws" using running_not_waiting[OF assms(1), of "CondWaitq p" ws] assms(4) by simp
  obtain s' where s': "fiber_cond_broadcast th p s = Some (True, s')" "queues s' ?Q" "frame s s'"
    "\<forall>x \<in> set ws. yieldCode (tcbs s' x) = 1 \<and>
        state (tcbs s' x) = state (tcbs s x) AND NOT (STATES_WAITFOR_CONDV OR STATES_WAIT_TIMEOUTB)"
    using broadcast_spec[OF r(3) assms(2) r(1) assms(3,4,5) cw refl] by blast
  have cl: "(x AND NOT (STATES_WAITFOR_CONDV OR STATES_WAIT_TIMEOUTB)) AND STATES_WAITFOR_CONDV = 0" for x
    by (rule bit_eqI) (auto simp: bit_simps)
  have "?Q (CondWaitq p) = Some []" by (simp add: wake_all_other)
  with s' cl show ?thesis by (intro exI[of _ s'] exI[of _ ?Q]) (simp add: cond_result_def)
qed

theorem cond_broadcast_wakes_all_witness:
  "\<exists>s' Q'. fiber_cond_broadcast 0 0 wide_scene = Some (True, s') \<and> queues s' Q' \<and> Q' (CondWaitq 0) = Some [] \<and>
     Q' (ReadyList 0) = Some [1, 2, 3, 0] \<and> cond_result True 3 s'"
  using cond_broadcast_wakes_all[OF wide_running wide_sel(8,3,1) wide_waiters(1)]
  by (fastforce simp: wake_one_def activated_def untimed_def Let_def)

section \<open>Events\<close>





section \<open>Dispatching\<close>

text \<open>
  C11.  Round robin: when the running task and its successors keep yielding, the ready tasks run in
  the order of the ready list, over and over, so each of them runs once in every round.  The
  scheduler task, which polls the clock and the global ready lists, is never among them: no timer
  advances while a task of the thread is ready.
\<close>

theorem yield_is_round_robin:
  assumes "running s Q th d m us c" "us \<noteq> []"
  shows "\<exists>s'. yields k th s = Some (map (\<lambda>i. us ! (i mod length us)) [0..<k], s') \<and>
     m \<notin> set (map (\<lambda>i. us ! (i mod length us)) [0..<k]) \<and>
     running s' (Q(ReadyList d \<mapsto> rotate k us @ [m])) th d m (rotate k us) (if k = 0 then c else us ! ((k - 1) mod length us))"
proof -
  have "m \<notin> set us" using running_distinct[OF assms(1)] by simp
  moreover have "us ! (i mod length us) \<in> set us" for i using assms(2) by simp
  ultimately show ?thesis using yields_round_robin[OF assms, of k] by auto
qed

theorem yield_is_round_robin_witness:
  "\<exists>s'. yields 5 0 wide_scene = Some ([1, 2, 1, 2, 1], s')"
proof -
  have "map (\<lambda>i. [1, 2 :: nat] ! (i mod length [1, 2 :: nat])) [0..<5] = [1, 2, 1, 2, 1]" by code_simp
  with yield_is_round_robin[OF wide_running, of 5] show ?thesis by auto
qed

section \<open>Spin locks\<close>

text \<open>
  C12.  Both spin locks keep threads out of each other's way: in every interleaving of the steps of any
  number of threads at most one is between \<open>spin_lock\<close> and \<open>spin_unlock\<close>, the lock word is set exactly
  while one is, and an attempt succeeds exactly when nobody is.
\<close>

theorem spin_locks_exclude:
  assumes "spin_reachable spin_try_byte 0 z" "spin_reachable spin_try_cas 0 w"
  shows "(place_of z t = Inside \<longrightarrow> place_of z u = Inside \<longrightarrow> t = u) \<and> ((\<exists>t. place_of z t = Inside) \<longleftrightarrow> lock_word z \<noteq> 0) \<and>
     (fst (spin_try_byte (lock_word z)) \<longleftrightarrow> (\<forall>t. place_of z t \<noteq> Inside)) \<and>
     (place_of w t = Inside \<longrightarrow> place_of w u = Inside \<longrightarrow> t = u) \<and> ((\<exists>t. place_of w t = Inside) \<longleftrightarrow> lock_word w \<noteq> 0) \<and>
     (fst (spin_try_cas (lock_word w)) \<longleftrightarrow> (\<forall>t. place_of w t \<noteq> Inside))"
  using byte_lock.reachable_exclusive[OF assms(1)] cas_lock.reachable_exclusive[OF assms(2)]
    byte_lock.attempt_succeeds_iff_free[OF assms(1)] cas_lock.attempt_succeeds_iff_free[OF assms(2)]
  unfolding byte_lock.exclusive_def cas_lock.exclusive_def by blast

theorem spin_locks_exclude_witness:
  "\<exists>z w. spin_reachable spin_try_byte 0 z \<and> spin_reachable spin_try_cas 0 w \<and>
     place_of z 1 = Inside \<and> place_of z 2 = Spinning \<and> \<not> fst (spin_try_byte (lock_word z)) \<and> lock_word w = 0"
proof -
  let ?z0 = "\<lparr>lock_word = 0 :: 8 word, place_of = (\<lambda>_. Outside)\<rparr>"
  let ?z1 = "?z0\<lparr>place_of := (place_of ?z0)(1 := Spinning)\<rparr>"
  let ?z2 = "?z1\<lparr>place_of := (place_of ?z1)(2 := Spinning)\<rparr>"
  let ?z3 = "?z2\<lparr>lock_word := 1, place_of := (place_of ?z2)(1 := Inside)\<rparr>"
  have "spin_reachable spin_try_byte 0 ?z1" by (rule spin_reachable.step[OF spin_reachable.init spin_step.call]) simp
  then have "spin_reachable spin_try_byte 0 ?z2" by (rule spin_reachable.step[OF _ spin_step.call]) simp
  then have z: "spin_reachable spin_try_byte 0 ?z3"
    by (rule spin_reachable.step[OF _ spin_step.enter]) (simp_all add: spin_try_byte_def testandset_def)
  let ?w = "\<lparr>lock_word = 0 :: 32 word, place_of = (\<lambda>_. Outside)\<rparr>"
  have w: "spin_reachable spin_try_cas 0 ?w" by (rule spin_reachable.init)
  have p: "place_of ?z3 1 = Inside" "place_of ?z3 2 = Spinning" "lock_word ?w = 0" by simp_all
  have "\<not> fst (spin_try_byte (lock_word ?z3))" using spin_locks_exclude[OF z w] p(1) by metis
  with z w p show ?thesis by metis
qed

section \<open>Timers\<close>

text \<open>
  C13.  Arming a timer puts the task where its deadline belongs: it gets the deadline asked for, the
  deadlines of all other tasks stay the same, and the list remains ordered by deadline.  Cancelling a
  timer removes the task and leaves the deadlines of all other tasks as they were.
\<close>

theorem watchdog_keeps_deadlines:
  assumes "queues s Q" "quiet s" "scheddata (tcbs s t) = Some d" "Q (WadogList d) = Some L"
    and "\<forall>p \<in> set (timers s L). 0 \<le> snd p"
  shows "(link_free Q t \<and> flags s t AND STATES_WAIT_TIMEOUTB = 0 \<and> 0 \<le> delta_interval (tcbs s t) \<longrightarrow>
       (\<exists>s' L1 L2 D1 D2. fiber_watchdog_insert t s = Some (0, s') \<and> L = L1 @ L2 \<and>
         queues s' (Q(WadogList d \<mapsto> L1 @ t # L2)) \<and> deadlines 0 (timers s L) = D1 @ D2 \<and>
         deadlines 0 (timers s' (L1 @ t # L2)) = D1 @ (t, delta_interval (tcbs s t)) # D2 \<and>
         sorted (map snd (deadlines 0 (timers s' (L1 @ t # L2)))) \<and> flags s' t AND STATES_WAIT_TIMEOUTB \<noteq> 0)) \<and>
     (t \<in> set L \<and> flags s t AND STATES_WAIT_TIMEOUTB \<noteq> 0 \<longrightarrow>
       (\<exists>s'. fiber_watchdog_remove t s = Some (0, s') \<and> queues s' (Q(WadogList d \<mapsto> remove1 t L)) \<and>
         deadlines 0 (timers s' (remove1 t L)) = filter (\<lambda>p. fst p \<noteq> t) (deadlines 0 (timers s L))))"
  using watchdog_insert_keeps_deadlines[OF assms(1-4) _ _ assms(5)] watchdog_remove_keeps_deadlines[OF assms(1-4)] by simp

theorem watchdog_keeps_deadlines_witness:
  "(\<exists>s' L. fiber_watchdog_insert 5 time_scene = Some (0, s') \<and> deadlines 0 (timers s' L) = [(3, 30), (5, 50), (4, 70)]) \<and>
   (\<exists>s'. fiber_watchdog_remove 3 time_scene = Some (0, s') \<and> deadlines 0 (timers s' [4]) = [(4, 70)])"
proof
  let ?Q = "map_of time_queues"
  have n: "\<forall>p \<in> set (timers time_scene [3, 4]). 0 \<le> snd p" "scheddata (tcbs time_scene t) = Some 0" for t by simp_all
  have h: "link_free ?Q 5" "flags time_scene 5 AND STATES_WAIT_TIMEOUTB = 0" "0 \<le> delta_interval (tcbs time_scene 5)"
    "flags time_scene 3 AND STATES_WAIT_TIMEOUTB \<noteq> 0"
    by (simp_all add: off_chains_def flags_def bit_masks) (simp add: time_queues_def)
  note use = watchdog_keeps_deadlines[OF time_scene_queues time_sel(1) n(2) time_sel(3) n(1)]
  from use[of 5] h obtain s' L1 L2 D1 D2 where r: "fiber_watchdog_insert 5 time_scene = Some (0, s')"
    "[(3, 30), (4, 70)] = D1 @ D2" "deadlines 0 (timers s' (L1 @ 5 # L2)) = D1 @ (5, 50) # D2"
    "sorted (map snd (deadlines 0 (timers s' (L1 @ 5 # L2))))" by auto
  then have "D1 @ (5, 50) # D2 = [(3, 30), (5, 50), (4, 70)]" by (auto simp: Cons_eq_append_conv)
  with r show "\<exists>s' L. fiber_watchdog_insert 5 time_scene = Some (0, s') \<and> deadlines 0 (timers s' L) = [(3, 30), (5, 50), (4, 70)]"
    by metis
  from use[of 3] h show "\<exists>s'. fiber_watchdog_remove 3 time_scene = Some (0, s') \<and> deadlines 0 (timers s' [4]) = [(4, 70)]" by auto
qed

text \<open>
  C14.  No timer fires late: after a tick of the clock every task whose deadline has passed is on
  the ready list, in front of the scheduler task, and no remaining task has more time left than its
  deadline less the tick.  The scan of the list always ends.
\<close>

theorem watchdog_tickle_never_late:
  assumes "queues s Q" "quiet s" "scheddata (tcbs s b) = Some d" "Q (WadogList d) = Some L" "Q (ReadyList d) = Some (us @ [b])"
    and "\<forall>t \<in> set L. timed_ok s Q d b t" "\<forall>p \<in> set (timers s L). 0 \<le> snd p"
  shows "\<exists>s' Q' F M. fiber_watchdog_tickle b gap s = Some (0, s') \<and> queues s' Q' \<and> L = F @ M \<and>
     Q' (ReadyList d) = Some (us @ F @ [b]) \<and> Q' (WadogList d) = Some M \<and>
     (\<forall>t y. (t, y) \<in> set (deadlines 0 (timers s L)) \<longrightarrow> y \<le> gap \<longrightarrow> t \<in> set F) \<and>
     (\<forall>t y'. (t, y') \<in> set (deadlines 0 (timers s' M)) \<longrightarrow> (\<exists>y. (t, y) \<in> set (deadlines 0 (timers s L)) \<and> y' \<le> y - gap))"
proof -
  let ?F = "fst (delta_tick gap (timers s L))"
  let ?M = "drop (length ?F) L"
  obtain s' where s': "fiber_watchdog_tickle b gap s = Some (0, s')"
    "queues s' ((fold drop_node ?F Q)(WadogList d \<mapsto> ?M, ReadyList d \<mapsto> us @ ?F @ [b]))"
    "timers s' ?M = snd (delta_tick gap (timers s L))"
    using watchdog_tickle_spec[OF assms(1-6) refl refl] by blast
  have "L = ?F @ ?M" using delta_tick_prefix[of gap s L] by (metis append_take_drop_id)
  moreover have "t \<in> set ?F" if "(t, y) \<in> set (deadlines 0 (timers s L))" "y \<le> gap" for t y
    using delta_tick_due[OF assms(7) that(1) _ that(2)] by simp
  moreover have "\<exists>y. (t, y) \<in> set (deadlines 0 (timers s L)) \<and> y' \<le> y - gap"
    if "(t, y') \<in> set (deadlines 0 (timers s' ?M))" for t y'
    using delta_tick_never_late[OF assms(7), of 0 t y' gap] that s'(3) by simp
  ultimately show ?thesis using s'(1,2)
    by (intro exI[of _ s'] exI[of _ "(fold drop_node ?F Q)(WadogList d \<mapsto> ?M, ReadyList d \<mapsto> us @ ?F @ [b])"]
        exI[of _ ?F] exI[of _ ?M]) simp
qed

theorem watchdog_tickle_never_late_witness:
  "\<exists>s' Q' F M. fiber_watchdog_tickle 0 35 time_scene = Some (0, s') \<and> queues s' Q' \<and> [3, 4] = F @ M \<and>
     Q' (ReadyList 0) = Some ([1, 2] @ F @ [0]) \<and> 3 \<in> set F"
proof -
  have h: "scheddata (tcbs time_scene 0) = Some 0" "map_of time_queues (ReadyList 0) = Some ([1, 2] @ [0])"
    "\<forall>p \<in> set (timers time_scene [3, 4]). 0 \<le> snd p" by simp_all
  from watchdog_tickle_never_late[OF time_scene_queues time_sel(1) h(1) time_sel(3) h(2) time_scene_timed h(3), of 35]
  obtain s' Q' F M where "fiber_watchdog_tickle 0 35 time_scene = Some (0, s')" "queues s' Q'" "[3, 4] = F @ M"
    "Q' (ReadyList 0) = Some ([1, 2] @ F @ [0])"
    and due: "\<forall>t y. (t, y) \<in> set (deadlines 0 (timers time_scene [3, 4])) \<longrightarrow> y \<le> 35 \<longrightarrow> t \<in> set F" by blast
  moreover have "(3, 30) \<in> set (deadlines 0 (timers time_scene [3, 4]))" by simp
  then have "3 \<in> set F" using due by force
  ultimately show ?thesis by blast
qed

text \<open>
  C15.  A timer can fire early.  The scan compares the interval of each entry, which is relative to
  the entry before it, with the whole tick: when the first two intervals \<open>x\<close> and \<open>y\<close> are both at
  most the tick, both tasks are woken, although the second is due only after \<open>x + y\<close>.
\<close>

theorem watchdog_tickle_fires_early:
  assumes "queues s Q" "quiet s" "scheddata (tcbs s b) = Some d" "Q (WadogList d) = Some [t, u]"
    and "Q (ReadyList d) = Some (us @ [b])" "\<forall>t \<in> set [t, u]. timed_ok s Q d b t"
    and "timers s [t, u] = [(t, x), (u, y)]" "x \<le> gap" "y \<le> gap" "gap < x + y"
  shows "deadlines 0 (timers s [t, u]) = [(t, x), (u, x + y)] \<and> gap < x + y \<and>
     (\<exists>s' Q'. fiber_watchdog_tickle b gap s = Some (0, s') \<and> queues s' Q' \<and> Q' (WadogList d) = Some [] \<and>
        Q' (ReadyList d) = Some (us @ [t, u] @ [b]))"
proof -
  have e: "fst (delta_tick gap (timers s [t, u])) = [t, u]" using assms(7-9) by simp
  from watchdog_tickle_spec[OF assms(1-6) e[symmetric] refl] obtain s' where
    "fiber_watchdog_tickle b gap s = Some (0, s')"
    "queues s' ((fold drop_node [t, u] Q)(WadogList d \<mapsto> [], ReadyList d \<mapsto> us @ [t, u] @ [b]))" by auto
  then have "\<exists>s' Q'. fiber_watchdog_tickle b gap s = Some (0, s') \<and> queues s' Q' \<and> Q' (WadogList d) = Some [] \<and>
        Q' (ReadyList d) = Some (us @ [t, u] @ [b])"
    by (intro exI[of _ s'] exI[of _ "(fold drop_node [t, u] Q)(WadogList d \<mapsto> [], ReadyList d \<mapsto> us @ [t, u] @ [b])"]) simp
  with assms(7,10) show ?thesis by simp
qed

theorem watchdog_tickle_fires_early_witness:
  "deadlines 0 (timers time_scene [3, 4]) = [(3, 30), (4, 70)] \<and>
     (\<exists>s' Q'. fiber_watchdog_tickle 0 50 time_scene = Some (0, s') \<and> queues s' Q' \<and> Q' (ReadyList 0) = Some [1, 2, 3, 4, 0])"
proof -
  have h: "scheddata (tcbs time_scene 0) = Some 0" "map_of time_queues (ReadyList 0) = Some ([1, 2] @ [0])"
    "timers time_scene [3, 4] = [(3, 30), (4, 40)]" "(30 :: int) \<le> 50" "(40 :: int) \<le> 50" "(50 :: int) < 30 + 40" by simp_all
  from watchdog_tickle_fires_early[OF time_scene_queues time_sel(1) h(1) time_sel(3) h(2) time_scene_timed h(3-6)]
  show ?thesis by auto
qed

text \<open>
  C16.  A timed semaphore wait that runs out of time loses a token.  The expiry takes the task off
  the wait queue but does not give its decrement back: the count stays at \<open>- 1\<close> with nobody
  waiting, the abstract invariant is broken, and the next post, which should leave one token, only
  brings the count to 0 and wakes nobody.
\<close>

theorem sem_timeout_loses_token:
  assumes "queues s Q" "quiet s" "scheddata (tcbs s b) = Some d" "Q (WadogList d) = Some [t]" "Q (ReadyList d) = Some (us @ [b])"
    and "timed_ok s Q d b t" "Q (SemWaitq p) = Some [t]" "count (sems s p) = - 1" "delta_interval (tcbs s t) \<le> gap"
  shows "asem_inv (abs_sem p s Q) \<and> (\<exists>s' Q'. fiber_watchdog_tickle b gap s = Some (0, s') \<and> queues s' Q' \<and>
     Q' (ReadyList d) = Some (us @ [t, b]) \<and> abs_sem p s' Q' = \<lparr>credit = - 1, pending = []\<rparr> \<and> \<not> asem_inv (abs_sem p s' Q') \<and>
     (\<exists>s''. fiber_sem_post th p s' = Some (True, s'') \<and> abs_sem p s'' Q' = \<lparr>credit = 0, pending = []\<rparr> \<and> queues s'' Q'))"
proof -
  have e: "[t] = fst (delta_tick gap (timers s [t]))" using assms(9) by simp
  let ?Q = "(fold drop_node [t] Q)(WadogList d \<mapsto> [], ReadyList d \<mapsto> us @ [t, b])"
  obtain s' where s': "fiber_watchdog_tickle b gap s = Some (0, s')" "queues s' ?Q" "sems s' = sems s" "frame s s'"
    using watchdog_tickle_spec[OF assms(1-5) _ e refl] assms(6) by auto
  have w: "?Q (SemWaitq p) = Some []" using assms(7) by (simp add: drop_node_def)
  have "quiet s'" using s'(4) assms(2) by (simp add: frame_def quiet_def)
  from sem_post_idle[OF this s'(2) w, of th] obtain s'' where
    s1: "fiber_sem_post th p s' = Some (True, s'')" "queues s'' ?Q"
      "sems s'' = (sems s')(p := (sems s' p)\<lparr>count := count (sems s' p) + 1\<rparr>)" by blast
  then have s'': "fiber_sem_post th p s' = Some (True, s'')" "queues s'' ?Q" "count (sems s'' p) = 0"
    using s'(3) assms(8) by (simp_all only: fun_upd_same) simp
  have "abs_sem p s' ?Q = \<lparr>credit = - 1, pending = []\<rparr>" "abs_sem p s'' ?Q = \<lparr>credit = 0, pending = []\<rparr>"
    using w s'(3) s''(3) assms(8) by (simp_all only: abs_sem_def option.sel)
  moreover have "asem_inv (abs_sem p s Q)" using assms(7,8) by (simp add: abs_sem_def asem_inv_def)
  ultimately have "asem_inv (abs_sem p s Q)" "\<not> asem_inv (abs_sem p s' ?Q)" "?Q (ReadyList d) = Some (us @ [t, b])"
    "abs_sem p s' ?Q = \<lparr>credit = - 1, pending = []\<rparr>"
    "\<exists>s''. fiber_sem_post th p s' = Some (True, s'') \<and> abs_sem p s'' ?Q = \<lparr>credit = 0, pending = []\<rparr> \<and> queues s'' ?Q"
    using s''(1,2) by (auto simp only: asem_inv_def fun_upd_same) simp
  with s'(1,2) show ?thesis by blast
qed

theorem sem_timeout_loses_token_witness:
  "\<exists>s' Q'. fiber_watchdog_tickle 0 50 token_scene = Some (0, s') \<and> abs_sem 0 s' Q' = \<lparr>credit = - 1, pending = []\<rparr> \<and>
     (\<exists>s''. fiber_sem_post 0 0 s' = Some (True, s'') \<and> abs_sem 0 s'' Q' = \<lparr>credit = 0, pending = []\<rparr>)"
proof -
  have h: "scheddata (tcbs token_scene 0) = Some 0" "map_of token_queues (ReadyList 0) = Some ([1, 2] @ [0])"
    "count (sems token_scene 0) = - 1" "delta_interval (tcbs token_scene 3) \<le> 50" by simp_all
  from sem_timeout_loses_token[OF token_scene_queues token_sel(1) h(1) token_sel(9) h(2) token_scene_timed token_sel(10) h(3,4), of 0]
  show ?thesis by blast
qed

text \<open>
  C17.  The turn of a scheduler measures the time since its last turn in 64 bits and hands it to the timers
  as a 32-bit \<open>int\<close>.  Below \<open>2 ^ 31\<close> microseconds every task whose deadline has passed becomes ready.
  Above (but below \<open>2 ^ 32\<close>), as after some forty minutes without a turn, the number is negative: no task becomes
  ready, and the first timer is set further into the future instead of firing.
\<close>

theorem scheduler_turn_clock:
  assumes "one_n_model s" "the_maintask s th = Some b" "queues s Q" "quiet s" "scheddata (tcbs s b) = Some d"
    and "Q (WadogList d) = Some (t # L)" "Q (ReadyList d) = Some (us @ [b])" "\<forall>u \<in> set (t # L). timed_ok s Q d b u"
    and "\<forall>p \<in> set (timers s (t # L)). 0 \<le> snd p" and e: "e = micros tv - micros tv0"
  shows "(0 < e \<and> e < 2 ^ 31 \<longrightarrow> (\<exists>s' Q' F M. scheduler_turn th tv (utime tv0) s = Some (utime tv, s') \<and> queues s' Q' \<and>
       t # L = F @ M \<and> Q' (ReadyList d) = Some (us @ F @ [b]) \<and>
       (\<forall>u y. (u, y) \<in> set (deadlines 0 (timers s (t # L))) \<longrightarrow> y \<le> e \<longrightarrow> u \<in> set F))) \<and>
     (2 ^ 31 + delta_interval (tcbs s t) < e \<and> e < 2 ^ 32 \<longrightarrow>
       (\<exists>s' Q'. scheduler_turn th tv (utime tv0) s = Some (utime tv, s') \<and> queues s' Q' \<and>
         Q' (WadogList d) = Some (t # L) \<and> Q' (ReadyList d) = Some (us @ [b]) \<and>
         hd (deadlines 0 (timers s' (t # L))) = (t, delta_interval (tcbs s t) + (2 ^ 32 - e))))"
proof (intro conjI impI)
  assume "0 < e \<and> e < 2 ^ 31"
  then have g: "e = sint (ucast (utime tv - utime tv0) :: 32 word)" "utime tv \<noteq> utime tv0"
    using gap_exact[of tv tv0] e by auto
  from turn_spec[OF assms(1,2) g(2) assms(3-8) g(1) refl refl]
    delta_tick_due[OF assms(9), where b = 0 and gap = e] delta_tick_prefix[of e s "t # L"]
  show "\<exists>s' Q' F M. scheduler_turn th tv (utime tv0) s = Some (utime tv, s') \<and> queues s' Q' \<and>
       t # L = F @ M \<and> Q' (ReadyList d) = Some (us @ F @ [b]) \<and>
       (\<forall>u y. (u, y) \<in> set (deadlines 0 (timers s (t # L))) \<longrightarrow> y \<le> e \<longrightarrow> u \<in> set F)"
    by (metis append_take_drop_id order_refl)
next
  assume r: "2 ^ 31 + delta_interval (tcbs s t) < e \<and> e < 2 ^ 32"
  have x: "0 \<le> delta_interval (tcbs s t)" using assms(9) by (simp add: timers_def)
  have g: "e - 2 ^ 32 = sint (ucast (utime tv - utime tv0) :: 32 word)" using gap_negative[of tv tv0] e r x by simp
  then have ne: "utime tv \<noteq> utime tv0" using r by auto
  have tick: "delta_tick (e - 2 ^ 32) (timers s (t # L)) = ([], (t, delta_interval (tcbs s t) - (e - 2 ^ 32)) # timers s L)"
    using r x by (simp add: timers_def)
  from turn_spec[OF assms(1,2) ne assms(3-8) g refl refl] tick
  show "\<exists>s' Q'. scheduler_turn th tv (utime tv0) s = Some (utime tv, s') \<and> queues s' Q' \<and>
         Q' (WadogList d) = Some (t # L) \<and> Q' (ReadyList d) = Some (us @ [b]) \<and>
         hd (deadlines 0 (timers s' (t # L))) = (t, delta_interval (tcbs s t) + (2 ^ 32 - e))"
    by (auto simp: algebra_simps)
qed

theorem scheduler_turn_clock_witness:
  "(\<exists>s' Q' F M. scheduler_turn 0 (100, 40) (utime (100, 5)) single_scene = Some (utime (100, 40), s') \<and> queues s' Q' \<and>
     [3, 4] = F @ M \<and> Q' (ReadyList 0) = Some ([1, 2] @ F @ [0]) \<and> 3 \<in> set F) \<and>
   (\<exists>s' Q'. scheduler_turn 0 (3100, 0) (utime (100, 0)) single_scene = Some (utime (3100, 0), s') \<and> queues s' Q' \<and>
     Q' (WadogList 0) = Some [3, 4] \<and> Q' (ReadyList 0) = Some [1, 2, 0])"
proof
  have h: "scheddata (tcbs single_scene 0) = Some 0" "map_of time_queues (ReadyList 0) = Some ([1, 2] @ [0])"
    "\<forall>p \<in> set (timers single_scene [3, 4]). 0 \<le> snd p" by (simp_all add: timers_def)
  note turn = scheduler_turn_clock[OF single_sel(3,4) single_scene_ok(1) single_sel(1) h(1) time_sel(3) h(2) single_scene_ok(2) h(3) refl]
  have d: "(3, 30) \<in> set (deadlines 0 (timers single_scene [3, 4]))" by (simp add: timers_def)
  have "micros (100, 40) - micros (100, 5) = 35" "0 < (35 :: int) \<and> (35 :: int) < 2 ^ 31" by (simp_all add: micros_def)
  with turn[where th = 0 and tv = "(100, 40)" and ?tv0.0 = "(100, 5)"] obtain s' Q' F M where
    "scheduler_turn 0 (100, 40) (utime (100, 5)) single_scene = Some (utime (100, 40), s')" "queues s' Q'" "[3, 4] = F @ M"
    "Q' (ReadyList 0) = Some ([1, 2] @ F @ [0])"
    and due: "\<forall>u y. (u, y) \<in> set (deadlines 0 (timers single_scene [3, 4])) \<longrightarrow> y \<le> 35 \<longrightarrow> u \<in> set F"
    by metis
  moreover have "3 \<in> set F" using due d by force
  ultimately show "\<exists>s' Q' F M. scheduler_turn 0 (100, 40) (utime (100, 5)) single_scene = Some (utime (100, 40), s') \<and> queues s' Q' \<and>
     [3, 4] = F @ M \<and> Q' (ReadyList 0) = Some ([1, 2] @ F @ [0]) \<and> 3 \<in> set F" by blast
  from turn[of "(3100, 0)" "(100, 0)"]
  show "\<exists>s' Q'. scheduler_turn 0 (3100, 0) (utime (100, 0)) single_scene = Some (utime (3100, 0), s') \<and> queues s' Q' \<and>
     Q' (WadogList 0) = Some [3, 4] \<and> Q' (ReadyList 0) = Some [1, 2, 0]" by (fastforce simp: micros_def)
qed

section \<open>Stacks\<close>

text \<open>
  C18.  The search for a cached stack, which walks the bit mask four bits at a time and stops early,
  finds a stack of sufficient size among the marked slots whenever there is one, and only then.
\<close>

theorem stack_search_complete:
  "case stack_search vec want bits 0 None of
     None \<Rightarrow> \<forall>i. bit bits i \<longrightarrow> snd (vec ! i) < want
   | Some k \<Rightarrow> bit bits k \<and> want \<le> snd (vec ! k)"
  using stack_search_spec[where p = 0 and index = None and vec = vec and want = want and bits = bits] by (auto split: option.splits)

theorem stack_search_complete_witness:
  "stack_search [(1, 4096), (2, 8192), (3, 65536), (4, 0), (5, 0), (6, 0), (7, 0), (8, 0)] 10000 (0xFF :: 32 word) 0 None = Some 2"
  (is "stack_search ?vec _ _ _ _ = _")
proof (cases "stack_search ?vec 10000 (0xFF :: 32 word) 0 None")
  case None
  then show ?thesis using stack_search_complete[where vec = ?vec and want = 10000 and bits = "0xFF :: 32 word"] low8[of 2] by (auto dest!: spec[of _ 2])
next
  case (Some k)
  then have "k < 8" "10000 \<le> snd (?vec ! k)"
    using stack_search_complete[where vec = ?vec and want = 10000 and bits = "0xFF :: 32 word"] low8[of k] by simp_all
  moreover from this(1) have "k = 0 \<or> k = 1 \<or> k = 2 \<or> k = 3 \<or> k = 4 \<or> k = 5 \<or> k = 6 \<or> k = 7" by arith
  ultimately have "k = 2" by auto
  with Some show ?thesis by simp
qed

section \<open>Tasks and threads\<close>



text \<open>
  C20.  Any number of creations, one after the other, with an allocator that never gives out memory that is in use: every call
  returns, the tasks they return are all different, were on no queue before and are on a queue afterwards,
  and no free list holds a block that is queued.  Their blocks come from the free lists or from the
  allocator, no other control block is written, the global counter agrees, and a call with a stack of its own and memory
  for its control block does not fail.
\<close>

theorem fiber_creates_exclusive:
  assumes "pools s Q F gs" "queues s Q" "quiet s" "fresh_calls (in_use Q F gs) cs" "on_thread s Q th d m us" "F d \<noteq> None"
    and "one_n_model s \<or> mServiceThreads s \<noteq> 0" "\<forall>g < MAX_GLOBAL_GROUPS. Q (GlobalReady g) \<noteq> None"
  shows "\<exists>rs s' F' gs' Q'. create_all th cs s = Some (rs, s') \<and> length rs = length cs \<and> pools s' Q' F' gs' \<and> queues s' Q' \<and>
     distinct (created rs) \<and> set (created rs) \<inter> on_queues Q = {} \<and> on_queues Q' = on_queues Q \<union> set (created rs) \<and>
     free_blocks F' gs' \<inter> on_queues Q' = {} \<and> set (created rs) \<subseteq> free_blocks F gs \<union> \<Union> (call_arena ` set cs) \<and>
     (\<forall>u. u \<notin> free_blocks F gs \<union> \<Union> (call_arena ` set cs) \<longrightarrow> tcbs s' u = tcbs s u) \<and>
     nGlobalFibTasks s' = nGlobalFibTasks s + int (length (created rs)) \<and> (list_all supplied cs \<longrightarrow> None \<notin> set rs)"
proof -
  obtain rs s' F' gs' Q' where c: "create_all th cs s = Some (rs, s')" "length rs = length cs" "pools s' Q' F' gs'" "queues s' Q'"
    "on_queues Q' = on_queues Q \<union> set (created rs)" "set (created rs) \<inter> on_queues Q = {}" "distinct (created rs)"
    "nGlobalFibTasks s' = nGlobalFibTasks s + int (length (created rs))"
    "set (created rs) \<subseteq> free_blocks F gs \<union> \<Union> (call_arena ` set cs)"
    "\<forall>u. u \<notin> free_blocks F gs \<union> \<Union> (call_arena ` set cs) \<longrightarrow> tcbs s' u = tcbs s u" "list_all supplied cs \<longrightarrow> None \<notin> set rs"
    using create_all_spec[OF assms] by blast
  moreover have "free_blocks F' gs' \<inter> on_queues Q' = {}" using c(3) by (auto simp: pools_def node_free_queued)
  ultimately show ?thesis by blast
qed

theorem fiber_creates_exclusive_witness:
  "\<exists>rs s'. create_all 0 [(room 100, 1, 2, 4096, 8192), (room 200, 1, 3, 16384, 8192)] (life_scene 2) = Some (rs, s') \<and>
     length rs = 2 \<and> distinct (created rs) \<and> None \<notin> set rs \<and> set (created rs) \<inter> {0, 1, 2} = {}"
proof -
  let ?cs = "[(room 100, 1, 2, 4096, 8192), (room 200, 1, 3, 16384, 8192)]"
  have h: "on_thread (life_scene 2) (map_of life_queues) 0 0 0 [1, 2]" "[0 \<mapsto> []] 0 \<noteq> None"
    "one_n_model (life_scene 2) \<or> mServiceThreads (life_scene 2) \<noteq> 0"
    "\<forall>g < MAX_GLOBAL_GROUPS. map_of life_queues (GlobalReady g) \<noteq> None"
    using runningD(2)[OF life_running(1)]
    by (simp_all add: MAX_GLOBAL_GROUPS_def) (auto simp: life_queues_def eval_nat_numeral less_Suc_eq)
  have "{0, 1, 2} \<subseteq> on_queues (map_of life_queues)" unfolding on_queues_def
    by (auto intro!: exI[of _ "ReadyList 0"] exI[of _ "[1, 2, 0 :: nat]"])
  moreover have "list_all supplied ?cs" by (simp add: supplied_def room_def TCB_INCREASE_SIZE_AT_EMPTY_def)
  ultimately show ?thesis
    using fiber_creates_exclusive[OF life_pools life_queues_ok life_sel(1) room_fresh h] by fastforce
qed

text \<open>
  C21.  A task that returns from its entry function leaves the ready list, its control block becomes
  available again, the counters of tasks go down by one and the scheduler task runs next.
\<close>

theorem task_exit_correct:
  assumes "pools s Q F gs" "running s Q th d m us c" "c \<noteq> m" "quiet s" "scheduler (tcbs s c) = Some m"
    and "scheddata (tcbs s c) = Some d" "onTaskCleanup (tcbs s c) = None" "F d = Some ls"
  shows "\<exists>s' F' gs'. task_exit callback th c s = Some (Switched, s') \<and>
     running s' (Q(ReadyList d \<mapsto> butlast us @ [m])) th d m (butlast us) m \<and>
     pools s' (Q(ReadyList d \<mapsto> butlast us @ [m])) F' gs' \<and> c \<in> free_blocks F' gs' \<and>
     nGlobalFibTasks s' = nGlobalFibTasks s - 1 \<and> nLocalFibTasks (scps s' d) = nLocalFibTasks (scps s d) - 1"
  using task_exit_spec[OF assms] by blast

theorem task_exit_correct_witness:
  "\<exists>s' Q'. task_exit (\<lambda>_ _. Some) 0 2 (life_scene 2) = Some (Switched, s') \<and> running s' Q' 0 0 0 [1] 0 \<and> nGlobalFibTasks s' = 3"
proof -
  have h: "(2 :: nat) \<noteq> 0" "scheduler (tcbs (life_scene 2) 2) = Some 0" "scheddata (tcbs (life_scene 2) 2) = Some 0"
    "onTaskCleanup (tcbs (life_scene 2) 2) = None" "[0 \<mapsto> []] 0 = Some []" by simp_all
  from task_exit_correct[OF life_pools life_running(1) h(1) life_sel(1) h(2-5), of "\<lambda>_ _. Some"]
  show ?thesis by fastforce
qed

section \<open>The context switch\<close>

text \<open>
  C22.  A task that is switched away from and later switched back to goes on as if the switch had been an ordinary
  call: it returns to its caller, with the stack pointer behind the return address and with the registers that
  a call preserves, whatever happened in between to everything but its saved context and
  its return address.
\<close>

theorem switch_and_return:
  assumes "aligned (reg M RDI)" "aligned (reg M RSI)" "aligned (reg_rsp (ctx_at M (reg M RSI)))" "aligned (reg M RSP)"
    and "ctx_cells (reg M RDI) \<inter> ctx_cells (reg M RSI) = {}" "reg_rsp (ctx_at M (reg M RSI)) \<notin> ctx_cells (reg M RDI)"
    and "reg M RSP \<notin> ctx_cells (reg M RDI)"
  shows "\<exists>M1. exec swap_context_code M = Some (M1, cell M (reg_rsp (ctx_at M (reg M RSI)))) \<and>
     (\<forall>M2. (\<forall>x \<in> ctx_cells (reg M RDI) \<union> {reg M RSP}. cell M2 x = cell M1 x) \<and> reg M2 RSI = reg M RDI \<and> aligned (reg M2 RDI) \<and>
        ctx_cells (reg M2 RDI) \<inter> ctx_cells (reg M RDI) = {} \<and> reg M RSP \<notin> ctx_cells (reg M2 RDI) \<longrightarrow>
      (\<exists>M3. exec swap_context_code M2 = Some (M3, cell M (reg M RSP)) \<and> saved_regs M3 = saved_regs M \<and> reg M3 RSP = reg M RSP + 8))"
proof -
  obtain M1 where M1: "exec swap_context_code M = Some (M1, cell M (reg_rsp (ctx_at M (reg M RSI))))"
    using swap_spec[OF assms(1-3,5,6)] by blast
  then show ?thesis using swap_back[OF assms M1] by blast
qed

theorem switch_and_return_witness:
  "\<exists>M1 M3. exec swap_context_code demo_machine = Some (M1, 0x4444) \<and>
     exec swap_context_code (set_reg RDI 0x2000 (set_reg RSI 0x1000 M1)) = Some (M3, 0x5555) \<and> reg M3 RBX = 7"
proof -
  have h: "aligned (reg demo_machine RDI)" "aligned (reg demo_machine RSI)" "aligned (reg_rsp (ctx_at demo_machine (reg demo_machine RSI)))"
    "aligned (reg demo_machine RSP)" "ctx_cells (reg demo_machine RDI) \<inter> ctx_cells (reg demo_machine RSI) = {}"
    "reg_rsp (ctx_at demo_machine (reg demo_machine RSI)) \<notin> ctx_cells (reg demo_machine RDI)" "reg demo_machine RSP \<notin> ctx_cells (reg demo_machine RDI)"
    by (simp_all add: demo_machine_sel aligned_def ctx_cells_def)
  from switch_and_return[OF h, unfolded demo_machine_sel] obtain M1 where M1: "exec swap_context_code demo_machine = Some (M1, 0x4444)"
    and again: "\<And>M2. (\<forall>x \<in> ctx_cells 0x1000 \<union> {0x8000}. cell M2 x = cell M1 x) \<and> reg M2 RSI = 0x1000 \<and> aligned (reg M2 RDI) \<and>
        ctx_cells (reg M2 RDI) \<inter> ctx_cells 0x1000 = {} \<and> 0x8000 \<notin> ctx_cells (reg M2 RDI) \<Longrightarrow>
      \<exists>M3. exec swap_context_code M2 = Some (M3, 0x5555) \<and> saved_regs M3 = saved_regs demo_machine"
    by blast
  let ?M2 = "set_reg RDI 0x2000 (set_reg RSI 0x1000 M1)"
  have "\<exists>M3. exec swap_context_code ?M2 = Some (M3, 0x5555) \<and> saved_regs M3 = saved_regs demo_machine"
    by (rule again) (simp add: set_reg_def ctx_cells_def aligned_def)
  with M1 show ?thesis by (fastforce simp: saved_regs_def demo_machine_sel)
qed

section \<open>Message queues\<close>

text \<open>
  C23.  Push and pop of the message queue when nobody is inside, on every branch: with room the
  message is stored last and the consumer that has waited longest is woken, and from a queue that is
  not empty the oldest message is returned and the longest waiting producer is woken; otherwise the
  caller waits, last, with the mutex released and the queue unchanged.
\<close>

theorem fiberq_push_pop_correct:
  assumes "enterable s Q th d m us c (rbq_lock q)" "rbq_inv q"
    and "Q (CondWaitq (rbq_empt q)) = Some es" "waiters_ok s Q c (CondWaitq (rbq_empt q))"
    and "Q (CondWaitq (rbq_full q)) = Some fs" "waiters_ok s Q c (CondWaitq (rbq_full q))"
  shows "(\<exists>r s' q' Q'. fiberq_push th x s q = Some (r, s', q') \<and> queues s' Q' \<and> rbq_inv q' \<and>
       unowned s' (rbq_lock q) \<and>
       (if length (rbq_contents q) < rbq_size q
        then r = Returns True \<and> rbq_contents q' = rbq_contents q @ [x] \<and> Q' (CondWaitq (rbq_empt q)) = Some (tl es)
        else r = Switched \<and> q' = q \<and> Q' (CondWaitq (rbq_full q)) = Some (fs @ [c]))) \<and>
     (\<exists>r s' q' Q'. fiberq_pop th s q = Some (r, s', q') \<and> queues s' Q' \<and> rbq_inv q' \<and>
       unowned s' (rbq_lock q) \<and>
       (case rbq_contents q of
          y # ys \<Rightarrow> r = Returns y \<and> rbq_contents q' = ys \<and> Q' (CondWaitq (rbq_full q)) = Some (tl fs)
        | [] \<Rightarrow> r = Switched \<and> q' = q \<and> Q' (CondWaitq (rbq_empt q)) = Some (es @ [c])))"
  using fiberq_push_branches[OF assms(1-5)] fiberq_pop_branches[OF assms(1,2,5,6,3)] ..

theorem fiberq_push_pop_correct_witness:
  "\<exists>s' q' s2 q2. fiberq_push 0 7 wide_scene (demo_fiberq 1) = Some (Returns True, s', q') \<and> rbq_contents q' = [6, 7] \<and>
     fiberq_pop 0 wide_scene (demo_fiberq 1) = Some (Returns 6, s2, q2) \<and> rbq_contents q2 = []"
  using fiberq_push_pop_correct[OF demo_fiberq_ok(1-6), of 1 7] demo_fiberq_ok(7) by (fastforce simp: demo_fiberq_def)

text \<open>
  C24.  In every run of producers and consumers on a new message queue, with calls that are suspended
  and resumed and with any other activity between them, the messages received are the messages sent,
  in the same order, except for those still in the ring, which are never more than its size.
\<close>

theorem fiberq_runs_in_order:
  assumes "fiberq_init_static z n lock empt full s0 = (True, s1, q0)" "0 < n" "n < 2 ^ 31"
    and "chan_reachable fiberq_push fiberq_push_again fiberq_pop fiberq_pop_again q0 (s, q, sent, rcvd)"
  shows "rbq_inv q \<and> sent = rcvd @ rbq_contents q \<and> length (rbq_contents q) \<le> n"
proof -
  from fiberq_init_static_spec[OF assms(2,3), of z lock empt full s0] assms(1)
  have "rbq_inv q0" "rbq_contents q0 = []" "rbq_size q0 = n" by auto
  with rbq_chan.run_delivers[OF assms(4)] show ?thesis by simp
qed

theorem fiberq_runs_in_order_witness:
  "\<exists>q0 s q. chan_reachable fiberq_push fiberq_push_again fiberq_pop fiberq_pop_again q0 (s, q, [7 :: nat], []) \<and> rbq_contents q = [7]"
proof -
  obtain s1 q0 where q0: "fiberq_init_static (0 :: nat) 2 0 0 1 wide_scene = (True, s1, q0)" "q0 = demo_fiberq 0"
    by (auto simp: fiberq_init_static_def Let_def split_beta demo_fiberq_def eval_nat_numeral)
  obtain s q where "fiberq_push 0 7 wide_scene q0 = Some (Returns True, s, q)"
    using fiberq_push_branches[OF demo_fiberq_ok(1-5), of 0 7] demo_fiberq_ok(8) q0(2) by (fastforce simp: demo_fiberq_def)
  then have "chan_step fiberq_push fiberq_push_again fiberq_pop fiberq_pop_again (wide_scene, q0, [], []) (s, q, [] @ [7], [])"
    by (intro chan_step.push_done disjI1)
  then have "chan_reachable fiberq_push fiberq_push_again fiberq_pop fiberq_pop_again q0 (s, q, [7], [])"
    using chan_reachable.step[OF chan_reachable.start] by fastforce
  with fiberq_runs_in_order[OF q0(1) _ _ this] show ?thesis by auto
qed

text \<open>
  C25.  Push and pop of the blocking queue when nobody is inside: within the limits they complete, add
  the object at the end or return the first one, wake the longest waiting client of the other
  side and leave the mutex free; at the limits they leave the queue unchanged, free the mutex and
  put the caller at the end of the right wait queue.
\<close>

theorem blockq_push_pop_correct:
  assumes "enterable s Q th d m us c (bq_lock q)" "bq_inv q"
    and "Q (CondWaitq (bq_empt q)) = Some es" "waiters_ok s Q c (CondWaitq (bq_empt q))"
    and "Q (CondWaitq (bq_full q)) = Some fs" "waiters_ok s Q c (CondWaitq (bq_full q))"
  shows "(\<exists>r s' q' Q'. blockq_push th x s q = Some (r, s', q') \<and> queues s' Q' \<and> bq_inv q' \<and>
       unowned s' (bq_lock q) \<and>
       (if int (length (bq_contents q)) < limit q
        then r = Returns () \<and> bq_contents q' = bq_contents q @ [x] \<and> Q' (CondWaitq (bq_empt q)) = Some (tl es)
        else r = Switched \<and> q' = q \<and> Q' (CondWaitq (bq_full q)) = Some (fs @ [c]))) \<and>
     (\<exists>r s' q' Q'. blockq_pop th s q = Some (r, s', q') \<and> queues s' Q' \<and> bq_inv q' \<and>
       unowned s' (bq_lock q) \<and>
       (case bq_contents q of
          y # ys \<Rightarrow> r = Returns y \<and> bq_contents q' = ys \<and> Q' (CondWaitq (bq_full q)) = Some (tl fs)
        | [] \<Rightarrow> r = Switched \<and> q' = q \<and> Q' (CondWaitq (bq_empt q)) = Some (es @ [c])))"
  (is "?push \<and> ?pop")
proof
  show ?push
  proof (cases "bq_count q < limit q")
    case True
    then show ?thesis using blockq_push_completes[OF assms(1,2) True assms(3,4), of x] bq_contents_count[OF assms(2)] by fastforce
  next
    case False
    then have "bq_count q \<ge> limit q" by simp
    from blockq_push_waits[OF assms(1) this assms(5), of x] False assms(2) bq_contents_count[OF assms(2)] show ?thesis by fastforce
  qed
  show ?pop
  proof (cases "bq_contents q")
    case (Cons y ys)
    then show ?thesis using blockq_pop_completes[OF assms(1,2) Cons assms(5,6)] by fastforce
  next
    case Nil
    then have "bq_count q = 0" using bq_contents_count[OF assms(2)] by simp
    from blockq_pop_waits[OF assms(1) this assms(3)] Nil assms(2) show ?thesis by fastforce
  qed
qed

theorem blockq_push_pop_correct_witness:
  "\<exists>q. bq_inv q \<and> bq_contents q = [] \<and> (\<exists>s' q'. blockq_push 0 (7 :: nat) wide_scene q = Some (Returns (), s', q') \<and> bq_contents q' = [7]) \<and>
     (\<exists>s'. blockq_pop 0 wide_scene q = Some (Switched, s', q))"
proof -
  obtain s0 q where q: "bq_inv q" "bq_contents q = ([] :: nat list)" "limit q = 2" "bq_lock q = 0" "bq_empt q = 0" "bq_full q = 1"
    using blockq_new_spec[of 2 "\<lambda>_. \<lparr>qnext = None, object = 0\<rparr>" 0 0 1 wide_scene] by auto
  have h: "enterable wide_scene (map_of wide_queues) 0 0 0 [1, 2] 2 (bq_lock q)"
    "map_of wide_queues (CondWaitq (bq_empt q)) = Some [3]" "waiters_ok wide_scene (map_of wide_queues) 2 (CondWaitq (bq_empt q))"
    "map_of wide_queues (CondWaitq (bq_full q)) = Some []" "waiters_ok wide_scene (map_of wide_queues) 2 (CondWaitq (bq_full q))"
    using wide_enterable wide_waiters wide_sel q by simp_all
  from blockq_push_pop_correct[OF h(1) q(1) h(2-5), of 7] q(1-3) show ?thesis by (intro exI[of _ q]) fastforce
qed

text \<open>
  C26.  The producers and consumers of the blocking queue program, whatever the order of their turns: what
  the consumers have received, followed by what is in the queue, is what the producers have sent, in
  order; every message is a letter from A to Z, at most 1024 are in the queue; and the two counters that the
  main thread prints, as 64 bit words, differ by no more than the number of consumers and the queue can
  explain in one direction and the number of producers in the other.
\<close>

theorem blockq_counters:
  assumes "blockq_new True junk 1024 lock empt full s0 = Some (Some q0, s1)"
    and "blockq_initializeTasks P th code ctx np nc (demo_start s1 q0) = Some p0"
    and "demo_run blockq_producer blockq_consumer p0 p"
  shows "posts p = recvs p @ bq_contents (demo_q p) \<and> length (bq_contents (demo_q p)) \<le> 1024 \<and> set (posts p) \<subseteq> {65 .. 90} \<and>
     (\<exists>a b. nPosted p = word_of_nat a \<and> nRecved p = word_of_nat b \<and> b \<le> a + np \<and> a \<le> b + nc + 1024)"
proof -
  have "sent = rcvd @ bq_contents q \<and> length (bq_contents q) \<le> 1024"
    if "chan_reachable blockq_push blockq_push_again blockq_pop blockq_pop_again q0 (s, q, sent, rcvd)" for s q sent rcvd
    using blockq_runs_in_order[OF assms(1) _ that] by simp
  from chan_demo_counters[OF assms(3)[unfolded blockq_producer_def blockq_consumer_def]
      assms(2)[unfolded blockq_initializeTasks_def], of bq_contents 1024] this
  have "posts p = recvs p @ bq_contents (demo_q p) \<and> length (bq_contents (demo_q p)) \<le> 1024 \<and> set (posts p) \<subseteq> range blockq_letter \<and>
     (\<exists>a b. nPosted p = word_of_nat a \<and> nRecved p = word_of_nat b \<and> b \<le> a + np \<and> a \<le> b + nc + 1024)" .
  moreover have "range blockq_letter \<subseteq> {65 .. 90}" by (rule letters_range)
  ultimately show ?thesis by blast
qed

theorem blockq_counters_witness:
  "\<exists>p0 p. demo_run blockq_producer blockq_consumer p0 p \<and> posts p = [65] \<and> bq_contents (demo_q p) = [65] \<and>
     (\<exists>a b. nPosted p = word_of_nat a \<and> nRecved p = word_of_nat b \<and> b \<le> a + 1 \<and> a \<le> b + 1024)"
proof -
  let ?junk = "\<lambda>_. \<lparr>qnext = None, object = 0 :: int\<rparr>"
  obtain s1 q0 where q: "blockq_new True ?junk 1024 0 0 1 hire_scene = Some (Some q0, s1)"
    "bq_inv q0" "bq_contents q0 = []" "limit q0 = 1024" "bq_lock q0 = 0" "bq_empt q0 = 0" "bq_full q0 = 1"
    using blockq_new_spec[of 1024 ?junk 0 0 1 hire_scene] by auto
  then have "s1 = snd (fiber_cond_init 1 (snd (fiber_cond_init 0 hire_scene)))"
    by (auto simp: blockq_new_def Let_def split_beta hire_scene_def fiber_cond_init_def)
  from hire_create[OF this] obtain s2 where "fiber_create life_platform 0 7 9 0 8192 s1 = Some (Some 2, s2)" by blast
  then have p0: "blockq_initializeTasks life_platform 0 (\<lambda>_. 7) (\<lambda>_. 9) 1 0 (demo_start s1 q0) =
      Some (enrol (Producer 0) (Some 2) ((demo_start s1 q0)\<lparr>demo_lib := s2\<rparr>))" (is "_ = Some ?p0")
    by (simp add: blockq_initializeTasks_def demo_roles_def FIBER_STACKSIZE_MIN_def demo_start_def)
  have h: "enterable wide_scene (map_of wide_queues) 0 0 0 [1, 2] 2 (bq_lock q0)" "bq_count q0 < limit q0"
    "map_of wide_queues (CondWaitq (bq_empt q0)) = Some [3]" "waiters_ok wide_scene (map_of wide_queues) 2 (CondWaitq (bq_empt q0))"
    using wide_enterable wide_waiters wide_sel q bq_contents_count[OF q(2)] by simp_all
  obtain s q1 where push: "blockq_push 0 65 wide_scene q0 = Some (Returns (), s, q1)" "bq_contents q1 = [65]"
    using blockq_push_completes[OF h(1) q(2) h(2-4), of 65] q(3) by auto
  let ?p1 = "?p0\<lparr>demo_lib := wide_scene\<rparr>"
  have r1: "demo_run blockq_producer blockq_consumer ?p0 ?p1" by (rule demo_run.other[OF demo_run.start])
  have turn: "blockq_producer 0 2 ?p1 = Some (pushed 2 65 (Returns (), s, q1) ?p1)"
    using push(1) by (simp add: blockq_producer_def producer_turn_def blockq_letter_def demo_start_def)
  have run: "demo_run blockq_producer blockq_consumer ?p0 (pushed 2 65 (Returns (), s, q1) ?p1)"
    by (rule demo_run.produce[OF r1 _ turn]) simp
  from blockq_counters[OF q(1) p0 run] push(2) run show ?thesis
    by (intro exI[of _ ?p0] exI[of _ "pushed 2 65 (Returns (), s, q1) ?p1"]) (auto simp: demo_start_def)
qed

section \<open>The readers-writer lock\<close>

text \<open>
  C27.  Exclusion: in every run of clients that lock and unlock the readers-writer lock, in any
  order and with any changes of the rest of the system in between, there is at most one writer
  inside, and no reader is inside together with a writer; the flag and the counter of the lock say
  exactly who is inside.
\<close>

theorem rwlock_exclusion:
  assumes "rw_reachable (s, l, R, W)"
  shows "length W \<le> 1 \<and> (W \<noteq> [] \<longrightarrow> R = []) \<and> readers l = int (length R) \<and> writer l = (W \<noteq> [])"
  using rw_reachable_inv[OF assms] by (auto simp: rw_inv_def split: if_splits)

theorem rwlock_exclusion_witness:
  "\<exists>s l. rw_reachable (s, l, [], [2]) \<and> readers l = 0 \<and> writer l"
proof -
  obtain v s0 l where i: "rwlock_init 0 0 wide_scene = (v, s0, l)" by (metis prod_cases3)
  then have l: "l = \<lparr>rw_mutex = 0, rw_unlocked = 0, writer = False, readers = 0\<rparr>"
    by (auto simp: rwlock_init_def Let_def split: prod.splits)
  have a: "rw_reachable (wide_scene, l, [], [])" by (rule rw_reachable.step[OF rw_reachable.start[OF i] rw_step.other])
  obtain s1 where e: "rwlock_wrlock 0 wide_scene l = Some (Returns 0, s1, l\<lparr>writer := True\<rparr>)"
    using wrlock_enters[of wide_scene "map_of wide_queues" 0 0 0 "[1, 2]" 2 l] wide_enterable l by (auto simp: occupied_def)
  have "rw_reachable (s1, l\<lparr>writer := True\<rparr>, [], [2])" by (rule rw_reachable.step[OF a rw_step.wr_in[OF e]])
  from this rwlock_exclusion[OF this] show ?thesis
    by (intro exI[of _ s1] exI[of _ "l\<lparr>writer := True\<rparr>"]) simp
qed



section \<open>Pipes\<close>

text \<open>
  C29.  A new pipe is empty and well formed, for every element size and limit whose sizes in bytes
  do not overflow: the buffer holds 32 elements, and the limit is the least power of two of bytes
  that is not below \<open>limit + 1\<close> elements and the first buffer; without a limit it is the largest
  \<open>size_t\<close>.
\<close>

theorem pipe_new_correct:
  assumes "0 < z" "DEFAULT_MINCAP * z < 2 ^ 63" "(lim + 1) * z < 2 ^ 63" "allocates malloc" "malloc (DEFAULT_MINCAP * z) \<noteq> None"
  shows "\<exists>p d. pipe_new nd True malloc (bl, el, cpush, cpop) z lim = Some (Some p) \<and> pipe_ring_ok p d \<and> pipe_bytes p = [] \<and>
     check_invariants p \<and> elem_size p = z \<and> bufend p = DEFAULT_MINCAP * z \<and> min_cap p = DEFAULT_MINCAP * z \<and>
     producer_refcount p = 1 \<and> consumer_refcount p = 1 \<and> begin_lock p = bl \<and> end_lock p = el \<and> just_pushed p = cpush \<and> just_popped p = cpop \<and>
     (if lim = 0 then max_cap p = 2 ^ 64 - 1
      else \<exists>k. max_cap p = 2 ^ k \<and> (\<forall>j. max ((lim + 1) * z) (DEFAULT_MINCAP * z) \<le> 2 ^ j \<longleftrightarrow> k \<le> j))"
  using pipe_new_spec[OF assms] .

theorem pipe_new_correct_witness:
  "\<exists>p d k. pipe_new False True zeros (0, 1, 0, 1) 12 99 = Some (Some p) \<and> pipe_ring_ok p d \<and> pipe_bytes p = [] \<and>
     max_cap p = 2 ^ k \<and> 2 ^ k \<ge> (1200 :: nat) \<and> k \<le> 11"
proof -
  have z: "allocates zeros" "zeros (DEFAULT_MINCAP * 12) \<noteq> None" using zeros_ok by auto
  from pipe_new_correct[OF _ _ _ z, of 99 False 0 1 0 1] obtain p d k where
    p: "pipe_new False True zeros (0, 1, 0, 1) 12 99 = Some (Some p)" "pipe_ring_ok p d" "pipe_bytes p = []" "max_cap p = 2 ^ k"
    "\<And>j. max (1200 :: nat) 384 \<le> 2 ^ j \<longleftrightarrow> k \<le> j"
    by (auto simp: DEFAULT_MINCAP_def)
  from p(5)[of k] p(5)[of 11] have "2 ^ k \<ge> (1200 :: nat)" "k \<le> 11" by simp_all
  with p(1-4) show ?thesis by blast
qed

text \<open>
  C30.  A push that is far from the limit of the pipe appends exactly the given elements to the
  contents, growing the buffer when they do not fit and keeping the order of what is there; it keeps
  the invariants the code asserts, releases both locks, and wakes the consumer that has waited
  longest (one element) or all of them.  When no consumer is left the elements are dropped and
  nothing changes.  The call never blocks and never fails an assertion.
\<close>

theorem pipe_push_correct:
  assumes "pipe_idle s Q th c p" "pipe_ring_ok p d" "wakes s Q th c (just_pushed p) ws"
    and "allocates malloc" "\<And>n. malloc n \<noteq> None"
    and "0 < n" "n * elem_size p \<le> length elems" "2 * (used p + n * elem_size p + elem_size p) < 2 ^ 62" "min_cap p \<le> bufend p"
    and "far_from_limit p (n * elem_size p)" "nd \<or> check_invariants p" "max_cap p < 2 ^ 64"
  shows "\<exists>s' p' d' Q'. pipe_push nd malloc th elems n s p = Some (Returns (), s', p') \<and> queues s' Q' \<and>
     unowned s' (begin_lock p) \<and> unowned s' (end_lock p) \<and> current_task s' = current_task s \<and> frame s s' \<and>
     (if consumer_refcount p = 0 then p' = p \<and> Q' = Q
      else pipe_ring_ok p' d' \<and> pipe_bytes p' = pipe_bytes p @ take (n * elem_size p) elems \<and>
        (check_invariants p \<longrightarrow> check_invariants p') \<and>
        Q' (CondWaitq (just_pushed p)) = Some (if n = 1 then tl ws else []))"
proof (cases "consumer_refcount p = 0")
  case True
  have "0 < n * elem_size p" using assms(6) ring_okD(3)[OF assms(2)] by simp
  moreover have "usz (int (n * elem_size p)) = n * elem_size p" by (rule usz_nat) (use assms(8) in simp)
  ultimately have "0 < usz (int (n * elem_size p))" by (simp only:)
  from pipe_push_closed[OF assms(1) True this, of nd malloc elems] True show ?thesis by auto
next
  case False
  then show ?thesis using pipe_push_spec[OF assms(1-5) _ assms(6-12)] by fastforce
qed

theorem pipe_push_correct_witness:
  "\<exists>s' p' Q'. pipe_push False zeros 0 [7] 1 wide_scene (small_pipe 4096 2) = Some (Returns (), s', p') \<and>
     pipe_bytes p' = [1, 2, 7] \<and> queues s' Q' \<and> Q' (CondWaitq 0) = Some []"
proof -
  have b: "pipe_bytes (small_pipe 4096 2) = [1, 2]" by (simp add: small_pipe_bytes) code_simp
  have "far_from_limit (small_pipe 4096 2) (1 * elem_size (small_pipe 4096 2))" "False \<or> check_invariants (small_pipe 4096 2)"
    using small_pipe_inv[of 4096 2] by (simp_all add: far_from_limit_def small_pipe_used)
  from pipe_push_correct[OF small_pipe_idle small_pipe_ok small_pipe_wakes(1) zeros_ok _ _ _ _ this, of "[7]"]
  show ?thesis by (fastforce simp: small_pipe_used b)
qed



text \<open>
  C32.  A pipe whose limit equals its first buffer loses everything when it is full and one more
  element is pushed: the test for room compares with the limit in bytes, not with the capacity, so
  the push neither waits nor grows the buffer, the end meets the beginning, and the pipe is empty
  afterwards.  The assertions of the code do not notice.
\<close>

theorem pipe_full_push_loses_data:
  assumes "pipe_idle s Q th c p" "pipe_ring_ok p d" "wakes s Q th c (just_pushed p) ws"
    and "0 < consumer_refcount p" "used p = bufend p - elem_size p"
    and "min_cap p = bufend p" "max_cap p = bufend p" "usz (int (DEFAULT_MINCAP * elem_size p)) \<le> min_cap p"
    and "elem_size p \<le> length elems" "2 * (bufend p + elem_size p) < 2 ^ 62"
  shows "\<exists>s' p'. pipe_push nd malloc th elems 1 s p = Some (Returns (), s', p') \<and> pipe_bytes p' = [] \<and> check_invariants p'"
proof -
  have u: "usz (int (1 * pipe_elem_size p)) = elem_size p"
    unfolding pipe_elem_size_def mult_1 by (rule usz_nat) (use ring_okD(4,5)[OF assms(2)] in simp)
  from push_when_full[OF assms, of nd malloc] obtain s' p' where
    "push_once nd malloc th elems (elem_size p) s p = Some (Returns 0, s', p')" "pipe_bytes p' = []" "check_invariants p'" by blast
  moreover from this(1) have "pipe_push nd malloc th elems 1 s p = Some (Returns (), s', p')"
    unfolding pipe_push_def u using ring_okD(3)[OF assms(2)]
    by (simp add: pipe_push_bytes.simps[of _ _ _ _ "elem_size p"] pipe_push_bytes.simps[of _ _ _ _ 0])
  ultimately show ?thesis by blast
qed

theorem pipe_full_push_loses_data_witness:
  "length (pipe_bytes (small_pipe 32 31)) = 31 \<and>
   (\<exists>s' p'. pipe_push False zeros 0 [7] 1 wide_scene (small_pipe 32 31) = Some (Returns (), s', p') \<and> pipe_bytes p' = [])"
  using pipe_full_push_loses_data[OF small_pipe_idle small_pipe_ok small_pipe_wakes(1), of 32 31 "[7]" False zeros]
  by (auto simp: small_pipe_used DEFAULT_MINCAP_def usz_def)

text \<open>
  C33.  A push can be missed when the tasks run on several threads: a consumer locks the beginning of the empty pipe and
  finds no element; a producer on another thread pushes one, for which it needs only the other lock, and
  signals nobody; then the consumer begins to wait.  It sleeps although the pipe holds an element, and the lock is free.
\<close>

theorem pipe_push_can_be_missed:
  assumes "running s Q th0 dd m us c" "c \<noteq> m" "current_task s th1 = Some c1" "th1 \<noteq> th0" "\<not> one_n_model s"
    and "pipe_idle s Q th0 c p" "pipe_ring_ok p d" "Q (CondWaitq (just_pushed p)) = Some []"
    and "pipe_bytes p = []" "0 < producer_refcount p" "0 < consumer_refcount p"
    and "elem_size p \<le> length elems" "2 * elem_size p \<le> bufend p" "elem_size p \<le> max_cap p" "max_cap p < 2 ^ 64"
  shows "\<exists>s1 s2 p2 s3 Q3. pop_look th0 s p = Some (Returns True, s1, p) \<and>
     pipe_push nd malloc th1 elems 1 s1 p = Some (Returns (), s2, p2) \<and> pipe_bytes p2 = take (elem_size p) elems \<and>
     pop_sleep th0 s2 p2 = Some (Switched, s3, p2) \<and> queues s3 Q3 \<and> Q3 (CondWaitq (just_pushed p)) = Some [c] \<and>
     unowned s3 (begin_lock p) \<and> current_task s3 th0 \<noteq> Some c"
  by (rule missed_push[OF assms(1,2,6,3,8,7,9-15)])

theorem pipe_push_can_be_missed_witness:
  "\<exists>s1 s2 p2 s3 Q3. pop_look 0 three_threads (small_pipe 128 0) = Some (Returns True, s1, small_pipe 128 0) \<and>
     pipe_push False zeros 1 [7] 1 s1 (small_pipe 128 0) = Some (Returns (), s2, p2) \<and> pipe_bytes p2 = [7] \<and>
     pop_sleep 0 s2 p2 = Some (Switched, s3, p2) \<and> queues s3 Q3 \<and> Q3 (CondWaitq 0) = Some [2]"
proof -
  have b: "pipe_bytes (small_pipe 128 0) = []" "0 < producer_refcount (small_pipe 128 0)" "0 < consumer_refcount (small_pipe 128 0)"
    using small_pipe_used[of 0 128] by (simp_all add: pipe_bytes_def) (simp add: small_pipe_def)
  have h: "(2 :: nat) \<noteq> 0" "(1 :: nat) \<noteq> 0" "elem_size (small_pipe 128 0) \<le> length [7 :: 8 word]"
    "2 * elem_size (small_pipe 128 0) \<le> bufend (small_pipe 128 0)" "elem_size (small_pipe 128 0) \<le> max_cap (small_pipe 128 0)"
    "max_cap (small_pipe 128 0) < 2 ^ 64" "map_of three_queues (CondWaitq (just_pushed (small_pipe 128 0))) = Some []" by simp_all
  from pipe_push_can_be_missed[OF three_threads_running(1) h(1) three_threads_sel(1) h(2) three_threads_sel(3) three_threads_idle small_pipe_ok
      h(7) b h(3-6), of False zeros]
  show ?thesis by auto
qed

section \<open>The condition variable for Windows before Vista\<close>

text \<open>
  C34.  With broadcasts by the holder of the mutex, in every interleaving of any number of threads: \<open>release_count\<close> is
  the number of the threads that were notified and have not yet taken their share; each of them that sleeps or checks gets to the
  mutex by steps of its own, a thread that came after the last broadcast does not, and a broadcast notifies everybody who
  is inside of \<open>cond_wait\<close>.
\<close>

theorem win_broadcast_wakes:
  assumes "manual_reset A" "wc_reachable A broadcasts_inside s"
  shows "release_count (wc_cond s) = int (card {t. counted_in (wc_at s t) \<and> my_generation s t < wait_generation_count (wc_cond s)}) \<and>
    (\<forall>t. my_generation s t < wait_generation_count (wc_cond s) \<longrightarrow>
      (wc_at s t = Sleeping \<longrightarrow> wc_run A [Turn t, Turn t] s = Some (wc_goto t Relocking s)) \<and>
      (wc_at s t = Checking \<longrightarrow> wc_next A (Turn t) s = Some (wc_goto t Relocking s))) \<and>
    (\<forall>t. my_generation s t = wait_generation_count (wc_cond s) \<and> wc_at s t = Checking \<longrightarrow>
      wc_next A (Turn t) s = Some (wc_goto t Sleeping s)) \<and>
    (\<forall>u s' t. wc_next A (Broadcast u) s = Some s' \<and> counted_in (wc_at s t) \<longrightarrow>
      my_generation s' t < wait_generation_count (wc_cond s'))"
proof -
  note inv = disciplined_inv[OF assms]
  then have "release_count (wc_cond s) = int (card {t. counted_in (wc_at s t) \<and> my_generation s t < wait_generation_count (wc_cond s)})"
    by (simp add: broadcast_inv_def owes_def owed_def wc_place_def)
  then show ?thesis
    using owed_proceeds[OF inv] unnotified_stays[of s] broadcast_owes_all[of s] inv unfolding broadcast_inv_def by blast
qed

theorem win_broadcast_wakes_witness:
  "\<exists>s. wc_run flag_event [Lock 1, Wait 1, Turn 1, Lock 0, Broadcast 0, Unlock 0] (wc_start flag_event) = Some s \<and>
     release_count (wc_cond s) = 1 \<and> wc_run flag_event [Turn 1, Turn 1] s = Some (wc_goto 1 Relocking s)"
proof -
  obtain s where s: "wc_run flag_event [Lock 1, Wait 1, Turn 1, Lock 0, Broadcast 0, Unlock 0] (wc_start flag_event) = Some s"
    "release_count (wc_cond s) = 1" "wc_at s 1 = Sleeping" "my_generation s 1 < wait_generation_count (wc_cond s)"
    by (simp add: wc_eval)
  have "wc_reachable flag_event broadcasts_inside s"
    by (rule run_reachable[OF wc_reachable.start _ s(1)]) (simp add: broadcasts_inside_def wc_eval)
  from win_broadcast_wakes[OF flag_manual_reset this] s show ?thesis by blast
qed


section \<open>Kernel events\<close>

text \<open>
  C36.  Delivery of a kernel event: when the message loop posts an event to the task that waits in
  \<open>fiber_epoll_wait\<close>, the task becomes ready, and when it runs again its call returns one event with
  the reported mask and the registered descriptor.
\<close>

theorem epoll_event_delivered:
  assumes "quiet s" "queues s Q" "node_free Q t" "wakeable s Q t" "one_n_model s \<longrightarrow> scheduler (tcbs s t) = the_maintask s th"
    and "flags s t AND STATES_WAITFOR_EVENT \<noteq> 0" "waitingEvents (tcbs s t) = EVENT_BITMASK_EPOLL"
    and "registered s H t (ep_data e) ctx"
  shows "\<exists>s' H'. fiber_epoll_post th 1 (e # es) s H = Some (0, s', H') \<and>
     queues s' (activated (one_n_model s \<or> scheduler (tcbs s t) = the_maintask s th) (tcbs s t) t (untimed (tcbs s t) t Q)) \<and>
     (\<forall>th' out outs. \<exists>e'. epoll_wait_result th' (seizedEvents (tcbs s' t)) (out # outs) (s'\<lparr>current_task := (current_task s')(th' := Some t)\<rparr>) H'
        = Some (1, e' # outs) \<and> ep_events e' = ep_events e \<and> data_fd (ep_data e') = ec_fd ctx)"
proof -
  let ?p = "pendingEvents (tcbs s t) OR EVENT_BITMASK_EPOLL" and ?ctx = "ctx\<lparr>ec_events := ep_events e\<rparr>"
  have pe: "?p AND EVENT_BITMASK_EPOLL = EVENT_BITMASK_EPOLL" by (rule bit_word_eqI) (auto simp: bit_simps)
  have nz: "EVENT_BITMASK_EPOLL \<noteq> 0" by (simp add: EVENT_BITMASK_EPOLL_def)
  have hit: "event_hit ?p (waitingEvents (tcbs s t)) (waitingOptions (tcbs s t))" using assms(7) pe nz by (simp add: event_hit_epoll)
  obtain s' where s': "fiber_event_post th t EVENT_BITMASK_EPOLL s = Some (0, s')"
    "queues s' (activated (one_n_model s \<or> scheduler (tcbs s t) = the_maintask s th) (tcbs s t) t (untimed (tcbs s t) t Q))"
    "seizedEvents (tcbs s' t) = ?p AND waitingEvents (tcbs s t)" "taskLocalStorages (tcbs s' t) = taskLocalStorages (tcbs s t)"
    using event_post_wakes[OF assms(1-4,6) hit _ refl] assms(5) by blast
  let ?H = "H(ep_data e \<mapsto> ?ctx)"
  have post: "fiber_epoll_post th 1 (e # es) s H = Some (0, s', ?H)"
    using epoll_post_one[OF s'(1)] assms(8) by (simp add: registered_def)
  have "registered (s'\<lparr>current_task := (current_task s')(th' := Some t)\<rparr>) ?H t (ep_data e) ?ctx" for th'
    using assms(8) s'(4) by (simp add: registered_def)
  from epoll_result_registered[OF this] have
    "epoll_wait_result th' (seizedEvents (tcbs s' t)) (out # outs) (s'\<lparr>current_task := (current_task s')(th' := Some t)\<rparr>) ?H =
      Some (1, out\<lparr>ep_events := ep_events e, ep_data := put_fd (ec_fd ctx) (ep_data out)\<rparr> # outs)" for th' out outs
    using s'(3) assms(7) pe nz by simp
  with post s'(2) show ?thesis by (intro exI[of _ s'] exI[of _ ?H]) simp
qed

theorem epoll_event_delivered_witness:
  "\<exists>s' H' e'. fiber_epoll_post 0 1 [\<lparr>ep_events = EPOLLIN, ep_data = 0x1000\<rparr>] epoll_scene epoll_contexts = Some (0, s', H') \<and>
     epoll_wait_result 0 (seizedEvents (tcbs s' 5)) [\<lparr>ep_events = 0, ep_data = 0\<rparr>] (s'\<lparr>current_task := (current_task s')(0 := Some 5)\<rparr>) H'
       = Some (1, [e']) \<and> ep_events e' = EPOLLIN \<and> data_fd (ep_data e') = 9"
proof -
  have r: "registered epoll_scene epoll_contexts 5 (ep_data \<lparr>ep_events = EPOLLIN, ep_data = 0x1000\<rparr>) \<lparr>ec_fd = 9, ec_events = 0, ec_tcb = Some 5\<rparr>"
    using epoll_scene_ok(6) by simp
  have h: "one_n_model epoll_scene \<longrightarrow> scheduler (tcbs epoll_scene 5) = the_maintask epoll_scene 0"
    "waitingEvents (tcbs epoll_scene 5) = EVENT_BITMASK_EPOLL" by (simp_all add: epoll_scene_def)
  from epoll_event_delivered[OF epoll_scene_ok(1-4) h(1) epoll_scene_ok(5) h(2) r] show ?thesis
    by (metis EventContext.select_convs(1) epoll_event.select_convs(1))
qed

section \<open>The demo programs\<close>

text \<open>
  C37.  The generator program ends its loops with every number printed: three turns of the tasks make one
  round, \<open>k\<close> rounds print exactly the first \<open>k\<close> numbers in order, and after 3000 turns the main task has
  printed 0 to 999 and leaves its loop.
\<close>

theorem generator_prints:
  assumes "round_start p Q th d m 0" "k \<le> 1000"
  shows "(\<exists>p'. turns (3 * k) th p = Some p' \<and> printed p' = map int [0 ..< k] \<and> main_i p' = int k \<and> gen_i p' = int k) \<and>
     (\<exists>p'. turns 3001 th p = Some p' \<and> printed p' = map int [0 ..< 1000] \<and> main_at p' = Main_return)"
proof
  show "\<exists>p'. turns (3 * k) th p = Some p' \<and> printed p' = map int [0 ..< k] \<and> main_i p' = int k \<and> gen_i p' = int k"
    using generator_rounds[OF assms] by (auto simp: round_start_def)
  obtain p1 where p1: "turns (3 * 1000) th p = Some p1" "round_start p1 Q th d m 1000"
    using generator_rounds[OF assms(1), of 1000] by auto
  have "turns (3 * 1000 + Suc 0) th p = Some (p1\<lparr>main_at := Main_return\<rparr>)"
    unfolding turns_add p1(1) using main_returns[OF p1(2)] by simp
  then have "turns 3001 th p = Some (p1\<lparr>main_at := Main_return\<rparr>)" by simp
  then show "\<exists>p'. turns 3001 th p = Some p' \<and> printed p' = map int [0 ..< 1000] \<and> main_at p' = Main_return"
    using p1(2) by (auto simp: round_start_def)
qed

theorem generator_prints_witness:
  "\<exists>p'. turns 12 0 demo_generator = Some p' \<and> printed p' = [0, 1, 2, 3]"
proof -
  have "map int [0 ..< 4] = [0, 1, 2, 3]" by (simp add: upt_rec)
  then show ?thesis using generator_prints[OF demo_generator_start, of 4] by auto
qed

text \<open>
  C38.  The readers and the writer of the database program: in every interleaving of the statements of any number of
  readers and the writer, a writer that got past its wait for \<open>db\<close> is alone at the database until it posts \<open>db\<close>: no
  reader is between its wait and its leave, and no second writer is there.
\<close>

theorem reader_writer_exclusion:
  assumes "rw_demo_reachable rs wt s" "writes_db s w"
  shows "\<not> reads_db s t \<and> (writes_db s w' \<longrightarrow> w' = w)"
  using database_exclusion[OF rw_demo_reachable_inv[OF assms(1)] assms(2)] by blast

theorem reader_writer_exclusion_witness:
  "\<exists>s. rw_demo_reachable [1, 2] 9 s \<and> writes_db s 9 \<and> pc_of s 1 = R_lock \<and> \<not> reads_db s 1"
proof -
  let ?s0 = "initialize_rw [1, 2] 9"
  let ?s1 = "writer_turn 9 0 ?s0" let ?s2 = "writer_turn 9 0 ?s1" let ?s3 = "reader_turn 1 ?s2"
  note ev = runnable_def writer_turn_def reader_turn_def initialize_rw_def asem_new_def asem_wait_def amutex_new_def MAXTHREAD_def
  have "rw_demo_reachable [1, 2] 9 ?s1" by (rule rw_demo_reachable.writes[OF rw_demo_reachable.start]) (simp add: ev)
  then have "rw_demo_reachable [1, 2] 9 ?s2" by (rule rw_demo_reachable.writes) (simp add: ev)
  then have r: "rw_demo_reachable [1, 2] 9 ?s3" by (rule rw_demo_reachable.reads) (simp add: ev)
  have "writes_db ?s3 9" "pc_of ?s3 1 = R_lock" by (simp_all add: ev writes_db_def writing_def)
  with reader_writer_exclusion[OF r, of 9 1] r show ?thesis by blast
qed

text \<open>
  C39.  The tasks of the database program never wait for each other in a circle: in every reachable state of the program,
  as long as it has a task, one of its tasks is not waiting for a semaphore or the mutex and can go on.
\<close>

theorem reader_writer_never_deadlocks:
  assumes "rw_demo_reachable rs wt s" "pc_of s t \<noteq> Absent"
  shows "\<exists>u. runnable s u \<and> pc_of s u \<noteq> Absent"
  using never_deadlocked[OF rw_demo_reachable_inv[OF assms(1)] assms(2)] by (simp add: can_go_on_def)

theorem reader_writer_never_deadlocks_witness:
  "\<exists>s u. rw_demo_reachable [1, 2] 9 s \<and> \<not> runnable s 1 \<and> runnable s u \<and> pc_of s u \<noteq> Absent"
proof -
  let ?s0 = "initialize_rw [1, 2] 9"
  let ?s1 = "writer_turn 9 0 ?s0" let ?s2 = "reader_turn 1 ?s1"
  note ev = runnable_def writer_turn_def reader_turn_def initialize_rw_def asem_new_def asem_wait_def amutex_new_def MAXTHREAD_def
  have "rw_demo_reachable [1, 2] 9 ?s1" by (rule rw_demo_reachable.writes[OF rw_demo_reachable.start]) (simp add: ev)
  then have r: "rw_demo_reachable [1, 2] 9 ?s2" by (rule rw_demo_reachable.reads) (simp add: ev)
  have "\<not> runnable ?s2 1" "pc_of ?s2 1 \<noteq> Absent" by (simp_all add: ev)
  with reader_writer_never_deadlocks[OF r, of 1] r show ?thesis by blast
qed



end
